(* ===== verification/KV_Prelude.thy ===== *)
theory KV_Prelude
  imports Main "HOL-Library.Word" "HOL-Library.Monad_Syntax"
begin

text \<open>
  Shared vocabulary of the development: the C++ machine types, blocks of memory with
  bounds-checked accesses, and the lemmas on them that every component uses.

  A computation that the compiled program would abort is the value \<open>None\<close>. The build
  file src/CMakeLists.txt fixes a Debug build with \<open>-fsanitize=address\<close>, so that both a
  failed \<open>assert\<close> and an access outside its block end the process: \<open>cassert\<close>, \<open>load8\<close>,
  \<open>store8\<close>, \<open>load_range\<close> and \<open>store_range\<close> are these two ways to abort. Wherever a
  theorem says that an operation is \<open>Some\<close>, it says in particular that no assertion of
  the source fails and that no access of the source leaves its block.
\<close>

unbundle bit_operations_syntax

section \<open>Machine types\<close>

type_synonym byte = "8 word"
type_synonym u32 = "32 word"
type_synonym u64 = "64 word"

text \<open>
  The bytes of a block of memory (an array, the buffer of a \<open>std::string\<close>), in address
  order; a pointer into the block is its offset. A \<open>std::string\<close> is the list of its bytes.
\<close>

type_synonym block = "byte list"

named_theorems mem_defs \<open>definitions of the memory accesses and assertions\<close>
named_theorems mem_simps \<open>evaluation of memory accesses that stay in their block\<close>

section \<open>Assertions and memory accesses\<close>

definition cassert :: "bool \<Rightarrow> unit option" where
  "cassert b = (if b then Some () else None)"

definition load8 :: "block \<Rightarrow> nat \<Rightarrow> byte option" where
  "load8 m p = (if p < length m then Some (m ! p) else None)"

definition store8 :: "block \<Rightarrow> nat \<Rightarrow> byte \<Rightarrow> block option" where
  "store8 m p b = (if p < length m then Some (m[p := b]) else None)"

text \<open>The \<open>n\<close> bytes at \<open>p\<close> (what \<open>memcpy\<close>, \<open>memcmp\<close> or \<open>std::string(p, n)\<close> read).\<close>

definition load_range :: "block \<Rightarrow> nat \<Rightarrow> nat \<Rightarrow> byte list option" where
  "load_range m p n = (if p + n \<le> length m then Some (take n (drop p m)) else None)"

text \<open>\<open>memcpy\<close> into a block.\<close>

definition store_range :: "block \<Rightarrow> nat \<Rightarrow> byte list \<Rightarrow> block option" where
  "store_range m p bs =
     (if p + length bs \<le> length m then Some (take p m @ bs @ drop (p + length bs) m) else None)"

declare cassert_def [mem_defs] load8_def [mem_defs] store8_def [mem_defs]
  load_range_def [mem_defs] store_range_def [mem_defs]

lemma cassert_True [simp]: "cassert True = Some ()"
  by (simp add: cassert_def)

lemma cassert_False [simp]: "cassert False = None"
  by (simp add: cassert_def)

lemma cassert_eq_Some [simp]: "cassert b = Some u \<longleftrightarrow> b"
  by (simp add: cassert_def)

lemma load8_in [mem_simps]: "p < length m \<Longrightarrow> load8 m p = Some (m ! p)"
  by (simp add: load8_def)

lemma load8_append [simp]: "load8 (pre @ b # post) (length pre) = Some b"
  by (simp add: load8_def nth_append)

lemma store8_append [simp]: "store8 (pre @ b # post) (length pre) c = Some (pre @ c # post)"
  by (simp add: store8_def list_update_append)

lemma load_range_append [simp]: "load_range (pre @ bs @ post) (length pre) (length bs) = Some bs"
  by (simp add: load_range_def)

lemma store_range_append:
  "length old = length bs \<Longrightarrow> store_range (pre @ old @ post) (length pre) bs = Some (pre @ bs @ post)"
  by (simp add: store_range_def)

lemma length_store8: "store8 m p b = Some m' \<Longrightarrow> length m' = length m"
  by (auto simp: store8_def split: if_splits)

lemma load_range_length: "load_range m p n = Some bs \<Longrightarrow> length bs = n"
  by (auto simp: load_range_def split: if_splits)

text \<open>Writing a run of bytes one at a time, the shape of every encoder's body.\<close>

fun store_seq :: "block \<Rightarrow> nat \<Rightarrow> byte list \<Rightarrow> (block \<times> nat) option" where
  "store_seq m p [] = Some (m, p)"
| "store_seq m p (b # bs) = do { m' \<leftarrow> store8 m p b; store_seq m' (p + 1) bs }"

lemma store_seq_append:
  "length old = length bs \<Longrightarrow>
   store_seq (pre @ old @ post) (length pre) bs = Some (pre @ bs @ post, length pre + length bs)"
proof (induction bs arbitrary: pre old)
  case Nil
  then show ?case by simp
next
  case (Cons b bs)
  then obtain c old' where old: "old = c # old'" and len: "length old' = length bs"
    by (cases old) auto
  have "store_seq ((pre @ [b]) @ old' @ post) (length (pre @ [b])) bs =
      Some ((pre @ [b]) @ bs @ post, length (pre @ [b]) + length bs)"
    using len by (rule Cons.IH)
  with old show ?case by simp
qed

lemma split_block:
  assumes "p + n \<le> length m"
  obtains pre old post where "m = pre @ old @ post" "length pre = p" "length old = n"
proof
  show "m = take p m @ take n (drop p m) @ drop (p + n) m"
    by (metis append_take_drop_id drop_drop add.commute)
qed (use assms in auto)

section \<open>Generic lemmas\<close>

lemma bind_SomeI: "m = Some a \<Longrightarrow> f a = r \<Longrightarrow> Option.bind m f = r"
  by simp

lemma sgn_less_iff [simp]: "sgn (x::int) < 0 \<longleftrightarrow> x < 0"
  by (simp add: sgn_if)

lemma takeWhile_dropWhile_split: "xs = takeWhile P xs @ dropWhile P xs"
  by simp

lemma unat_lt_256: "unat (b::byte) < 256"
  using unsigned_less [of b] by simp

section \<open>Words: little-endian digits, shifts and ors\<close>

fun le_bytes :: "nat \<Rightarrow> nat \<Rightarrow> byte list" where
  "le_bytes 0 n = []"
| "le_bytes (Suc k) n = word_of_nat n # le_bytes k (n div 256)"

fun le_value :: "byte list \<Rightarrow> nat" where
  "le_value [] = 0"
| "le_value (b # bs) = unat b + 256 * le_value bs"

lemma length_le_bytes [simp]: "length (le_bytes k n) = k"
  by (induction k arbitrary: n) auto

lemma le_value_bytes: "le_value (le_bytes k n) = n mod 256 ^ k"
  by (induction k arbitrary: n) (simp_all add: unat_of_nat mod_mult2_eq mult.commute)

lemma le_value_less: "le_value bs < 256 ^ length bs"
proof (induction bs)
  case (Cons b bs)
  then show ?case using unat_lt_256 [of b] by simp
qed simp

lemma le_bytes_value: "le_bytes (length bs) (le_value bs) = bs"
proof (induction bs)
  case (Cons b bs)
  have "(unat b + 256 * le_value bs) div 256 = le_value bs" 
    using unat_lt_256 [of b] by simp
  moreover have "(word_of_nat (unat b + 256 * le_value bs) :: byte) = b"
    using unat_lt_256 [of b] by (simp only: word_unat_eq_iff unat_of_nat) simp
  ultimately show ?case using Cons by simp
qed simp

lemma unat_drop_bit: "unat (drop_bit k (v::'a::len word)) = unat v div 2 ^ k"
proof -
  have "unat (drop_bit k v) = drop_bit k (take_bit LENGTH('a) (unat v))"
    by (rule unsigned_drop_bit_eq)
  also have "take_bit LENGTH('a) (unat v) = unat v"
    by (rule take_bit_nat_eq_self) simp
  finally show ?thesis by (simp only: drop_bit_eq_div)
qed

lemma ucast_drop_bit_byte: "(ucast (drop_bit k (v::'a::len word)) :: byte) = word_of_nat (unat v div 2 ^ k)"
  by (metis of_nat_unat unat_drop_bit)

lemma ucast_byte: "(ucast (v::'a::len word) :: byte) = word_of_nat (unat v)"
  by simp

lemma or_push_bit:
  fixes x :: "'a::len word"
  assumes "unat x < 2 ^ k"
  shows "x OR push_bit k y = x + push_bit k y"
proof -
  have "take_bit k x = x" using assms
    by (metis take_bit_nat_eq_self_iff unsigned_take_bit_eq word_unat_eq_iff)
  then have "bit x n \<Longrightarrow> n < k" for n
    by (metis bit_take_bit_iff)
  then show ?thesis
    by (subst disjunctive_add [symmetric]) (force simp: bit_simps dest: leD)+
qed

lemma unat_push_bit:
  assumes "2 ^ k * unat (w::'a::len word) < 2 ^ LENGTH('a)"
  shows "unat (push_bit k w) = 2 ^ k * unat w"
proof -
  have "unat (push_bit k w) = take_bit LENGTH('a) (push_bit k (unat w))"
    by (rule unsigned_push_bit_eq)
  also have "push_bit k (unat w) = 2 ^ k * unat w" by (simp add: push_bit_eq_mult)
  also have "take_bit LENGTH('a) \<dots> = \<dots>" using assms by (rule take_bit_nat_eq_self)
  finally show ?thesis .
qed

lemma unat_or_push_bit:
  fixes x :: "'a::len word" and b :: byte
  assumes "unat x < 2 ^ k" "k + 8 \<le> LENGTH('a)"
  shows "unat (x OR push_bit k (ucast b)) = unat x + 2 ^ k * unat b"
    and "unat (x OR push_bit k (ucast b)) < 2 ^ (k + 8)"
proof -
  have b: "unat b < 2 ^ 8" using unat_lt_256 [of b] by simp
  then have "2 ^ k * (unat b + 1) \<le> (2::nat) ^ k * 2 ^ 8" by (intro mult_le_mono2) simp
  then have lt: "unat x + 2 ^ k * unat b < 2 ^ (k + 8)"
    using assms(1) by (simp only: power_add distrib_left mult_1_right)
  have le: "(2::nat) ^ (k + 8) \<le> 2 ^ LENGTH('a)" using assms(2) by (intro power_increasing) auto
  have "(2::nat) ^ 8 \<le> 2 ^ LENGTH('a)" using assms(2) by (intro power_increasing) auto
  with b have ub: "unat (ucast b :: 'a word) = unat b"
    by (simp add: unsigned_ucast_eq take_bit_nat_eq_self)
  have "2 ^ k * unat (ucast b :: 'a word) < 2 ^ LENGTH('a)" 
    unfolding ub using lt le by linarith
  then have pb: "unat (push_bit k (ucast b :: 'a word)) = 2 ^ k * unat b"
    using ub by (simp only: unat_push_bit)
  show eq: "unat (x OR push_bit k (ucast b)) = unat x + 2 ^ k * unat b"
    using less_le_trans [OF lt le] by (simp add: or_push_bit [OF assms(1)] unat_plus_if' pb)
  show "unat (x OR push_bit k (ucast b)) < 2 ^ (k + 8)" using eq lt by simp
qed

lemma unat_ucast_byte: "8 \<le> LENGTH('a) \<Longrightarrow> unat (ucast (b::byte) :: 'a::len word) = unat b"
proof -
  assume "8 \<le> LENGTH('a)"
  then have "(2::nat) ^ 8 \<le> 2 ^ LENGTH('a)" by (intro power_increasing) auto
  then show ?thesis using unat_lt_256 [of b] by (simp add: unsigned_ucast_eq take_bit_nat_eq_self)
qed

lemma unat_take_bit_word: "unat (take_bit k (w::'a::len word)) = unat w mod 2 ^ k"
proof -
  have "unat (take_bit k w) = take_bit k (unat w)" by (rule unsigned_take_bit_eq)
  then show ?thesis by (simp only: take_bit_eq_mod)
qed

lemma bit_128: "bit (128 :: 'a::semiring_bit_operations) n \<longleftrightarrow> possible_bit TYPE('a) n \<and> n = 7"
  using bit_exp_iff [where 'a = 'a, of 7 n] by auto

lemma ucast_or_128:
  fixes v :: "'a::len word"
  assumes "8 \<le> LENGTH('a)"
  shows "(ucast (v OR 128) :: byte) = word_of_nat (unat v mod 128 + 128)"
proof -
  let ?w = "take_bit 7 (ucast v :: byte)"
  have "(ucast (v OR 128) :: byte) = ?w OR push_bit 7 1"
    using assms by (intro bit_word_eqI) (auto simp: bit_simps bit_128)
  also have "\<dots> = ?w + push_bit 7 1"
    by (rule or_push_bit) (simp add: unat_take_bit_word)
  also have "?w = word_of_nat (unat v mod 128)"
  proof -
    have "unat ?w = unat (word_of_nat (unat v) :: byte) mod 2 ^ 7"
      by (simp only: unat_take_bit_word ucast_byte)
    also have "\<dots> = unat v mod 128" by (simp only: unat_of_nat) (simp add: mod_mod_cancel)
    finally show ?thesis by (metis of_nat_unat ucast_id)
  qed
  finally show ?thesis by simp
qed

lemma bit_7_byte: "bit (b::byte) 7 \<longleftrightarrow> 128 \<le> unat b"
proof -
  have "unat b div 128 = (if 128 \<le> unat b then 1 else 0)"
    using unat_lt_256 [of b] by (auto intro: div_nat_eqI)
  moreover have "bit b 7 \<longleftrightarrow> odd (unat b div 128)"
    using bit_iff_odd [of "unat b" 7] by (simp add: bit_unsigned_iff)
  ultimately show ?thesis by simp
qed

lemma ucast_and_128:
  assumes "8 \<le> LENGTH('a::len)"
  shows "(ucast (b::byte) :: 'a word) AND 128 = 0 \<longleftrightarrow> unat b < 128"
proof -
  let ?x = "(ucast b :: 'a word) AND 128"
  have x: "bit ?x n \<longleftrightarrow> n = 7 \<and> bit b 7" for n
    using assms by (auto simp: bit_simps bit_128)
  have "?x = 0 \<longleftrightarrow> \<not> bit b 7"
  proof
    assume "?x = 0"
    then show "\<not> bit b 7" using x [of 7] by simp
  next
    assume "\<not> bit b 7"
    then show "?x = 0" using x by (intro bit_word_eqI) simp
  qed
  then show ?thesis by (simp add: bit_7_byte not_le)
qed

lemma unat_ucast_and_127:
  assumes "8 \<le> LENGTH('a::len)"
  shows "unat ((ucast (b::byte) :: 'a word) AND 127) = unat b mod 128"
proof -
  have "(127 :: 'a word) = mask 7" by (simp add: mask_eq_exp_minus_1)
  then show ?thesis using assms
    by (simp only: take_bit_eq_mask [symmetric] unat_take_bit_word unat_ucast_byte) simp
qed

lemma ucast_drop_or_128:
  fixes v :: "'a::len word"
  assumes "8 \<le> LENGTH('a)"
  shows "(ucast (drop_bit k v OR 128) :: byte) = word_of_nat (unat v div 2 ^ k mod 128 + 128)"
  by (simp only: ucast_or_128 [OF assms] unat_drop_bit)

lemma unat_lt_pow: "unat (v::'a::len word) < 2 ^ LENGTH('a)"
  by (rule unsigned_less)

lemma or_push_bit_word:
  fixes x :: "'a::len word"
  assumes "unat x < 2 ^ k"
  shows "x OR push_bit k y = x + word_of_nat (2 ^ k) * y"
proof -
  have eq: "push_bit k y = word_of_nat (2 ^ k) * y" by (simp add: push_bit_eq_mult)
  show ?thesis unfolding eq [symmetric] by (rule or_push_bit [OF assms])
qed

lemma ucast_and_127_nat:
  "8 \<le> LENGTH('a) \<Longrightarrow> (ucast (b::byte) :: 'a::len word) AND 127 = word_of_nat (unat b mod 128)"
  by (metis of_nat_unat ucast_id unat_ucast_and_127)

end
