(* ===== verification/KV_Slice.thy ===== *)
theory KV_Slice
  imports KV_Prelude
begin

text \<open>
  The class \<open>Slice\<close> of src/include/slice.h: a pointer and a length. The pointer is an offset
  into the block it points into, and the block's contents are those at the time the slice
  is read; no code of the repository writes to a block while it reads it through a slice.
  \<open>sl_bytes\<close> is the contract: what the slice means, a list of bytes. Each operation is
  shown to compute the corresponding operation on these bytes, and to stay in the block.
\<close>

section \<open>The class\<close>

record slice =
  sl_mem :: block   \<comment> \<open>the block that \<open>data_\<close> points into\<close>
  sl_off :: nat     \<comment> \<open>\<open>data_\<close>, as an offset in the block\<close>
  sl_size :: nat    \<comment> \<open>\<open>size_\<close>\<close>

definition Slice_empty :: slice where
  "Slice_empty = \<lparr>sl_mem = [], sl_off = 0, sl_size = 0\<rparr>"

definition Slice_ptr :: "block \<Rightarrow> nat \<Rightarrow> nat \<Rightarrow> slice" where
  "Slice_ptr m p len = \<lparr>sl_mem = m, sl_off = p, sl_size = len\<rparr>"

definition Slice_string :: "byte list \<Rightarrow> slice" where
  "Slice_string s = \<lparr>sl_mem = s, sl_off = 0, sl_size = length s\<rparr>"

text \<open>\<open>strlen\<close>: the distance to the first zero byte; a block without one is read past its end.\<close>

fun strlen_list :: "byte list \<Rightarrow> nat option" where
  "strlen_list [] = None"
| "strlen_list (b # bs) = (if b = 0 then Some 0 else map_option Suc (strlen_list bs))"

definition Slice_cstr :: "block \<Rightarrow> nat \<Rightarrow> slice option" where
  "Slice_cstr m p = do {
     n \<leftarrow> strlen_list (drop p m);
     Some \<lparr>sl_mem = m, sl_off = p, sl_size = n\<rparr> }"

definition slice_isempty :: "slice \<Rightarrow> bool" where
  "slice_isempty s = (sl_size s = 0)"

text \<open>The ends of the bytes, as offsets in the block; \<open>data\<close> is the same pointer as \<open>begin\<close>.\<close>

definition slice_begin :: "slice \<Rightarrow> nat" where
  "slice_begin s = sl_off s"

definition slice_end :: "slice \<Rightarrow> nat" where
  "slice_end s = sl_off s + sl_size s"

definition slice_clear :: "slice \<Rightarrow> slice" where
  "slice_clear s = \<lparr>sl_mem = [], sl_off = 0, sl_size = 0\<rparr>"

definition slice_at :: "slice \<Rightarrow> nat \<Rightarrow> byte option" where
  "slice_at s idx = do {
     _ \<leftarrow> cassert (idx < sl_size s);
     load8 (sl_mem s) (sl_off s + idx) }"

definition removePrefix :: "slice \<Rightarrow> nat \<Rightarrow> slice option" where
  "removePrefix s n = do {
     _ \<leftarrow> cassert (n \<le> sl_size s);
     Some (s\<lparr>sl_off := sl_off s + n, sl_size := sl_size s - n\<rparr>) }"

definition slice_toString :: "slice \<Rightarrow> byte list option" where
  "slice_toString s = load_range (sl_mem s) (sl_off s) (sl_size s)"

text \<open>
  \<open>memcmp\<close> on two runs of bytes of the same length: the C standard fixes the sign of the
  result only (the sign of the first difference, bytes taken as unsigned), and the code
  tests only the sign. The model returns -1, 0 or 1.
\<close>

fun memcmp_bytes :: "byte list \<Rightarrow> byte list \<Rightarrow> int" where
  "memcmp_bytes (a # as) (b # bs) =
     (if a < b then -1 else if b < a then 1 else memcmp_bytes as bs)"
| "memcmp_bytes _ _ = 0"

definition memcmp :: "slice \<Rightarrow> slice \<Rightarrow> nat \<Rightarrow> int option" where
  "memcmp a b n = do {
     x \<leftarrow> load_range (sl_mem a) (sl_off a) n;
     y \<leftarrow> load_range (sl_mem b) (sl_off b) n;
     Some (memcmp_bytes x y) }"

definition startsWith :: "slice \<Rightarrow> slice \<Rightarrow> bool option" where
  "startsWith s x =
     (if sl_size s \<ge> sl_size x
      then do { r \<leftarrow> memcmp s x (sl_size x); Some (r = 0) }
      else Some False)"

definition slice_compare :: "slice \<Rightarrow> slice \<Rightarrow> int option" where
  "slice_compare a b = do {
     let min_len = (if sl_size a < sl_size b then sl_size a else sl_size b);
     res \<leftarrow> memcmp a b min_len;
     Some (if res = 0
           then (if sl_size a < sl_size b then -1
                 else if sl_size a > sl_size b then 1 else res)
           else res) }"

definition slice_eq :: "slice \<Rightarrow> slice \<Rightarrow> bool option" where
  "slice_eq lhs rhs =
     (if sl_size lhs = sl_size rhs
      then do { r \<leftarrow> memcmp lhs rhs (sl_size lhs); Some (r = 0) }
      else Some False)"

definition slice_neq :: "slice \<Rightarrow> slice \<Rightarrow> bool option" where
  "slice_neq lhs rhs = map_option Not (slice_eq lhs rhs)"

section \<open>What a slice means\<close>

definition slice_ok :: "slice \<Rightarrow> bool" where
  "slice_ok s \<longleftrightarrow> sl_off s + sl_size s \<le> length (sl_mem s)"

definition sl_bytes :: "slice \<Rightarrow> byte list" where
  "sl_bytes s = take (sl_size s) (drop (sl_off s) (sl_mem s))"

text \<open>The order that \<open>Slice::compare\<close> is meant to decide: lexicographic on unsigned bytes.\<close>

fun lex_cmp :: "byte list \<Rightarrow> byte list \<Rightarrow> int" where
  "lex_cmp [] [] = 0"
| "lex_cmp [] (_ # _) = -1"
| "lex_cmp (_ # _) [] = 1"
| "lex_cmp (a # as) (b # bs) = (if a < b then -1 else if b < a then 1 else lex_cmp as bs)"

section \<open>The operations compute the operations on bytes, inside the block\<close>

lemma length_sl_bytes [simp]: "slice_ok s \<Longrightarrow> length (sl_bytes s) = sl_size s"
  by (simp add: slice_ok_def sl_bytes_def)

lemma slice_ok_string [simp, intro]: "slice_ok (Slice_string s)"
  by (simp add: slice_ok_def Slice_string_def)

lemma sl_bytes_string [simp]: "sl_bytes (Slice_string s) = s"
  by (simp add: sl_bytes_def Slice_string_def)

lemma slice_ok_empty [simp, intro]: "slice_ok Slice_empty"
  by (simp add: slice_ok_def Slice_empty_def)

lemma sl_bytes_empty [simp]: "sl_bytes Slice_empty = []"
  by (simp add: sl_bytes_def Slice_empty_def)

lemma slice_ok_ptr: "p + n \<le> length m \<Longrightarrow> slice_ok (Slice_ptr m p n)"
  by (simp add: slice_ok_def Slice_ptr_def)

lemma sl_bytes_ptr: "sl_bytes (Slice_ptr m p n) = take n (drop p m)"
  by (simp add: sl_bytes_def Slice_ptr_def)

lemma slice_toString_ok: "slice_ok s \<Longrightarrow> slice_toString s = Some (sl_bytes s)"
  by (simp add: slice_ok_def slice_toString_def load_range_def sl_bytes_def)

lemma slice_at_ok: "slice_ok s \<Longrightarrow> i < sl_size s \<Longrightarrow> slice_at s i = Some (sl_bytes s ! i)"
  by (simp add: slice_at_def slice_ok_def sl_bytes_def load8_def)

lemma removePrefix_ok:
  assumes "slice_ok s" "n \<le> sl_size s"
  shows "\<exists>s'. removePrefix s n = Some s' \<and> slice_ok s' \<and> sl_bytes s' = drop n (sl_bytes s)
    \<and> sl_size s' = sl_size s - n"
  using assms by (simp add: removePrefix_def slice_ok_def sl_bytes_def drop_take add.commute)

text \<open>A loop from \<open>begin\<close> to \<open>end\<close> reads the bytes of the slice, and reads inside the block.\<close>

lemma slice_iteration:
  assumes "slice_ok s"
  shows "sl_bytes s = map (\<lambda>p. sl_mem s ! p) [slice_begin s ..< slice_end s]"
    and "slice_begin s \<le> p \<Longrightarrow> p < slice_end s \<Longrightarrow> load8 (sl_mem s) p = Some (sl_bytes s ! (p - slice_begin s))"
  using assms
  by (auto simp: slice_ok_def sl_bytes_def slice_begin_def slice_end_def load8_def intro!: nth_equalityI)

text \<open>The slice after \<open>c\<close> bytes of a slice.\<close>

lemma slice_advance:
  assumes "slice_ok s" "c \<le> sl_size s"
  shows "slice_ok (Slice_ptr (sl_mem s) (sl_off s + c) (sl_size s - c))"
    and "sl_bytes (Slice_ptr (sl_mem s) (sl_off s + c) (sl_size s - c)) = drop c (sl_bytes s)"
  using assms by (simp_all add: slice_ok_def Slice_ptr_def sl_bytes_def drop_take add.commute)

lemma slice_prefix:
  assumes "slice_ok s" "n \<le> sl_size s"
  shows "slice_ok (Slice_ptr (sl_mem s) (sl_off s) n)"
    and "sl_bytes (Slice_ptr (sl_mem s) (sl_off s) n) = take n (sl_bytes s)"
  using assms by (simp_all add: slice_ok_def Slice_ptr_def sl_bytes_def min_absorb1)

lemma removePrefix_fail: "sl_size s < n \<Longrightarrow> removePrefix s n = None"
  by (simp add: removePrefix_def)

lemma memcmp_bytes_zero: "length xs = length ys \<Longrightarrow> memcmp_bytes xs ys = 0 \<longleftrightarrow> xs = ys"
  by (induction xs ys rule: memcmp_bytes.induct) auto

lemma lex_cmp_memcmp:
  "lex_cmp xs ys =
    (let n = min (length xs) (length ys); r = memcmp_bytes (take n xs) (take n ys)
     in if r = 0 then (if length xs < length ys then -1 else if length xs > length ys then 1 else 0)
        else r)"
  by (induction xs ys rule: lex_cmp.induct) (auto simp: Let_def)

lemma memcmp_ok:
  assumes "slice_ok a" "slice_ok b" "n \<le> sl_size a" "n \<le> sl_size b"
  shows "memcmp a b n = Some (memcmp_bytes (take n (sl_bytes a)) (take n (sl_bytes b)))"
  using assms by (simp add: memcmp_def load_range_def slice_ok_def sl_bytes_def min_absorb1)

lemma slice_compare_lex:
  assumes "slice_ok a" "slice_ok b"
  shows "slice_compare a b = Some (lex_cmp (sl_bytes a) (sl_bytes b))"
  using assms by (simp add: slice_compare_def memcmp_ok lex_cmp_memcmp Let_def min_def)

lemma slice_eq_iff:
  assumes "slice_ok a" "slice_ok b"
  shows "slice_eq a b = Some (sl_bytes a = sl_bytes b)"
  using assms by (auto simp: slice_eq_def memcmp_ok memcmp_bytes_zero dest: arg_cong [where f = length])

lemma startsWith_prefix:
  assumes "slice_ok a" "slice_ok b"
  shows "startsWith a b = Some (take (length (sl_bytes b)) (sl_bytes a) = sl_bytes b)"
  using assms by (auto simp: startsWith_def memcmp_ok memcmp_bytes_zero dest: arg_cong [where f = length])

lemma lex_cmp_range: "lex_cmp xs ys \<in> {-1, 0, 1}"
  by (induction xs ys rule: lex_cmp.induct) auto

lemma lex_cmp_eq_0 [simp]: "lex_cmp xs ys = 0 \<longleftrightarrow> xs = ys"
  by (induction xs ys rule: lex_cmp.induct) auto

lemma lex_cmp_antisym: "lex_cmp ys xs = - lex_cmp xs ys"
  by (induction xs ys rule: lex_cmp.induct) auto

lemma lex_cmp_trans: "lex_cmp xs ys < 0 \<Longrightarrow> lex_cmp ys zs < 0 \<Longrightarrow> lex_cmp xs zs < 0"
proof (induction xs ys arbitrary: zs rule: lex_cmp.induct)
  case (4 a as b bs)
  then show ?case by (cases zs) (auto split: if_splits)
next
  case (2 b bs)
  then show ?case by (cases zs) auto
qed auto

lemma lex_cmp_prefix: "lex_cmp xs (xs @ ys) \<le> 0"
  by (induction xs) (cases ys; simp)+

lemma lex_cmp_lexord: "lex_cmp xs ys < 0 \<longleftrightarrow> (xs, ys) \<in> lexord {(a, b). a < b}"
  by (induction xs ys rule: lex_cmp.induct) auto

text \<open>
  C40 (src/include/slice.h, \<open>Slice::compare\<close>, \<open>operator==\<close>, \<open>operator!=\<close> and \<open>startsWith\<close>).
  On any two slices that lie in their blocks, none of them reads a byte outside. \<open>compare\<close>
  returns a number whose sign is the lexicographic order of the two byte strings, bytes taken
  as unsigned, a proper prefix being the smaller: negative, zero and positive exactly for
  smaller, equal and greater. The two slices are equal under \<open>==\<close>, and not unequal under
  \<open>!=\<close>, exactly when \<open>compare\<close> returns zero. \<open>startsWith\<close> is true exactly when the second string
  is a prefix of the first, and then \<open>compare\<close> does not find the first one smaller.
\<close>

theorem slice_compare_correct:
  assumes "slice_ok a" "slice_ok b"
  shows "\<exists>r. slice_compare a b = Some r
    \<and> (r < 0 \<longleftrightarrow> (sl_bytes a, sl_bytes b) \<in> lexord {(x, y). x < y})
    \<and> (r = 0 \<longleftrightarrow> sl_bytes a = sl_bytes b)
    \<and> (r > 0 \<longleftrightarrow> (sl_bytes b, sl_bytes a) \<in> lexord {(x, y). x < y})
    \<and> slice_eq a b = Some (r = 0) \<and> slice_neq a b = Some (r \<noteq> 0)
    \<and> (\<exists>p. startsWith a b = Some p \<and> (p \<longleftrightarrow> (\<exists>t. sl_bytes a = sl_bytes b @ t)) \<and> (p \<longrightarrow> 0 \<le> r))"
proof -
  have "take (length y) x = y \<longleftrightarrow> (\<exists>t. x = y @ t)" for x y :: "byte list"
    by (metis append_eq_conv_conj append_take_drop_id)
  then have "startsWith a b = Some (\<exists>t. sl_bytes a = sl_bytes b @ t)"
    using startsWith_prefix [OF assms] by simp
  then show ?thesis
    using assms lex_cmp_antisym [of "sl_bytes a" "sl_bytes b"] lex_cmp_prefix [of "sl_bytes b"]
    by (auto simp: slice_compare_lex slice_eq_iff slice_neq_def lex_cmp_lexord [symmetric])
qed

theorem slice_compare_correct_witness:
  "\<exists>r. slice_compare (Slice_ptr [9, 200, 1] 1 2) (Slice_string [100, 255]) = Some r \<and> r > 0"
proof -
  have a: "slice_ok (Slice_ptr [9, 200, 1] 1 2)" by (simp add: slice_ok_def Slice_ptr_def)
  have b: "slice_ok (Slice_string [100, 255])" by simp
  have lt: "(sl_bytes (Slice_string [100, 255]), sl_bytes (Slice_ptr [9, 200, 1] 1 2))
      \<in> lexord {(x, y). x < y}"
    by (simp add: sl_bytes_def Slice_ptr_def Slice_string_def)
  show ?thesis using slice_compare_correct [OF a b] lt by blast
qed

end
