(* ===== verification/KV_Coding.thy ===== *)
theory KV_Coding
  imports KV_Slice
begin

text \<open>
  The encoders and decoders of src/util/coding.h and src/util/coding.cc. A buffer is a block,
  a pointer into it an offset; an encoder returns the block it has written and the pointer
  after the last byte. \<open>std::string* dst\<close> is a byte list that is returned extended.

  Contracts. The fixed-width encoders write the little-endian digits \<open>le_bytes\<close>; the varint
  encoders write \<open>varint_bytes\<close>; the varint decoders compute \<open>varint_parse\<close>, with five
  bytes for 32 bits and ten for 64, cut to the width of the result. All of it stays in
  the buffers, whose sizes (4, 8, 5, 10) are those of the code.
\<close>

unbundle bit_operations_syntax

section \<open>Fixed-width integers\<close>

definition EncodeFixed32 :: "block \<Rightarrow> nat \<Rightarrow> u32 \<Rightarrow> block option" where
  "EncodeFixed32 m dst value = do {
     m \<leftarrow> store8 m dst (ucast value);
     m \<leftarrow> store8 m (dst + 1) (ucast (drop_bit 8 value));
     m \<leftarrow> store8 m (dst + 2) (ucast (drop_bit 16 value));
     store8 m (dst + 3) (ucast (drop_bit 24 value)) }"

definition EncodeFixed64 :: "block \<Rightarrow> nat \<Rightarrow> u64 \<Rightarrow> block option" where
  "EncodeFixed64 m dst value = do {
     m \<leftarrow> store8 m dst (ucast value);
     m \<leftarrow> store8 m (dst + 1) (ucast (drop_bit 8 value));
     m \<leftarrow> store8 m (dst + 2) (ucast (drop_bit 16 value));
     m \<leftarrow> store8 m (dst + 3) (ucast (drop_bit 24 value));
     m \<leftarrow> store8 m (dst + 4) (ucast (drop_bit 32 value));
     m \<leftarrow> store8 m (dst + 5) (ucast (drop_bit 40 value));
     m \<leftarrow> store8 m (dst + 6) (ucast (drop_bit 48 value));
     store8 m (dst + 7) (ucast (drop_bit 56 value)) }"

definition DecodeFixed32 :: "block \<Rightarrow> nat \<Rightarrow> u32 option" where
  "DecodeFixed32 m ptr = do {
     b0 \<leftarrow> load8 m ptr;
     b1 \<leftarrow> load8 m (ptr + 1);
     b2 \<leftarrow> load8 m (ptr + 2);
     b3 \<leftarrow> load8 m (ptr + 3);
     Some (((ucast b0 OR push_bit 8 (ucast b1)) OR push_bit 16 (ucast b2))
       OR push_bit 24 (ucast b3)) }"

definition DecodeFixed64 :: "block \<Rightarrow> nat \<Rightarrow> u64 option" where
  "DecodeFixed64 m ptr = do {
     b0 \<leftarrow> load8 m ptr;
     b1 \<leftarrow> load8 m (ptr + 1);
     b2 \<leftarrow> load8 m (ptr + 2);
     b3 \<leftarrow> load8 m (ptr + 3);
     b4 \<leftarrow> load8 m (ptr + 4);
     b5 \<leftarrow> load8 m (ptr + 5);
     b6 \<leftarrow> load8 m (ptr + 6);
     b7 \<leftarrow> load8 m (ptr + 7);
     Some (((((((ucast b0 OR push_bit 8 (ucast b1)) OR push_bit 16 (ucast b2))
       OR push_bit 24 (ucast b3)) OR push_bit 32 (ucast b4)) OR push_bit 40 (ucast b5))
       OR push_bit 48 (ucast b6)) OR push_bit 56 (ucast b7)) }"

text \<open>
  A local array \<open>char buf[n]\<close>. Its initial bytes are indeterminate in C++; no function here
  reads one before writing it, and the lemmas about the encoders hold for every initial
  content. The model starts from zeros.
\<close>

definition local_buf :: "nat \<Rightarrow> block" where
  "local_buf n = replicate n 0"

definition PutFixed32 :: "byte list \<Rightarrow> u32 \<Rightarrow> byte list option" where
  "PutFixed32 dst value = do {
     buf \<leftarrow> EncodeFixed32 (local_buf 4) 0 value;
     Some (dst @ buf) }"

definition PutFixed64 :: "byte list \<Rightarrow> u64 \<Rightarrow> byte list option" where
  "PutFixed64 dst value = do {
     buf \<leftarrow> EncodeFixed64 (local_buf 8) 0 value;
     Some (dst @ buf) }"

section \<open>Variable-length integers\<close>

definition EncodeVarint32 :: "block \<Rightarrow> nat \<Rightarrow> u32 \<Rightarrow> (block \<times> nat) option" where
  "EncodeVarint32 m ptr value =
     (let B = 128 in
      if value < push_bit 7 1 then do {
        m \<leftarrow> store8 m ptr (ucast value);
        Some (m, ptr + 1) }
      else if value < push_bit 14 1 then do {
        m \<leftarrow> store8 m ptr (ucast (value OR B));
        m \<leftarrow> store8 m (ptr + 1) (ucast (drop_bit 7 value));
        Some (m, ptr + 2) }
      else if value < push_bit 21 1 then do {
        m \<leftarrow> store8 m ptr (ucast (value OR B));
        m \<leftarrow> store8 m (ptr + 1) (ucast (drop_bit 7 value OR B));
        m \<leftarrow> store8 m (ptr + 2) (ucast (drop_bit 14 value));
        Some (m, ptr + 3) }
      else if value < push_bit 28 1 then do {
        m \<leftarrow> store8 m ptr (ucast (value OR B));
        m \<leftarrow> store8 m (ptr + 1) (ucast (drop_bit 7 value OR B));
        m \<leftarrow> store8 m (ptr + 2) (ucast (drop_bit 14 value OR B));
        m \<leftarrow> store8 m (ptr + 3) (ucast (drop_bit 21 value));
        Some (m, ptr + 4) }
      else do {
        m \<leftarrow> store8 m ptr (ucast (value OR B));
        m \<leftarrow> store8 m (ptr + 1) (ucast (drop_bit 7 value OR B));
        m \<leftarrow> store8 m (ptr + 2) (ucast (drop_bit 14 value OR B));
        m \<leftarrow> store8 m (ptr + 3) (ucast (drop_bit 21 value OR B));
        m \<leftarrow> store8 m (ptr + 4) (ucast (drop_bit 28 value));
        Some (m, ptr + 5) })"

function EncodeVarint64 :: "block \<Rightarrow> nat \<Rightarrow> u64 \<Rightarrow> (block \<times> nat) option" where
  "EncodeVarint64 m ptr value =
     (if value \<ge> 128 then do {
        m \<leftarrow> store8 m ptr (ucast (value OR 128));
        EncodeVarint64 m (ptr + 1) (drop_bit 7 value) }
      else do {
        m \<leftarrow> store8 m ptr (ucast value);
        Some (m, ptr + 1) })"
  by pat_completeness auto
termination
proof (relation "measure (\<lambda>(m, ptr, v). unat v)")
  fix m m' :: block and ptr :: nat and v :: u64
  assume "128 \<le> v"
  then have "128 \<le> unat v" by (simp add: word_le_nat_alt)
  then show "((m', ptr + 1, drop_bit 7 v), m, ptr, v) \<in> measure (\<lambda>(m, ptr, v). unat v)"
    using unat_drop_bit [of 7 v] by simp
qed simp

declare EncodeVarint64.simps [simp del]

function VarintLength_loop :: "u64 \<Rightarrow> nat \<Rightarrow> nat" where
  "VarintLength_loop v len = (if v \<ge> 128 then VarintLength_loop (drop_bit 7 v) (len + 1) else len)"
  by pat_completeness auto
termination
proof (relation "measure (\<lambda>(v, len). unat v)")
  fix v :: u64 and len :: nat
  assume "128 \<le> v"
  then have "128 \<le> unat v" by (simp add: word_le_nat_alt)
  then show "((drop_bit 7 v, len + 1), v, len) \<in> measure (\<lambda>(v, len). unat v)"
    using unat_drop_bit [of 7 v] by simp
qed simp

declare VarintLength_loop.simps [simp del]

definition VarintLength :: "u64 \<Rightarrow> nat" where
  "VarintLength v = VarintLength_loop v 1"

definition PutVarint32 :: "byte list \<Rightarrow> u32 \<Rightarrow> byte list option" where
  "PutVarint32 dst value = do {
     (buf, ptr) \<leftarrow> EncodeVarint32 (local_buf 5) 0 value;
     bs \<leftarrow> load_range buf 0 ptr;
     Some (dst @ bs) }"

definition PutVarint64 :: "byte list \<Rightarrow> u64 \<Rightarrow> byte list option" where
  "PutVarint64 dst value = do {
     (buf, ptr) \<leftarrow> EncodeVarint64 (local_buf 10) 0 value;
     bs \<leftarrow> load_range buf 0 ptr;
     Some (dst @ bs) }"

definition PutLengthPrefixedSlice :: "byte list \<Rightarrow> slice \<Rightarrow> byte list option" where
  "PutLengthPrefixedSlice dst value = do {
     dst \<leftarrow> PutVarint32 dst (word_of_nat (sl_size value));
     bs \<leftarrow> load_range (sl_mem value) (sl_off value) (sl_size value);
     Some (dst @ bs) }"

text \<open>
  The decoders return \<open>Some None\<close> for \<open>nullptr\<close> and \<open>Some (Some (p, v))\<close> for the pointer
  after the integer and the value stored through \<open>value\<close>, which they write on success only.
\<close>

text \<open>
  The loops of \<open>GetVarint32PtrFallback\<close> and \<open>GetVarint64Ptr\<close> are the same text but for the
  type of \<open>result\<close> and \<open>byte\<close> and for the last shift, 28 and 63.
\<close>

function GetVarint_loop ::
  "nat \<Rightarrow> block \<Rightarrow> nat \<Rightarrow> nat \<Rightarrow> nat \<Rightarrow> 'a::len word \<Rightarrow> (nat \<times> 'a word) option option" where
  "GetVarint_loop last_shift m p limit shift result =
     (if shift \<le> last_shift \<and> p < limit then do {
        b \<leftarrow> load8 m p;
        (if (ucast b :: 'a word) AND 128 \<noteq> 0
         then GetVarint_loop last_shift m (p + 1) limit (shift + 7)
                (result OR push_bit shift (ucast b AND 127))
         else Some (Some (p + 1, result OR push_bit shift (ucast b)))) }
      else Some None)"
  by pat_completeness auto
termination
  by (relation "measure (\<lambda>(last_shift, m, p, limit, shift, result). last_shift + 7 - shift)") auto

declare GetVarint_loop.simps [simp del]

definition GetVarint32PtrFallback :: "block \<Rightarrow> nat \<Rightarrow> nat \<Rightarrow> (nat \<times> u32) option option" where
  "GetVarint32PtrFallback m p limit = GetVarint_loop 28 m p limit 0 0"

definition GetVarint32Ptr :: "block \<Rightarrow> nat \<Rightarrow> nat \<Rightarrow> (nat \<times> u32) option option" where
  "GetVarint32Ptr m p limit =
     (if p < limit then do {
        b \<leftarrow> load8 m p;
        (if (ucast b :: u32) AND 128 = 0 then Some (Some (p + 1, ucast b))
         else GetVarint32PtrFallback m p limit) }
      else GetVarint32PtrFallback m p limit)"

definition GetVarint64Ptr :: "block \<Rightarrow> nat \<Rightarrow> nat \<Rightarrow> (nat \<times> u64) option option" where
  "GetVarint64Ptr m p limit = GetVarint_loop 63 m p limit 0 0"

text \<open>
  The slice decoders return whether they succeeded and the slice they leave in \<open>input\<close>:
  \<open>None\<close> for \<open>false\<close>, which leaves \<open>input\<close> as it was.
\<close>

definition GetVarint32 :: "slice \<Rightarrow> (slice \<times> u32) option option" where
  "GetVarint32 input = do {
     let p = sl_off input;
     let limit = p + sl_size input;
     q \<leftarrow> GetVarint32Ptr (sl_mem input) p limit;
     Some (case q of None \<Rightarrow> None
           | Some (q, value) \<Rightarrow> Some (Slice_ptr (sl_mem input) q (limit - q), value)) }"

definition GetVarint64 :: "slice \<Rightarrow> (slice \<times> u64) option option" where
  "GetVarint64 input = do {
     let p = sl_off input;
     let limit = p + sl_size input;
     q \<leftarrow> GetVarint64Ptr (sl_mem input) p limit;
     Some (case q of None \<Rightarrow> None
           | Some (q, value) \<Rightarrow> Some (Slice_ptr (sl_mem input) q (limit - q), value)) }"

text \<open>
  \<open>GetLengthPrefixedSlice\<close> may fail after \<open>GetVarint32\<close> has moved \<open>input\<close>: the pair is the
  slice left in \<open>input\<close> and, on success, the one stored in \<open>result\<close>.
\<close>

definition GetLengthPrefixedSlice :: "slice \<Rightarrow> (slice \<times> slice option) option" where
  "GetLengthPrefixedSlice input = do {
     g \<leftarrow> GetVarint32 input;
     (case g of
        None \<Rightarrow> Some (input, None)
      | Some (input, len) \<Rightarrow>
          (if sl_size input \<ge> unat len
           then do {
             let result = Slice_ptr (sl_mem input) (sl_off input) (unat len);
             input \<leftarrow> removePrefix input (unat len);
             Some (input, Some result) }
           else Some (input, None))) }"

lemma le_bytes_4: "le_bytes 4 n = [word_of_nat n, word_of_nat (n div 2 ^ 8),
    word_of_nat (n div 2 ^ 16), word_of_nat (n div 2 ^ 24)]"
proof -
  have n: "4 = Suc (Suc (Suc (Suc 0)))" by simp
  have "le_bytes 4 n = le_bytes (Suc (Suc (Suc (Suc 0)))) n" by (simp only: n)
  then show ?thesis by (simp add: div_mult2_eq [symmetric])
qed

lemma le_bytes_8: "le_bytes 8 n = [word_of_nat n, word_of_nat (n div 2 ^ 8),
    word_of_nat (n div 2 ^ 16), word_of_nat (n div 2 ^ 24), word_of_nat (n div 2 ^ 32),
    word_of_nat (n div 2 ^ 40), word_of_nat (n div 2 ^ 48), word_of_nat (n div 2 ^ 56)]"
proof -
  have n: "8 = Suc (Suc (Suc (Suc (Suc (Suc (Suc (Suc 0)))))))" by simp
  have "le_bytes 8 n = le_bytes (Suc (Suc (Suc (Suc (Suc (Suc (Suc (Suc 0)))))))) n"
    by (simp only: n)
  then show ?thesis by (simp add: div_mult2_eq [symmetric])
qed

lemma le_bytes_u32: "le_bytes 4 (unat (v::u32)) = [ucast v, ucast (drop_bit 8 v),
    ucast (drop_bit 16 v), ucast (drop_bit 24 v)]"
  by (simp only: le_bytes_4 ucast_drop_bit_byte ucast_byte [of v])

lemma le_bytes_u64: "le_bytes 8 (unat (v::u64)) = [ucast v, ucast (drop_bit 8 v),
    ucast (drop_bit 16 v), ucast (drop_bit 24 v), ucast (drop_bit 32 v),
    ucast (drop_bit 40 v), ucast (drop_bit 48 v), ucast (drop_bit 56 v)]"
  by (simp only: le_bytes_8 ucast_drop_bit_byte ucast_byte [of v])

lemma EncodeFixed32_seq: "EncodeFixed32 m dst v = map_option fst (store_seq m dst (le_bytes 4 (unat v)))"
  by (simp add: EncodeFixed32_def le_bytes_u32 map_option_bind o_def add.assoc del: One_nat_def add_2_eq_Suc')

lemma EncodeFixed64_seq: "EncodeFixed64 m dst v = map_option fst (store_seq m dst (le_bytes 8 (unat v)))"
  by (simp add: EncodeFixed64_def le_bytes_u64 map_option_bind o_def add.assoc del: One_nat_def add_2_eq_Suc')

lemma EncodeFixed32_append:
  assumes "length old = 4"
  shows "EncodeFixed32 (pre @ old @ post) (length pre) v = Some (pre @ le_bytes 4 (unat v) @ post)"
  using store_seq_append [of old "le_bytes 4 (unat v)" pre post] assms by (simp add: EncodeFixed32_seq)

lemma EncodeFixed64_append:
  assumes "length old = 8"
  shows "EncodeFixed64 (pre @ old @ post) (length pre) v = Some (pre @ le_bytes 8 (unat v) @ post)"
  using store_seq_append [of old "le_bytes 8 (unat v)" pre post] assms by (simp add: EncodeFixed64_seq)

lemma PutFixed32_bytes: "PutFixed32 dst v = Some (dst @ le_bytes 4 (unat v))"
  using EncodeFixed32_append [of "local_buf 4" "[]" "[]" v]
  by (simp add: PutFixed32_def local_buf_def)

lemma PutFixed64_bytes: "PutFixed64 dst v = Some (dst @ le_bytes 8 (unat v))"
  using EncodeFixed64_append [of "local_buf 8" "[]" "[]" v]
  by (simp add: PutFixed64_def local_buf_def)

fun le_or :: "nat \<Rightarrow> 'a::len word \<Rightarrow> byte list \<Rightarrow> 'a word" where
  "le_or k x [] = x"
| "le_or k x (b # bs) = le_or (k + 8) (x OR push_bit k (ucast b)) bs"

lemma unat_le_or:
  fixes x :: "'a::len word"
  assumes "unat x < 2 ^ k" "k + 8 * length bs \<le> LENGTH('a)"
  shows "unat (le_or k x bs) = unat x + 2 ^ k * le_value bs"
  using assms
proof (induction bs arbitrary: k x)
  case (Cons b bs)
  have k: "k + 8 \<le> LENGTH('a)" using Cons.prems(2) by simp
  note or = unat_or_push_bit [OF Cons.prems(1) k, of b]
  show ?case using Cons.IH [OF or(2)] Cons.prems(2)
    by (simp only: le_or.simps le_value.simps or(1) power_add) (simp add: algebra_simps)
qed simp

lemma DecodeFixed32_append:
  assumes "length bs = 4"
  shows "\<exists>w. DecodeFixed32 (pre @ bs @ post) (length pre) = Some w \<and> unat w = le_value bs"
proof -
  obtain b0 b1 b2 b3 where bs: "bs = [b0, b1, b2, b3]"
    using assms by (auto simp: numeral_eq_Suc length_Suc_conv)
  have "DecodeFixed32 (pre @ bs @ post) (length pre) = Some (le_or 8 (ucast b0) [b1, b2, b3])"
    by (simp add: DecodeFixed32_def load8_def nth_append bs)
  moreover have "unat (le_or 8 (ucast b0) [b1, b2, b3] :: u32) = le_value bs"
    using unat_lt_256 [of b0] by (subst unat_le_or) (simp_all add: unat_ucast_byte bs)
  ultimately show ?thesis by blast
qed

lemma DecodeFixed64_append:
  assumes "length bs = 8"
  shows "\<exists>w. DecodeFixed64 (pre @ bs @ post) (length pre) = Some w \<and> unat w = le_value bs"
proof -
  obtain b0 b1 b2 b3 b4 b5 b6 b7 where bs: "bs = [b0, b1, b2, b3, b4, b5, b6, b7]"
    using assms by (auto simp: numeral_eq_Suc length_Suc_conv)
  have "DecodeFixed64 (pre @ bs @ post) (length pre) =
      Some (le_or 8 (ucast b0) [b1, b2, b3, b4, b5, b6, b7])"
    by (simp add: DecodeFixed64_def load8_def nth_append bs)
  moreover have "unat (le_or 8 (ucast b0) [b1, b2, b3, b4, b5, b6, b7] :: u64) = le_value bs"
    using unat_lt_256 [of b0] by (subst unat_le_or) (simp_all add: unat_ucast_byte bs)
  ultimately show ?thesis by blast
qed

text \<open>The encoding meant: base 128, low digit first, the high bit set on all bytes but the last.\<close>

function varint_bytes :: "nat \<Rightarrow> byte list" where
  "varint_bytes n = (if n < 128 then [word_of_nat n]
     else word_of_nat (n mod 128 + 128) # varint_bytes (n div 128))"
  by pat_completeness auto
termination by (relation "measure id") auto

declare varint_bytes.simps [simp del]

lemma varint_bytes_last: "n < 128 \<Longrightarrow> varint_bytes n = [word_of_nat n]"
  by (simp add: varint_bytes.simps)

lemma varint_bytes_more:
  "128 \<le> n \<Longrightarrow> varint_bytes n = word_of_nat (n mod 128 + 128) # varint_bytes (n div 128)"
  by (simp add: varint_bytes.simps [of n])

text \<open>Every encoder writes \<open>varint_bytes\<close>.\<close>

lemma EncodeVarint32_seq: "EncodeVarint32 m p v = store_seq m p (varint_bytes (unat v))"
proof -
  let ?n = "unat v"
  have d: "?n div 128 div 128 = ?n div 16384" "?n div 16384 div 128 = ?n div 2097152"
    "?n div 2097152 div 128 = ?n div 268435456" by (simp_all add: div_mult2_eq [symmetric])
  have top: "?n div 268435456 < 128" using unat_lt_pow [of v] by (simp add: less_mult_imp_div_less)
  have p: "p + 3 = Suc (Suc (Suc p))" "p + 4 = Suc (Suc (Suc (Suc p)))"
    "p + 5 = Suc (Suc (Suc (Suc (Suc p))))" by simp_all
  note p [simp] unat_drop_bit [simp] word_less_nat_alt [simp] ucast_drop_bit_byte [simp] ucast_or_128 [simp] ucast_drop_or_128 [simp] d [simp] top [simp]
    varint_bytes_last [simp] varint_bytes_more [simp] add.assoc [simp]
  consider "?n < 2 ^ 7" | "2 ^ 7 \<le> ?n" "?n < 2 ^ 14" | "2 ^ 14 \<le> ?n" "?n < 2 ^ 21"
    | "2 ^ 21 \<le> ?n" "?n < 2 ^ 28" | "2 ^ 28 \<le> ?n" by linarith
  then show ?thesis
  proof cases
    case 1
    then show ?thesis by (simp add: EncodeVarint32_def)
  next
    case 2
    then show ?thesis by (simp add: EncodeVarint32_def)
  next
    case 3
    then show ?thesis by (simp add: EncodeVarint32_def)
  next
    case 4
    then show ?thesis by (simp add: EncodeVarint32_def)
  next
    case 5
    then show ?thesis by (simp add: EncodeVarint32_def)
  qed
qed

lemma EncodeVarint64_seq: "EncodeVarint64 m p v = store_seq m p (varint_bytes (unat v))"
proof (induction m p v rule: EncodeVarint64.induct)
  case (1 m p v)
  show ?case
  proof (cases "128 \<le> v")
    case True
    then have n: "128 \<le> unat v" by (simp add: word_le_nat_alt)
    show ?thesis using 1 [OF True] True unat_drop_bit [of 7 v]
      by (simp add: EncodeVarint64.simps [of m p v] varint_bytes_more [OF n] ucast_or_128 cong: Option.bind_cong)
  next
    case False
    then have n: "unat v < 128" by (simp add: word_le_nat_alt)
    show ?thesis using False
      by (simp add: EncodeVarint64.simps [of m p v] varint_bytes_last [OF n])
  qed
qed

section \<open>What the decoders compute\<close>

text \<open>
  The integer at the front of a run of bytes, in at most \<open>k\<close> bytes: its value before it is
  cut to the width of the result, and the number of bytes it takes.
\<close>

fun varint_parse :: "nat \<Rightarrow> byte list \<Rightarrow> (nat \<times> nat) option" where
  "varint_parse 0 bs = None"
| "varint_parse (Suc k) [] = None"
| "varint_parse (Suc k) (b # bs) =
     (if unat b < 128 then Some (unat b, 1)
      else map_option (\<lambda>(v, c). (unat b - 128 + 128 * v, c + 1)) (varint_parse k bs))"

text \<open>The accumulated result stays below the next shift, so that \<open>|=\<close> is an addition.\<close>

lemma varint_step_bound:
  fixes r :: "'a::len word"
  assumes r: "unat r < 2 ^ k" and d: "d < 128"
  shows "unat (r + word_of_nat (2 ^ k) * word_of_nat d) < 2 ^ (k + 7)"
proof -
  have "unat (r + word_of_nat (2 ^ k) * word_of_nat d) \<le> unat r + 2 ^ k * d"
  proof -
    have "r + word_of_nat (2 ^ k) * word_of_nat d = word_of_nat (unat r + 2 ^ k * d)" by simp
    then show ?thesis by (simp only: unat_of_nat mod_less_eq_dividend)
  qed
  also have "\<dots> < 2 ^ k + 2 ^ k * d" using r by simp
  also have "\<dots> = 2 ^ k * (d + 1)" by simp
  also have "\<dots> \<le> 2 ^ k * 128" using d by (intro mult_le_mono2) simp
  finally show ?thesis by (simp add: power_add)
qed

lemma GetVarint_loop_parse:
  fixes r :: "'a::len word"
  assumes "8 \<le> LENGTH('a)" "limit \<le> length m" "i \<le> n" "unat r < 2 ^ (7 * i)" "p \<le> limit"
    "last_shift + 7 = 7 * n"
  shows "GetVarint_loop last_shift m p limit (7 * i) r =
    Some (map_option (\<lambda>(v, c). (p + c, r + word_of_nat (2 ^ (7 * i) * v)))
      (varint_parse (n - i) (take (limit - p) (drop p m))))"
  using assms
proof (induction "n - i" arbitrary: i r p)
  case 0
  then show ?case by (simp add: GetVarint_loop.simps [of _ m p])
next
  case (Suc k)
  then have i: "7 * i \<le> last_shift" and k: "n - i = Suc k" "k = n - Suc i" "Suc i \<le> n" by auto
  show ?case
  proof (cases "p < limit")
    case False
    then show ?thesis using k by (simp add: GetVarint_loop.simps [of _ m p])
  next
    case True
    let ?b = "m ! p" and ?bs = "take (limit - Suc p) (drop (Suc p) m)"
    have pm: "p < length m" using True Suc.prems(2) by simp
    have bs: "take (limit - p) (drop p m) = ?b # ?bs"
      using True pm by (simp add: Cons_nth_drop_Suc [symmetric] take_Cons' Suc_diff_Suc [symmetric])
    note step = GetVarint_loop.simps [of last_shift m p limit "7 * i" r] load8_in
      ucast_and_128 [OF Suc.prems(1)] or_push_bit_word [OF Suc.prems(4)]
    show ?thesis
    proof (cases "unat ?b < 128")
      case last: True
      show ?thesis using True i pm last by (simp add: step bs k)
    next
      case more: False
      let ?d = "unat ?b mod 128"
      let ?r = "r + word_of_nat (2 ^ (7 * i)) * word_of_nat ?d"
      have d: "unat ?b - 128 = ?d" using more unat_lt_256 [of ?b] by (simp add: mod_if)
      have r: "unat ?r < 2 ^ (7 * Suc i)"
        using varint_step_bound [OF Suc.prems(4), of ?d] by (simp add: add.commute)
      have "GetVarint_loop last_shift m p limit (7 * i) r =
          GetVarint_loop last_shift m (p + 1) limit (7 * Suc i) ?r"
        using True i pm more by (simp add: step ucast_and_127_nat [OF Suc.prems(1)] add.commute)
      also have "\<dots> = Some (map_option (\<lambda>(v, c). (p + 1 + c, ?r + word_of_nat (2 ^ (7 * Suc i) * v)))
          (varint_parse (n - Suc i) (take (limit - (p + 1)) (drop (p + 1) m))))"
        using Suc.prems True k r by (intro Suc.hyps(1)) auto
      finally show ?thesis using more
        by (cases "varint_parse (n - Suc i) ?bs") (auto simp: bs k d power_add algebra_simps)
    qed
  qed
qed

lemma GetVarint32PtrFallback_parse:
  assumes "limit \<le> length m" "p \<le> limit"
  shows "GetVarint32PtrFallback m p limit = Some (map_option (\<lambda>(v, c). (p + c, word_of_nat v))
      (varint_parse 5 (take (limit - p) (drop p m))))"
  using GetVarint_loop_parse [where 'a = 32, of limit m 0 5 0 p 28] assms
  by (simp add: GetVarint32PtrFallback_def)

lemma GetVarint64Ptr_parse:
  assumes "limit \<le> length m" "p \<le> limit"
  shows "GetVarint64Ptr m p limit = Some (map_option (\<lambda>(v, c). (p + c, word_of_nat v))
      (varint_parse 10 (take (limit - p) (drop p m))))"
  using GetVarint_loop_parse [where 'a = 64, of limit m 0 10 0 p 63] assms
  by (simp add: GetVarint64Ptr_def)

lemma GetVarint32Ptr_fallback:
  "GetVarint32Ptr m p limit = GetVarint32PtrFallback m p limit"
  by (auto simp: GetVarint32Ptr_def GetVarint32PtrFallback_def GetVarint_loop.simps [of _ m p]
      intro!: Option.bind_cong)

section \<open>The encoding against the decoder\<close>

lemma varint_bytes_nonempty: "1 \<le> length (varint_bytes n)"
  by (subst varint_bytes.simps) simp

lemma length_varint_bytes_le: "0 < k \<Longrightarrow> n < 128 ^ k \<Longrightarrow> length (varint_bytes n) \<le> k"
proof (induction k arbitrary: n)
  case (Suc k)
  show ?case
  proof (cases "n < 128")
    case False
    then have "0 < k" using Suc.prems by (cases k) auto
    moreover have "n div 128 < 128 ^ k" using Suc.prems by (simp add: less_mult_imp_div_less mult.commute)
    ultimately show ?thesis using False Suc.IH by (simp add: varint_bytes_more)
  qed (simp add: varint_bytes_last)
qed simp

lemma unat_digit: "unat (word_of_nat (n mod 128 + 128) :: byte) = n mod 128 + 128"
proof -
  have "n mod 128 < 128" by simp
  then show ?thesis by (simp only: unat_of_nat) simp
qed

lemma varint_parse_bytes:
  "0 < k \<Longrightarrow> n < 128 ^ k \<Longrightarrow> varint_parse k (varint_bytes n @ rest) = Some (n, length (varint_bytes n))"
proof (induction k arbitrary: n)
  case (Suc k)
  show ?case
  proof (cases "n < 128")
    case True
    then show ?thesis by (simp add: varint_bytes_last unat_of_nat)
  next
    case False
    then have k: "0 < k" using Suc.prems by (cases k) auto
    have "n div 128 < 128 ^ k" using Suc.prems by (simp add: less_mult_imp_div_less mult.commute)
    then have "varint_parse k (varint_bytes (n div 128) @ rest) =
        Some (n div 128, length (varint_bytes (n div 128)))"
      using k by (rule Suc.IH [rotated])
    then show ?thesis using False by (simp add: varint_bytes_more unat_digit del: of_nat_add)
  qed
qed simp

lemma varint_parse_truncated: "j < length (varint_bytes n) \<Longrightarrow> varint_parse k (take j (varint_bytes n)) = None"
proof (induction k arbitrary: n j)
  case (Suc k)
  show ?case
  proof (cases "n < 128")
    case True
    then show ?thesis using Suc.prems by (simp add: varint_bytes_last)
  next
    case False
    then show ?thesis using Suc
      by (cases j) (simp_all add: varint_bytes_more unat_digit del: of_nat_add)
  qed
qed simp

text \<open>A run without a last byte among its first \<open>k\<close> holds no integer.\<close>

lemma varint_parse_None: "varint_parse k bs = None \<longleftrightarrow> (\<forall>b \<in> set (take k bs). 128 \<le> unat b)"
  by (induction k bs rule: varint_parse.induct) auto

lemma varint_parse_bounds:
  "varint_parse k bs = Some (v, c) \<Longrightarrow> 1 \<le> c \<and> c \<le> k \<and> c \<le> length bs \<and> v < 128 ^ c"
proof (induction k bs arbitrary: v c rule: varint_parse.induct)
  case (3 k b bs)
  show ?case
  proof (cases "unat b < 128")
    case False
    then obtain v' c' where p: "varint_parse k bs = Some (v', c')"
      and v: "v = unat b - 128 + 128 * v'" "c = c' + 1" using "3.prems" by auto
    have "v' < 128 ^ c'" using "3.IH" [OF False p] by simp
    then have "128 * (v' + 1) \<le> 128 * 128 ^ c'" by (intro mult_le_mono2) simp
    then have "v < 128 ^ c" using v unat_lt_256 [of b] by simp
    then show ?thesis using "3.IH" [OF False p] v by simp
  qed (use 3 in auto)
qed auto

lemma VarintLength_loop_bytes: "VarintLength_loop v len + 1 = len + length (varint_bytes (unat v))"
proof (induction v len rule: VarintLength_loop.induct)
  case (1 v len)
  show ?case
  proof (cases "128 \<le> v")
    case True
    then have n: "128 \<le> unat v" by (simp add: word_le_nat_alt)
    show ?thesis using 1 [OF True] True unat_drop_bit [of 7 v]
      by (simp add: VarintLength_loop.simps [of v] varint_bytes_more [OF n])
  next
    case False
    then have "unat v < 128" by (simp add: word_le_nat_alt)
    then show ?thesis using False by (simp add: VarintLength_loop.simps [of v] varint_bytes_last)
  qed
qed

lemma VarintLength_bytes: "VarintLength v = length (varint_bytes (unat v))"
  using VarintLength_loop_bytes [of v 1] by (simp add: VarintLength_def)

lemma store_seq_local_buf:
  assumes "length bs \<le> n"
  shows "store_seq (local_buf n) 0 bs = Some (bs @ local_buf (n - length bs), length bs)"
proof -
  have "local_buf n = [] @ local_buf (length bs) @ local_buf (n - length bs)"
    using assms by (simp add: local_buf_def replicate_add [symmetric])
  moreover have "length (local_buf (length bs)) = length bs" by (simp add: local_buf_def)
  ultimately show ?thesis
    using store_seq_append [of "local_buf (length bs)" bs "[]" "local_buf (n - length bs)"] by simp
qed

lemma unat_u32_varint: "unat (v::u32) < 128 ^ 5"
  using unat_lt_pow [of v] by simp

lemma unat_u64_varint: "unat (v::u64) < 128 ^ 10"
  using unat_lt_pow [of v] by simp

lemma PutVarint32_bytes: "PutVarint32 dst v = Some (dst @ varint_bytes (unat v))"
proof -
  have "length (varint_bytes (unat v)) \<le> 5"
    using unat_u32_varint by (intro length_varint_bytes_le) auto
  then show ?thesis by (simp add: PutVarint32_def EncodeVarint32_seq store_seq_local_buf load_range_def)
qed

lemma PutVarint64_bytes: "PutVarint64 dst v = Some (dst @ varint_bytes (unat v))"
proof -
  have "length (varint_bytes (unat v)) \<le> 10"
    using unat_u64_varint by (intro length_varint_bytes_le) auto
  then show ?thesis by (simp add: PutVarint64_def EncodeVarint64_seq store_seq_local_buf load_range_def)
qed

lemma PutLengthPrefixedSlice_bytes:
  assumes "slice_ok s"
  shows "PutLengthPrefixedSlice dst s =
    Some (dst @ varint_bytes (sl_size s mod 2 ^ 32) @ sl_bytes s)"
  using assms slice_toString_ok [OF assms]
  by (simp add: PutLengthPrefixedSlice_def PutVarint32_bytes slice_toString_def unat_of_nat)

text \<open>The slice decoders, in terms of the bytes of the slice.\<close>

lemma GetVarint32_parse:
  assumes "slice_ok s"
  shows "GetVarint32 s = Some (map_option (\<lambda>(v, c).
      (Slice_ptr (sl_mem s) (sl_off s + c) (sl_size s - c), word_of_nat v)) (varint_parse 5 (sl_bytes s)))"
  using assms
  by (cases "varint_parse 5 (sl_bytes s)")
    (auto simp: GetVarint32_def GetVarint32Ptr_fallback GetVarint32PtrFallback_parse slice_ok_def
      sl_bytes_def Let_def)

lemma GetVarint64_parse:
  assumes "slice_ok s"
  shows "GetVarint64 s = Some (map_option (\<lambda>(v, c).
      (Slice_ptr (sl_mem s) (sl_off s + c) (sl_size s - c), word_of_nat v)) (varint_parse 10 (sl_bytes s)))"
  using assms
  by (cases "varint_parse 10 (sl_bytes s)")
    (auto simp: GetVarint64_def GetVarint64Ptr_parse slice_ok_def sl_bytes_def Let_def)

lemma GetLengthPrefixedSlice_ok:
  assumes ok: "slice_ok s" and bs: "sl_bytes s = varint_bytes (length x) @ x @ rest"
    and len: "length x < 2 ^ 32"
  shows "\<exists>s' r. GetLengthPrefixedSlice s = Some (s', Some r) \<and> slice_ok s' \<and> sl_bytes s' = rest
    \<and> slice_ok r \<and> sl_bytes r = x"
proof -
  let ?c = "length (varint_bytes (length x))"
  let ?s = "Slice_ptr (sl_mem s) (sl_off s + ?c) (sl_size s - ?c)"
  have "varint_parse 5 (sl_bytes s) = Some (length x, ?c)"
    unfolding bs using len by (intro varint_parse_bytes) auto
  then have g: "GetVarint32 s = Some (Some (?s, word_of_nat (length x)))"
    by (simp add: GetVarint32_parse [OF ok])
  have c: "?c \<le> sl_size s" "length x \<le> sl_size s - ?c"
    using length_sl_bytes [OF ok] unfolding bs by auto
  note adv = slice_advance [OF ok c(1)]
  have sz: "sl_size ?s = sl_size s - ?c" by (simp add: Slice_ptr_def)
  have u: "unat (word_of_nat (length x) :: u32) = length x" using len by (simp add: unat_of_nat)
  obtain s' where s': "removePrefix ?s (length x) = Some s'" "slice_ok s'"
    "sl_bytes s' = drop (length x) (sl_bytes ?s)"
    using removePrefix_ok [OF adv(1), of "length x"] c(2) sz by auto
  have r: "slice_ok (Slice_ptr (sl_mem ?s) (sl_off ?s) (length x))"
    "sl_bytes (Slice_ptr (sl_mem ?s) (sl_off ?s) (length x)) = x"
    using slice_prefix [OF adv(1), of "length x"] c(2) sz adv(2) bs by simp_all
  show ?thesis
    using g c(2) s' r adv(2) bs by (simp add: GetLengthPrefixedSlice_def u sz)
qed

lemma GetLengthPrefixedSlice_short:
  assumes ok: "slice_ok s" and bs: "sl_bytes s = varint_bytes n @ x"
    and len: "length x < n" "n < 2 ^ 32"
  shows "\<exists>s'. GetLengthPrefixedSlice s = Some (s', None) \<and> sl_bytes s' = x"
proof -
  let ?c = "length (varint_bytes n)"
  let ?s = "Slice_ptr (sl_mem s) (sl_off s + ?c) (sl_size s - ?c)"
  have "varint_parse 5 (sl_bytes s) = Some (n, ?c)"
    unfolding bs using len by (intro varint_parse_bytes) auto
  then have g: "GetVarint32 s = Some (Some (?s, word_of_nat n))"
    by (simp add: GetVarint32_parse [OF ok])
  have c: "?c \<le> sl_size s" "sl_size s - ?c = length x"
    using length_sl_bytes [OF ok] unfolding bs by auto
  have u: "unat (word_of_nat n :: u32) = n" using len by (simp add: unat_of_nat)
  show ?thesis
    using g c len slice_advance [OF ok c(1)] bs
    by (simp add: GetLengthPrefixedSlice_def u Slice_ptr_def)
qed

lemma le_bytes_map: "le_bytes k n = map (\<lambda>i. word_of_nat (n div 256 ^ i)) [0..<k]"
proof (induction k arbitrary: n)
  case (Suc k)
  have "map (\<lambda>i. word_of_nat (n div 256 ^ i) :: byte) [0..<Suc k] =
      word_of_nat n # map (\<lambda>i. word_of_nat (n div 256 ^ Suc i)) [0..<k]"
    by (simp add: upt_conv_Cons map_Suc_upt [symmetric] o_def del: upt_Suc)
  then show ?case by (simp add: Suc div_mult2_eq)
qed simp

text \<open>The parsed value as a sum of digits.\<close>

lemma varint_parse_sum:
  "varint_parse k bs = Some (v, c) \<Longrightarrow>
    v = (\<Sum>i<c. unat (bs ! i) mod 128 * 128 ^ i) \<and> (\<forall>i < c - 1. 128 \<le> unat (bs ! i))
    \<and> unat (bs ! (c - 1)) < 128"
proof (induction k bs arbitrary: v c rule: varint_parse.induct)
  case (3 k b bs)
  show ?case
  proof (cases "unat b < 128")
    case True
    then show ?thesis using "3.prems" by auto
  next
    case False
    then obtain v' c' where p: "varint_parse k bs = Some (v', c')"
      and v: "v = unat b - 128 + 128 * v'" "c = Suc c'" using "3.prems" by auto
    have c: "1 \<le> c'" using varint_parse_bounds [OF p] by simp
    have d: "unat b - 128 = unat b mod 128" using False unat_lt_256 [of b] by (simp add: mod_if)
    note IH = "3.IH" [OF False p]
    have "v = (\<Sum>i<Suc c'. unat ((b # bs) ! i) mod 128 * 128 ^ i)"
      using IH by (simp only: sum.lessThan_Suc_shift v(1) d) (simp add: sum_distrib_left ac_simps)
    moreover have "128 \<le> unat ((b # bs) ! i)" if "i < c'" for i
      using that IH False c by (cases i) auto
    ultimately show ?thesis using IH c v(2) by (auto simp: nth_Cons')
  qed
qed auto

lemma varint_parse_range:
  assumes "p \<le> limit" "limit \<le> length m"
    "varint_parse k (take (limit - p) (drop p m)) = Some (v, c)"
  shows "1 \<le> c \<and> p + c \<le> limit \<and> c \<le> k
    \<and> (\<forall>i. p \<le> i \<and> i < p + c - 1 \<longrightarrow> 128 \<le> unat (m ! i)) \<and> unat (m ! (p + c - 1)) < 128
    \<and> v = (\<Sum>i<c. unat (m ! (p + i)) mod 128 * 128 ^ i)"
proof -
  let ?bs = "take (limit - p) (drop p m)"
  have b: "1 \<le> c" "c \<le> k" "c \<le> length ?bs" using varint_parse_bounds [OF assms(3)] by auto
  have nth: "?bs ! i = m ! (p + i)" if "i < c" for i using that b(3) assms by simp
  have "128 \<le> unat (m ! i)" if "p \<le> i" "i < p + c - 1" for i
    using varint_parse_sum [OF assms(3)] nth [of "i - p"] that by (auto dest!: spec [of _ "i - p"])
  moreover have "unat (m ! (p + c - 1)) < 128"
    using varint_parse_sum [OF assms(3)] nth [of "c - 1"] b(1) by simp
  moreover have "v = (\<Sum>i<c. unat (m ! (p + i)) mod 128 * 128 ^ i)"
    using varint_parse_sum [OF assms(3)] nth by simp
  ultimately show ?thesis using b assms by auto
qed

lemma DecodeFixed32_le: "DecodeFixed32 (pre @ le_bytes 4 (unat v) @ post) (length pre) = Some v"
  using DecodeFixed32_append [of "le_bytes 4 (unat v)" pre post] unat_lt_pow [of v]
  by (auto simp: le_value_bytes word_unat_eq_iff)

lemma DecodeFixed64_le: "DecodeFixed64 (pre @ le_bytes 8 (unat v) @ post) (length pre) = Some v"
  using DecodeFixed64_append [of "le_bytes 8 (unat v)" pre post] unat_lt_pow [of v]
  by (auto simp: le_value_bytes word_unat_eq_iff)

section \<open>Properties\<close>

text \<open>
  coding.h \<open>EncodeFixed32/64\<close>, \<open>DecodeFixed32/64\<close>, coding.cc \<open>PutFixed32/64\<close>.
  Whatever follows it in the buffer, an integer written by \<open>PutFixed32\<close> or \<open>PutFixed64\<close> is
  read back by the decoder at the place where it was appended; it takes 4 or 8 bytes, the
  base-256 digits of the value, lowest first.
\<close>

theorem fixed_roundtrip:
  "\<exists>s32 s64. PutFixed32 dst v32 = Some s32 \<and> PutFixed64 dst v64 = Some s64
    \<and> drop (length dst) s32 = map (\<lambda>i. word_of_nat (unat v32 div 256 ^ i)) [0..<4]
    \<and> drop (length dst) s64 = map (\<lambda>i. word_of_nat (unat v64 div 256 ^ i)) [0..<8]
    \<and> DecodeFixed32 (s32 @ rest) (length dst) = Some v32
    \<and> DecodeFixed64 (s64 @ rest) (length dst) = Some v64"
  by (simp add: PutFixed32_bytes PutFixed64_bytes le_bytes_map [symmetric] DecodeFixed32_le
      DecodeFixed64_le)

text \<open>
  C24 (coding.cc \<open>PutVarint32\<close>, \<open>PutVarint64\<close>, \<open>VarintLength\<close>, \<open>GetVarint32Ptr\<close>,
  \<open>GetVarint64Ptr\<close>). Every integer survives the round trip through a varint, whatever
  follows it: the encoder appends exactly \<open>VarintLength\<close> bytes (never more than the 5 or 10 of
  its local buffer) and the decoder returns the value and the pointer just after them.
\<close>

theorem varint_roundtrip:
  "\<exists>s32 s64. PutVarint32 dst v32 = Some s32 \<and> PutVarint64 dst v64 = Some s64
    \<and> length s32 = length dst + VarintLength (ucast v32) \<and> VarintLength (ucast v32) \<le> 5
    \<and> length s64 = length dst + VarintLength v64 \<and> VarintLength v64 \<le> 10
    \<and> GetVarint32Ptr (s32 @ rest) (length dst) (length (s32 @ rest)) = Some (Some (length s32, v32))
    \<and> GetVarint64Ptr (s64 @ rest) (length dst) (length (s64 @ rest)) = Some (Some (length s64, v64))"
proof -
  have u: "unat (ucast v32 :: u64) = unat v32"
    using unat_lt_pow [of v32] by (simp add: unsigned_ucast_eq take_bit_nat_eq_self)
  show ?thesis
    using varint_parse_bytes [of 5 "unat v32" rest] varint_parse_bytes [of 10 "unat v64" rest]
      length_varint_bytes_le [of 5 "unat v32"] length_varint_bytes_le [of 10 "unat v64"]
      unat_u32_varint [of v32] unat_u64_varint [of v64]
    by (simp add: PutVarint32_bytes PutVarint64_bytes VarintLength_bytes u GetVarint32Ptr_fallback
        GetVarint32PtrFallback_parse GetVarint64Ptr_parse)
qed

text \<open>
  C23 (coding.cc \<open>GetVarint32PtrFallback\<close>, \<open>GetVarint64Ptr\<close>). On any input bytes and any range
  inside the buffer the decoders terminate without reading outside the range. They return
  \<open>nullptr\<close> exactly when none of the first 5 (10) bytes of the range ends an integer;
  otherwise they stop after the first byte below 128, at most 5 (10) bytes on, and the
  value is the base-128 number of the low seven bits of the bytes read, modulo the width:
  bits that do not fit are dropped silently.
\<close>

theorem varint_decode_any_input:
  assumes "p \<le> limit" "limit \<le> length m"
  shows "(case GetVarint64Ptr m p limit of
      None \<Rightarrow> False
    | Some None \<Rightarrow> \<forall>b \<in> set (take 10 (take (limit - p) (drop p m))). 128 \<le> unat b
    | Some (Some (q, v)) \<Rightarrow> p < q \<and> q \<le> limit \<and> q \<le> p + 10
        \<and> (\<forall>i. p \<le> i \<and> i < q - 1 \<longrightarrow> 128 \<le> unat (m ! i)) \<and> unat (m ! (q - 1)) < 128
        \<and> unat v = (\<Sum>i<q - p. unat (m ! (p + i)) mod 128 * 128 ^ i) mod 2 ^ 64)
    \<and> (case GetVarint32PtrFallback m p limit of
      None \<Rightarrow> False
    | Some None \<Rightarrow> \<forall>b \<in> set (take 5 (take (limit - p) (drop p m))). 128 \<le> unat b
    | Some (Some (q, v)) \<Rightarrow> p < q \<and> q \<le> limit \<and> q \<le> p + 5
        \<and> (\<forall>i. p \<le> i \<and> i < q - 1 \<longrightarrow> 128 \<le> unat (m ! i)) \<and> unat (m ! (q - 1)) < 128
        \<and> unat v = (\<Sum>i<q - p. unat (m ! (p + i)) mod 128 * 128 ^ i) mod 2 ^ 32)"
  using assms varint_parse_range [OF assms, of 10] varint_parse_range [OF assms, of 5]
  by (auto simp: GetVarint64Ptr_parse GetVarint32PtrFallback_parse varint_parse_None unat_of_nat
      split: option.splits)

theorem varint_decode_any_input_witness:
  "(0::nat) \<le> 11 \<and> GetVarint64Ptr (replicate 11 0x81) 0 11 \<noteq> None"
  using varint_decode_any_input [of 0 11 "replicate 11 0x81"] by (auto split: option.splits)

text \<open>
  (coding.cc \<open>GetVarint32Ptr\<close>). The fast path for one-byte integers changes nothing: on every
  buffer, pointer and limit \<open>GetVarint32Ptr\<close> gives what the plain loop
  \<open>GetVarint32PtrFallback\<close> gives.
\<close>

theorem GetVarint32Ptr_fast_path: "GetVarint32Ptr m p limit = GetVarint32PtrFallback m p limit"
  by (rule GetVarint32Ptr_fallback)

text \<open>
  The tests \<open>Varint32Truncation\<close> and \<open>Varint64Truncation\<close>: no strict prefix of
  an encoded integer decodes: cut anywhere before its last byte it is rejected.
\<close>

theorem varint_truncation:
  "\<exists>s32 s64. PutVarint32 [] v32 = Some s32 \<and> PutVarint64 [] v64 = Some s64
    \<and> (\<forall>n < length s32. GetVarint32Ptr (take n s32) 0 n = Some None)
    \<and> (\<forall>n < length s64. GetVarint64Ptr (take n s64) 0 n = Some None)"
  by (simp add: PutVarint32_bytes PutVarint64_bytes GetVarint32Ptr_fallback
      GetVarint32PtrFallback_parse GetVarint64Ptr_parse varint_parse_truncated)

theorem varint_truncation_witness:
  "\<exists>s32 s64. PutVarint32 [] 0x80000064 = Some s32 \<and> PutVarint64 [] 300 = Some s64
    \<and> (\<forall>n < length s32. GetVarint32Ptr (take n s32) 0 n = Some None)"
  using varint_truncation [where ?v32.0 = "0x80000064" and ?v64.0 = 300] by blast

text \<open>
  C25 (coding.cc \<open>PutLengthPrefixedSlice\<close>, \<open>GetLengthPrefixedSlice\<close>). A slice shorter than
  \<open>2 ^ 32\<close> bytes that is appended to any string is read back, with the rest of the input
  left for the next call; when fewer bytes than announced are left, the result is
  \<open>false\<close> and the input has already been moved past the length.
\<close>

theorem length_prefixed_roundtrip:
  assumes "slice_ok x" "sl_size x < 2 ^ 32"
  shows "\<exists>t. PutLengthPrefixedSlice dst x = Some t
    \<and> (let input = Slice_ptr (t @ rest) (length dst) (length (t @ rest) - length dst) in
        \<exists>input' r. GetLengthPrefixedSlice input = Some (input', Some r)
          \<and> sl_bytes r = sl_bytes x \<and> sl_bytes input' = rest \<and> slice_ok input')
    \<and> (\<forall>k < sl_size x.
        let input = Slice_ptr t (length dst) (length t - length dst - Suc k) in
        \<exists>input'. GetLengthPrefixedSlice input = Some (input', None)
          \<and> sl_bytes input' = take (sl_size x - Suc k) (sl_bytes x))"
proof -
  let ?t = "dst @ varint_bytes (sl_size x) @ sl_bytes x"
  have len: "length (sl_bytes x) = sl_size x" using assms by simp
  have t: "PutLengthPrefixedSlice dst x = Some ?t"
    using assms by (simp add: PutLengthPrefixedSlice_bytes)
  let ?in = "Slice_ptr (?t @ rest) (length dst) (length (?t @ rest) - length dst)"
  have in_ok: "slice_ok ?in" "sl_bytes ?in = varint_bytes (length (sl_bytes x)) @ sl_bytes x @ rest"
    by (simp_all add: slice_ok_ptr sl_bytes_ptr len)
  have short: "\<exists>input'. GetLengthPrefixedSlice (Slice_ptr ?t (length dst) (length ?t - length dst - Suc k)) =
      Some (input', None) \<and> sl_bytes input' = take (sl_size x - Suc k) (sl_bytes x)"
    if "k < sl_size x" for k
  proof (rule GetLengthPrefixedSlice_short)
    show "slice_ok (Slice_ptr ?t (length dst) (length ?t - length dst - Suc k))"
      by (simp add: slice_ok_def Slice_ptr_def)
    show "sl_bytes (Slice_ptr ?t (length dst) (length ?t - length dst - Suc k)) =
        varint_bytes (sl_size x) @ take (sl_size x - Suc k) (sl_bytes x)"
      using that len by (simp add: sl_bytes_ptr)
  qed (use that assms len in auto)
  show ?thesis
    using t GetLengthPrefixedSlice_ok [OF in_ok] assms(2) len short by (auto simp: Let_def)
qed

theorem length_prefixed_roundtrip_witness:
  "\<exists>t. PutLengthPrefixedSlice [7] (Slice_string [1, 2, 3]) = Some t
    \<and> (\<exists>input'. GetLengthPrefixedSlice (Slice_ptr t 1 (length t - 1 - Suc 0)) = Some (input', None))"
  using length_prefixed_roundtrip [of "Slice_string [1, 2, 3]" "[7]" "[]"]
  by (force simp: Slice_string_def Let_def slice_ok_def)

end
