(* ===== verification/KV_Random.thy ===== *)
theory KV_Random
  imports KV_Prelude
begin

text \<open>
  The linear congruential generator of src/util/random.h. The state is the one field
  \<open>seed_\<close>, kept at its 32 bits; the product is a 64-bit word.
\<close>

unbundle bit_operations_syntax

section \<open>The class\<close>

record random =
  rnd_seed :: u32   \<comment> \<open>\<open>seed_\<close>\<close>

definition Random_new :: "u32 \<Rightarrow> random" where
  "Random_new s =
     (let seed = s AND 0x7fffffff in
      \<lparr>rnd_seed = (if seed = 0 \<or> seed = 2147483647 then 1 else seed)\<rparr>)"

definition random_next :: "random \<Rightarrow> u32 \<times> random" where
  "random_next rnd =
     (let M = (2147483647 :: u32);
          A = (16807 :: u64);
          product = ucast (rnd_seed rnd) * A;
          seed = (ucast (drop_bit 31 product + (product AND ucast M)) :: u32);
          seed = (if seed > M then seed - M else seed)
      in (seed, rnd\<lparr>rnd_seed := seed\<rparr>))"

text \<open>
  An \<open>int\<close> argument is converted to \<open>uint32_t\<close> by the arithmetic, so it is given as that
  word; a zero divisor is undefined.
\<close>

definition uniform :: "random \<Rightarrow> u32 \<Rightarrow> (u32 \<times> random) option" where
  "uniform rnd n =
     (let (v, rnd) = random_next rnd in if n = 0 then None else Some (v mod n, rnd))"

definition oneIn :: "random \<Rightarrow> u32 \<Rightarrow> (bool \<times> random) option" where
  "oneIn rnd n =
     (let (v, rnd) = random_next rnd in if n = 0 then None else Some (v mod n = 0, rnd))"

definition skewed :: "random \<Rightarrow> u32 \<Rightarrow> (u32 \<times> random) option" where
  "skewed rnd max_log = do {
     (base, rnd) \<leftarrow> uniform rnd (max_log + 1);
     _ \<leftarrow> cassert (base < 32);
     uniform rnd (push_bit (unat base) 1) }"

section \<open>One step\<close>

definition random_ok :: "random \<Rightarrow> bool" where
  "random_ok rnd \<longleftrightarrow> 0 < unat (rnd_seed rnd) \<and> unat (rnd_seed rnd) < 2147483647"

lemma unat_and_mask31: "unat (w AND 0x7fffffff :: 'a::len word) = unat w mod 2 ^ 31" if "31 \<le> LENGTH('a)"
proof -
  have "(0x7fffffff :: 'a word) = mask 31" by (simp add: mask_eq_exp_minus_1)
  then show ?thesis by (simp only: take_bit_eq_mask [symmetric] unat_take_bit_word)
qed

lemma Random_new_ok: "random_ok (Random_new s)"
proof -
  have "unat (s AND 0x7fffffff) < 2 ^ 31" by (subst unat_and_mask31) simp_all
  then show ?thesis
    by (auto simp: Random_new_def random_ok_def Let_def word_unat_eq_iff)
qed

lemma lcg_reduce:
  fixes q r :: nat
  assumes "\<not> 2147483647 dvd q * 2147483648 + r" "q < 16807" "r < 2147483648"
  shows "(if q + r > 2147483647 then q + r - 2147483647 else q + r) =
    (q * 2147483648 + r) mod 2147483647"
proof -
  let ?M = "2147483647 :: nat"
  have "q * 2147483648 + r = q * ?M + (q + r)" by simp
  then have mod: "(q * 2147483648 + r) mod ?M = (q + r) mod ?M" by (simp only: mod_mult_self3)
  have ne: "(q + r) mod ?M \<noteq> 0" using assms(1) unfolding dvd_eq_mod_eq_0 mod .
  have "q + r \<noteq> ?M" using ne by (metis mod_self)
  moreover have "q + r < 2 * ?M" using assms by simp
  ultimately show ?thesis unfolding mod by (cases "q + r < ?M") (simp_all add: le_mod_geq)
qed

lemma lcg_fold:
  fixes p :: nat
  assumes "\<not> 2147483647 dvd p" "p < 2147483647 * 16807"
  shows "(let s = p div 2 ^ 31 + p mod 2 ^ 31 in if s > 2147483647 then s - 2147483647 else s) = p mod 2147483647"
    and "p div 2 ^ 31 + p mod 2 ^ 31 < 2 ^ 32"
proof -
  have q: "p div 2147483648 < 16807" using assms(2) by (simp add: less_mult_imp_div_less)
  have r: "p mod 2147483648 < 2147483648" by simp
  show "p div 2 ^ 31 + p mod 2 ^ 31 < 2 ^ 32" using q r by simp
  show "(let s = p div 2 ^ 31 + p mod 2 ^ 31 in if s > 2147483647 then s - 2147483647 else s) = p mod 2147483647"
    using lcg_reduce [of "p div 2147483648" "p mod 2147483648", OF _ q r] assms(1) by (simp add: Let_def)
qed

lemma M_dvd_mult: "2147483647 dvd x * 16807 \<longleftrightarrow> 2147483647 dvd (x::nat)"
proof -
  have "coprime (2147483647::nat) 16807" by (simp add: coprime_iff_gcd_eq_1 gcd_non_0_nat)
  then show ?thesis by (metis coprime_dvd_mult_left_iff)
qed

lemma random_next_step:
  assumes "random_ok rnd"
  shows "unat (fst (random_next rnd)) = unat (rnd_seed rnd) * 16807 mod 2147483647"
    and "rnd_seed (snd (random_next rnd)) = fst (random_next rnd)"
    and "random_ok (snd (random_next rnd))"
proof -
  let ?s = "unat (rnd_seed rnd)" and ?M = "2147483647 :: nat"
  let ?p = "?s * 16807"
  let ?prod = "ucast (rnd_seed rnd) * (16807 :: u64)"
  have s: "0 < ?s" "?s < ?M" using assms by (auto simp: random_ok_def)
  then have nd: "\<not> ?M dvd ?p" by (auto simp: M_dvd_mult dest: dvd_imp_le)
  have lt: "?p < ?M * 16807" using s by simp
  note fold = lcg_fold [OF nd lt]
  have us: "unat (ucast (rnd_seed rnd) :: u64) = ?s"
    using s by (simp add: unsigned_ucast_eq take_bit_nat_eq_self)
  have prod: "unat ?prod = ?p" using s by (simp add: us unat_word_ariths)
  have u: "unat (drop_bit 31 ?prod + (?prod AND 2147483647)) = ?p div 2 ^ 31 + ?p mod 2 ^ 31"
    using fold(2) s by (simp add: unat_word_ariths unat_and_mask31 unat_drop_bit us)
  let ?t = "ucast (drop_bit 31 ?prod + (?prod AND 2147483647)) :: u32"
  have t: "unat ?t = ?p div 2 ^ 31 + ?p mod 2 ^ 31"
    using fold(2) u by (simp add: unsigned_ucast_eq take_bit_nat_eq_self)
  show n: "unat (fst (random_next rnd)) = ?p mod ?M"
    unfolding fold(1) [symmetric]
    using t by (simp add: random_next_def Let_def word_less_nat_alt unat_sub word_le_nat_alt)
  show r: "rnd_seed (snd (random_next rnd)) = fst (random_next rnd)"
    by (simp add: random_next_def Let_def)
  have "0 < ?p mod ?M" using nd by (simp add: mod_greater_zero_iff_not_dvd)
  then show "random_ok (snd (random_next rnd))" by (simp add: random_ok_def r n)
qed

section \<open>The period\<close>

text \<open>Modular powers from the bits of the exponent, most significant first.\<close>

fun pow_bits :: "nat \<Rightarrow> nat \<Rightarrow> nat \<Rightarrow> nat list \<Rightarrow> nat" where
  "pow_bits m a acc [] = acc"
| "pow_bits m a acc (b # bs) =
     pow_bits m a (if b = 1 then acc * acc mod m * a mod m else acc * acc mod m) bs"

fun bits_value :: "nat \<Rightarrow> nat list \<Rightarrow> nat" where
  "bits_value n [] = n"
| "bits_value n (b # bs) = bits_value (2 * n + (if b = 1 then 1 else 0)) bs"

lemma pow_bits_power: "acc = a ^ n mod m \<Longrightarrow> pow_bits m a acc bs = a ^ bits_value n bs mod m"
proof (induction bs arbitrary: acc n)
  case (Cons b bs)
  have sq: "acc * acc mod m = a ^ (2 * n) mod m"
    by (simp add: Cons.prems power2_eq_square [symmetric] power_mod power_mult [symmetric] mult.commute)
  then have sq1: "acc * acc mod m * a mod m = a ^ (2 * n + 1) mod m"
    by (simp add: mod_mult_right_eq mult.commute)
  show ?case using Cons.IH [OF sq] Cons.IH [OF sq1] by simp
qed simp

text \<open>The bits of a number, to state the exponents below as decimals.\<close>

lemma lcg_power:
  assumes "bits_value 0 bs = e"
  shows "16807 ^ e mod 2147483647 = pow_bits 2147483647 16807 1 bs"
  using pow_bits_power [of 1 16807 0 2147483647 bs] assms by simp

text \<open>\<open>k\<close> steps multiply every state by 1 modulo \<open>2 ^ 31 - 1\<close>.\<close>

definition lcg_period :: "nat \<Rightarrow> bool" where
  "lcg_period k \<longleftrightarrow> 16807 ^ k mod 2147483647 = (1::nat)"

lemma lcg_period_bits:
  assumes "bits_value 0 bs = e"
  shows "lcg_period e \<longleftrightarrow> pow_bits 2147483647 16807 1 bs = 1"
  unfolding lcg_period_def lcg_power [OF assms] ..

lemma lcg_power_full: "lcg_period 2147483646"
  by (subst lcg_period_bits [of "[1, 1, 1, 1, 1, 1, 1, 1, 1, 1, 1, 1, 1, 1, 1, 1, 1, 1, 1, 1, 1, 1, 1, 1, 1, 1, 1, 1, 1, 1, 0]"]) simp_all
lemma lcg_power_p2: "\<not> lcg_period 1073741823"
  by (subst lcg_period_bits [of "[1, 1, 1, 1, 1, 1, 1, 1, 1, 1, 1, 1, 1, 1, 1, 1, 1, 1, 1, 1, 1, 1, 1, 1, 1, 1, 1, 1, 1, 1]"]) simp_all
lemma lcg_power_p3: "\<not> lcg_period 715827882"
  by (subst lcg_period_bits [of "[1, 0, 1, 0, 1, 0, 1, 0, 1, 0, 1, 0, 1, 0, 1, 0, 1, 0, 1, 0, 1, 0, 1, 0, 1, 0, 1, 0, 1, 0]"]) simp_all
lemma lcg_power_p7: "\<not> lcg_period 306783378"
  by (subst lcg_period_bits [of "[1, 0, 0, 1, 0, 0, 1, 0, 0, 1, 0, 0, 1, 0, 0, 1, 0, 0, 1, 0, 0, 1, 0, 0, 1, 0, 0, 1, 0]"]) simp_all
lemma lcg_power_p11: "\<not> lcg_period 195225786"
  by (subst lcg_period_bits [of "[1, 0, 1, 1, 1, 0, 1, 0, 0, 0, 1, 0, 1, 1, 1, 0, 1, 0, 0, 0, 1, 0, 1, 1, 1, 0, 1, 0]"]) simp_all
lemma lcg_power_p31: "\<not> lcg_period 69273666"
  by (subst lcg_period_bits [of "[1, 0, 0, 0, 0, 1, 0, 0, 0, 0, 1, 0, 0, 0, 0, 1, 0, 0, 0, 0, 1, 0, 0, 0, 0, 1, 0]"]) simp_all
lemma lcg_power_p151: "\<not> lcg_period 14221746"
  by (subst lcg_period_bits [of "[1, 1, 0, 1, 1, 0, 0, 1, 0, 0, 0, 0, 0, 0, 0, 1, 1, 0, 1, 1, 0, 0, 1, 0]"]) simp_all
lemma lcg_power_p331: "\<not> lcg_period 6487866"
  by (subst lcg_period_bits [of "[1, 1, 0, 0, 0, 1, 0, 1, 1, 1, 1, 1, 1, 1, 1, 0, 0, 1, 1, 1, 0, 1, 0]"]) simp_all

lemma funpow_rnd_seed:
  assumes "random_ok rnd"
  shows "random_ok (((\<lambda>r. snd (random_next r)) ^^ k) rnd)
    \<and> unat (rnd_seed (((\<lambda>r. snd (random_next r)) ^^ k) rnd)) = unat (rnd_seed rnd) * 16807 ^ k mod 2147483647"
proof (induction k)
  case 0
  then show ?case using assms by (simp add: random_ok_def)
next
  case (Suc k)
  then show ?case
    by (simp add: random_next_step mod_mult_left_eq mult.assoc [symmetric] mult.commute [of 16807])
qed

lemma coprime_lcg: "coprime (16807 ^ k) (2147483647::nat)"
proof -
  have "coprime (16807::nat) 2147483647" by (simp add: coprime_iff_gcd_eq_1 gcd_non_0_nat)
  then show ?thesis by simp
qed

lemma lcg_cancel:
  "(16807::nat) ^ (j + k) mod 2147483647 = 16807 ^ j mod 2147483647 \<longleftrightarrow> lcg_period k"
  unfolding lcg_period_def
proof
  assume "(16807::nat) ^ (j + k) mod 2147483647 = 16807 ^ j mod 2147483647"
  then have "2147483647 dvd (16807::nat) ^ (j + k) - 16807 ^ j"
    by (simp add: mod_eq_dvd_iff_nat power_increasing)
  then have "2147483647 dvd (16807::nat) ^ j * (16807 ^ k - 1)" by (simp add: power_add algebra_simps)
  then have "2147483647 dvd (16807::nat) ^ k - 1"
    using coprime_lcg [of j] by (simp add: coprime_dvd_mult_right_iff coprime_commute)
  then have "(16807::nat) ^ k mod 2147483647 = 1 mod 2147483647"
    by (subst mod_eq_dvd_iff_nat) simp_all
  then show "16807 ^ k mod 2147483647 = (1::nat)" by simp
next
  assume 1: "16807 ^ k mod 2147483647 = (1::nat)"
  have "(16807::nat) ^ (j + k) mod 2147483647 = 16807 ^ j * (16807 ^ k mod 2147483647) mod 2147483647"
    by (simp add: power_add mod_mult_right_eq)
  then show "(16807::nat) ^ (j + k) mod 2147483647 = 16807 ^ j mod 2147483647" by (simp add: 1)
qed

lemma lcg_period_mult: "lcg_period d \<Longrightarrow> lcg_period (d * n)"
proof (induction n)
  case (Suc n)
  then show ?case using lcg_cancel [of "d * n" d] by (simp add: lcg_period_def add.commute)
qed (simp add: lcg_period_def)

lemma lcg_period_dvd:
  assumes d: "lcg_period d" "0 < d" "\<And>k. 0 < k \<Longrightarrow> k < d \<Longrightarrow> \<not> lcg_period k" and k: "lcg_period k"
  shows "d dvd k"
proof (rule ccontr)
  assume "\<not> d dvd k"
  then have r: "0 < k mod d" "k mod d < d" using d(2) by (auto simp: mod_greater_zero_iff_not_dvd)
  have "lcg_period (d * (k div d))" using d(1) by (rule lcg_period_mult)
  moreover have "lcg_period (d * (k div d) + k mod d)" using k by simp
  ultimately have "lcg_period (k mod d)"
    using lcg_cancel [of "d * (k div d)" "k mod d"] by (simp only: lcg_period_def simp_thms)
  with d(3) r show False by blast
qed

lemma coprime_small_prime:
  fixes p q b :: nat
  assumes "\<forall>d \<in> set [2..<Suc b]. \<not> d dvd p" "p < Suc b * Suc b" "1 < p" "\<not> p dvd q"
  shows "coprime q p"
proof (rule ccontr)
  let ?g = "gcd q p"
  assume "\<not> coprime q p"
  then have g1: "?g \<noteq> 1" by (simp add: coprime_iff_gcd_eq_1)
  have g: "?g dvd p" "?g dvd q" by simp_all
  from g(1) obtain h where h: "p = ?g * h" by (rule dvdE)
  have "?g \<noteq> p" using g assms(4) by metis
  with h assms(3) g1 have "2 \<le> ?g" "2 \<le> h"
    by (metis One_nat_def less_2_cases_iff mult_0 mult_0_right mult_1_right not_le not_less_zero)+
  moreover have "h dvd p" using h by (metis dvd_triv_right)
  ultimately have "b < ?g" "b < h" using assms(1) g(1) by (auto simp: not_less_eq_eq not_le)
  then have "Suc b * Suc b \<le> ?g * h" by (intro mult_le_mono) auto
  with h assms(2) show False by simp
qed

lemma coprime_dvd_one: "coprime q n \<Longrightarrow> q dvd n \<Longrightarrow> q = (1::nat)"
  by (metis coprime_iff_gcd_eq_1 gcd_nat.absorb1)

lemma lcg_order_factor:
  fixes q :: nat
  assumes "q dvd 2147483646" "q \<noteq> 1"
  shows "\<exists>p \<in> {2, 3, 7, 11, 31, 151, 331}. p dvd q"
proof (rule ccontr)
  assume no: "\<not> ?thesis"
  have "coprime q 2" by (rule coprime_small_prime [of 1]) (use no in auto)
  moreover have "coprime q 3" by (rule coprime_small_prime [of 1]) (use no in auto)
  moreover have "coprime q 7" by (rule coprime_small_prime [of 2]) (use no in \<open>auto simp: upt_rec\<close>)
  moreover have "coprime q 11" by (rule coprime_small_prime [of 3]) (use no in \<open>auto simp: upt_rec\<close>)
  moreover have "coprime q 31" by (rule coprime_small_prime [of 5]) (use no in \<open>auto simp: upt_rec\<close>)
  moreover have "coprime q 151" by (rule coprime_small_prime [of 12]) (use no in \<open>auto simp: upt_rec\<close>)
  moreover have "coprime q 331" by (rule coprime_small_prime [of 18]) (use no in \<open>auto simp: upt_rec\<close>)
  ultimately have "coprime q (2 * (3 * (3 * (7 * (11 * (31 * (151 * 331)))))))"
    by (simp only: coprime_mult_right_iff)
  moreover have "2 * (3 * (3 * (7 * (11 * (31 * (151 * 331)))))) = (2147483646::nat)" by simp
  ultimately have "coprime q 2147483646" by (simp only:)
  with assms show False using coprime_dvd_one by blast
qed

lemma lcg_order: "lcg_period k \<longleftrightarrow> 2147483646 dvd k"
proof -
  let ?N = "2147483646 :: nat"
  define d where "d = (LEAST d. 0 < d \<and> lcg_period d)"
  have ex: "0 < ?N \<and> lcg_period ?N" by (simp add: lcg_power_full)
  have d: "0 < d \<and> lcg_period d" unfolding d_def by (rule LeastI) (rule ex)
  have least: "\<not> lcg_period j" if "0 < j" "j < d" for j
    using not_less_Least [of j "\<lambda>d. 0 < d \<and> lcg_period d"] that unfolding d_def by blast
  have dN: "d dvd ?N" by (rule lcg_period_dvd) (use d least ex in auto)
  then obtain q where q: "?N = d * q" by (rule dvdE)
  have "q = 1"
  proof (rule ccontr)
    assume "q \<noteq> 1"
    moreover have "q dvd ?N" unfolding q by (rule dvd_triv_right)
    ultimately obtain p where p: "p \<in> {2, 3, 7, 11, 31, 151, 331}" "p dvd q"
      using lcg_order_factor by blast
    then obtain q' where "q = p * q'" by (auto elim: dvdE)
    then have "?N div p = d * q'" using q p(1) by auto
    then have "lcg_period (?N div p)" using d by (simp add: lcg_period_mult)
    then show False using p(1)
      by (auto simp: lcg_power_p2 lcg_power_p3 lcg_power_p7 lcg_power_p11 lcg_power_p31 lcg_power_p151 lcg_power_p331)
  qed
  then have "d = ?N" using q by simp
  then show ?thesis using lcg_period_dvd [of d k] d least lcg_period_mult [of d] by (auto elim: dvdE)
qed

lemma lcg_same_power:
  assumes "i \<le> j" "16807 ^ i mod 2147483647 = (16807 ^ j mod 2147483647 :: nat)" "j - i < 2147483646"
  shows "i = j"
proof -
  have "lcg_period (j - i)" using lcg_cancel [of i "j - i"] assms by simp
  then have "2147483646 dvd j - i" by (simp only: lcg_order)
  then show ?thesis using assms(1,3) by (auto dest: dvd_imp_le)
qed

lemma lcg_orbit_of_injection:
  fixes f :: "nat \<Rightarrow> nat"
  assumes "inj_on f {..<2147483646}" "\<And>j. 0 < f j \<and> f j < 2147483647"
  shows "f ` {..<2147483646} = {1..<2147483647}"
proof (rule card_subset_eq)
  show "f ` {..<2147483646} \<subseteq> {1..<2147483647}" using assms(2) by (auto simp: Suc_le_eq)
  show "card (f ` {..<2147483646}) = card {1..<2147483647 :: nat}"
    using card_image [OF assms(1)] by simp
qed simp

lemma inj_on_le:
  fixes f :: "nat \<Rightarrow> 'a"
  assumes "\<And>i j. i \<le> j \<Longrightarrow> j < n \<Longrightarrow> f i = f j \<Longrightarrow> i = j"
  shows "inj_on f {..<n}"
  using assms by (intro inj_onI) (metis lessThan_iff linorder_linear)

lemma lcg_primitive: "(\<lambda>j. 16807 ^ j mod 2147483647) ` {..<2147483646} = {1..<2147483647 :: nat}"
proof (rule lcg_orbit_of_injection)
  show "inj_on (\<lambda>j. 16807 ^ j mod 2147483647 :: nat) {..<2147483646}"
    by (rule inj_on_le) (use lcg_same_power in auto)
next
  fix j
  have "\<not> 2147483647 dvd (16807::nat) ^ j"
  proof
    assume "2147483647 dvd (16807::nat) ^ j"
    then have "is_unit (2147483647::nat)" by (rule coprime_common_divisor [OF coprime_lcg _ dvd_refl])
    then show False by simp
  qed
  then show "0 < (16807::nat) ^ j mod 2147483647 \<and> (16807::nat) ^ j mod 2147483647 < 2147483647"
    by (simp add: mod_greater_zero_iff_not_dvd)
qed

text \<open>A valid state is a power of the multiplier.\<close>

lemma lcg_log:
  fixes s :: nat
  assumes "0 < s" "s < 2147483647"
  obtains t where "s = 16807 ^ t mod 2147483647"
proof -
  have "s \<in> {1..<2147483647}" using assms by simp
  then show ?thesis unfolding lcg_primitive [symmetric] using that by blast
qed

lemma lcg_shift: "(16807 ^ t mod 2147483647) * 16807 ^ k mod 2147483647 = (16807 ^ (t + k) mod 2147483647 :: nat)"
  by (simp add: mod_mult_left_eq power_add)

abbreviation random_step :: "random \<Rightarrow> random" where
  "random_step r \<equiv> snd (random_next r)"

text \<open>The seeds of one period are the numbers from 1 to \<open>2 ^ 31 - 2\<close>, each once.\<close>

lemma random_orbit:
  assumes "random_ok rnd"
  shows "bij_betw (\<lambda>j. unat (rnd_seed ((random_step ^^ j) rnd))) {..<2147483646} {1..2147483646}"
    and "(random_step ^^ k) rnd = rnd \<longleftrightarrow> lcg_period k"
proof -
  let ?f = "\<lambda>j. unat (rnd_seed ((random_step ^^ j) rnd))"
  let ?s = "unat (rnd_seed rnd)"
  have s: "0 < ?s" "?s < 2147483647" using assms by (auto simp: random_ok_def)
  then obtain t where t: "?s = 16807 ^ t mod 2147483647" by (rule lcg_log)
  have f: "?f j = 16807 ^ (t + j) mod 2147483647" for j
    using funpow_rnd_seed [OF assms, of j] lcg_shift [of t j] unfolding t [symmetric] by simp
  have "(random_step ^^ k) rnd = rnd \<longleftrightarrow> ?f k = ?s" by (auto simp: word_unat_eq_iff intro: random.equality)
  also have "\<dots> \<longleftrightarrow> lcg_period k" unfolding f by (subst t) (rule lcg_cancel)
  finally show "(random_step ^^ k) rnd = rnd \<longleftrightarrow> lcg_period k" .
  have inj: "inj_on ?f {..<2147483646}"
    unfolding f by (rule inj_on_le) (use lcg_same_power [of "t + _" "t + _"] in auto)
  moreover have "0 < ?f j \<and> ?f j < 2147483647" for j
    using funpow_rnd_seed [OF assms, of j] by (auto simp: random_ok_def)
  ultimately have "?f ` {..<2147483646} = {1..<2147483647}" by (rule lcg_orbit_of_injection)
  also have "{1..<2147483647} = {1..2147483646 :: nat}" by auto
  finally show "bij_betw ?f {..<2147483646} {1..2147483646}" using inj by (simp add: bij_betw_def)
qed

text \<open>How many numbers up to \<open>N\<close> have a given remainder.\<close>

lemma card_remainder:
  fixes N n v :: nat
  assumes "v < n"
  shows "N div n \<le> card {x \<in> {1..N}. x mod n = v}" "card {x \<in> {1..N}. x mod n = v} \<le> N div n + 1"
    and "v = 0 \<Longrightarrow> card {x \<in> {1..N}. x mod n = v} = N div n"
proof -
  have zero: "card {x \<in> {1..N}. x mod n = 0} = N div n"
  proof -
    have "{x \<in> {1..N}. x mod n = 0} = (\<lambda>k. k * n) ` {1..N div n}" (is "?A = ?B")
    proof
      show "?A \<subseteq> ?B"
      proof
        fix x assume x: "x \<in> ?A"
        then obtain k where "x = k * n" by (auto simp: mod_eq_0_iff_dvd elim: dvdE)
        then show "x \<in> ?B" using x assms by (auto simp: less_eq_div_iff_mult_less_eq Suc_le_eq)
      qed
      show "?B \<subseteq> ?A" using assms by (auto simp: less_eq_div_iff_mult_less_eq Suc_le_eq)
    qed
    then show ?thesis using assms by (simp add: card_image inj_on_def)
  qed
  show "v = 0 \<Longrightarrow> card {x \<in> {1..N}. x mod n = v} = N div n" using zero by simp
  have pos: "N div n \<le> card {x \<in> {1..N}. x mod n = v} \<and> card {x \<in> {1..N}. x mod n = v} \<le> N div n + 1" if v: "0 < v"
  proof -
    let ?K = "{k. k * n + v \<le> N}"
    have "{x \<in> {1..N}. x mod n = v} = (\<lambda>k. k * n + v) ` ?K" (is "?A = ?B")
    proof
      show "?A \<subseteq> ?B"
      proof
        fix x assume x: "x \<in> ?A"
        then have "x = x div n * n + v" using div_mult_mod_eq [of x n] by simp
        then show "x \<in> ?B" using x by (metis (no_types, lifting) atLeastAtMost_iff image_eqI mem_Collect_eq)
      qed
      show "?B \<subseteq> ?A" using v assms by auto
    qed
    moreover have "inj_on (\<lambda>k. k * n + v) ?K" using assms by (simp add: inj_on_def)
    ultimately have c: "card {x \<in> {1..N}. x mod n = v} = card ?K" by (simp add: card_image)
    have "?K \<subseteq> {..N div n}" using assms by (auto simp: less_eq_div_iff_mult_less_eq)
    then have "card ?K \<le> card {..N div n}" by (rule card_mono [rotated]) simp
    moreover have "{..<N div n} \<subseteq> ?K"
    proof
      fix k assume "k \<in> {..<N div n}"
      then have "Suc k * n \<le> N" using assms by (simp add: Suc_le_eq [symmetric] less_eq_div_iff_mult_less_eq del: mult_Suc)
      then show "k \<in> ?K" using assms by simp
    qed
    then have "card {..<N div n} \<le> card ?K"
      by (rule card_mono [rotated]) (use \<open>?K \<subseteq> {..N div n}\<close> in \<open>blast intro: finite_subset\<close>)
    ultimately show ?thesis unfolding c by simp
  qed
  show "N div n \<le> card {x \<in> {1..N}. x mod n = v}" "card {x \<in> {1..N}. x mod n = v} \<le> N div n + 1"
    using pos zero by (cases "v = 0"; simp)+
qed

text \<open>
  C33 (random.h \<open>Random::next\<close>). The step \<open>(product >> 31) + (product & M)\<close> with its final
  subtraction is multiplication by 16807 modulo \<open>2 ^ 31 - 1\<close>, as the comment says: from a
  seed in [1, M-1] no operation overflows, the new seed is that product and is again in
  [1, M-1], and it is also the value returned. The constructor starts in that range
  whatever its argument.
\<close>

theorem random_next_correct:
  "random_ok (Random_new s)
   \<and> (random_ok rnd \<longrightarrow>
       unat (fst (random_next rnd)) = 16807 * unat (rnd_seed rnd) mod (2 ^ 31 - 1)
       \<and> rnd_seed (snd (random_next rnd)) = fst (random_next rnd)
       \<and> random_ok (snd (random_next rnd)))"
  using random_next_step [of rnd] Random_new_ok by (simp add: mult.commute)

theorem random_next_correct_witness:
  "random_ok (Random_new 0xdeadbeef)
   \<and> unat (fst (random_next (Random_new 301))) = 16807 * 301 mod (2 ^ 31 - 1)"
proof -
  have "random_ok (Random_new 301)" by (rule Random_new_ok)
  moreover have "unat (rnd_seed (Random_new 301)) = 301" by (simp add: Random_new_def)
  ultimately show ?thesis
    using random_next_correct [of "0xdeadbeef" "Random_new 301"] by simp
qed

text \<open>
  C34 (random.h \<open>Random::next\<close>). The generator has full period: from any valid state the
  state returns after \<open>k\<close> steps exactly when \<open>k\<close> is a multiple of \<open>2 ^ 31 - 2\<close>, and within
  one period it takes every value of [1, \<open>2 ^ 31 - 2\<close>].
\<close>

theorem random_full_period:
  assumes "random_ok rnd"
  shows "(((\<lambda>r. snd (random_next r)) ^^ k) rnd = rnd \<longleftrightarrow> (2 ^ 31 - 2) dvd k)
    \<and> (\<lambda>j. unat (rnd_seed (((\<lambda>r. snd (random_next r)) ^^ j) rnd))) ` {..<2 ^ 31 - 2}
      = {1..2 ^ 31 - 2}"
proof -
  have "{1..2 ^ 31 - 2} = {1..2147483646 :: nat}" "{..<2 ^ 31 - 2} = {..<2147483646 :: nat}" by simp_all
  then show ?thesis using random_orbit(1) [OF assms] random_orbit(2) [OF assms, of k]
    by (simp add: lcg_order bij_betw_def)
qed

theorem random_full_period_witness:
  "((\<lambda>r. snd (random_next r)) ^^ (2 ^ 31 - 2)) (Random_new 1000) = Random_new 1000"
  by (rule iffD2 [OF conjunct1 [OF random_full_period [OF Random_new_ok]] dvd_refl])

lemma uniform_ok:
  assumes "random_ok rnd" "n \<noteq> 0"
  shows "\<exists>v rnd'. uniform rnd n = Some (v, rnd') \<and> v < n \<and> random_ok rnd'"
proof -
  have "unat v mod unat n < unat n" for v :: u32 using assms(2) by (simp add: unat_gt_0)
  then show ?thesis using random_next_step(3) [OF assms(1)] assms(2)
    by (simp add: uniform_def case_prod_beta Let_def word_less_nat_alt unat_mod_distrib)
qed

lemma oneIn_ok:
  assumes "random_ok rnd" "n \<noteq> 0"
  shows "\<exists>b rnd'. oneIn rnd n = Some (b, rnd') \<and> random_ok rnd'"
  using random_next_step(3) [OF assms(1)] assms(2)
  by (simp add: oneIn_def case_prod_beta Let_def)

text \<open>
  C36 (random.h \<open>uniform\<close>, \<open>oneIn\<close>, \<open>skewed\<close>). With a positive argument, \<open>uniform(n)\<close> returns a
  number below \<open>n\<close> and \<open>oneIn(n)\<close> returns; with \<open>max_log\<close> at most 31, \<open>skewed(max_log)\<close>
  shifts by less than the width of the type and returns a number below \<open>2 ^ max_log\<close>.
  Each leaves the generator in a valid state.
\<close>

theorem random_ranges:
  assumes "random_ok rnd" "n \<noteq> 0" "unat max_log \<le> 31"
  shows "(\<exists>v rnd'. uniform rnd n = Some (v, rnd') \<and> v < n \<and> random_ok rnd')
    \<and> (\<exists>b rnd'. oneIn rnd n = Some (b, rnd') \<and> random_ok rnd')
    \<and> (\<exists>v rnd'. skewed rnd max_log = Some (v, rnd') \<and> unat v < 2 ^ unat max_log \<and> random_ok rnd')"
proof (intro conjI)
  show "\<exists>v rnd'. uniform rnd n = Some (v, rnd') \<and> v < n \<and> random_ok rnd'"
    using assms(1,2) by (rule uniform_ok)
  show "\<exists>b rnd'. oneIn rnd n = Some (b, rnd') \<and> random_ok rnd'"
    using assms(1,2) by (rule oneIn_ok)
  have m1: "unat (max_log + 1) = unat max_log + 1" using assms(3) by (simp add: unat_word_ariths)
  then have "max_log + 1 \<noteq> 0" by auto
  then obtain b rnd1 where b: "uniform rnd (max_log + 1) = Some (b, rnd1)" "b < max_log + 1" "random_ok rnd1"
    using uniform_ok [OF assms(1)] by blast
  have ub: "unat b \<le> unat max_log" using b(2) m1 by (simp add: word_less_nat_alt)
  then have b32: "b < 32" using assms(3) by (simp add: word_less_nat_alt)
  have "(2::nat) ^ unat b < 2 ^ 32" using ub assms(3) by (intro power_strict_increasing) auto
  then have p: "unat (push_bit (unat b) 1 :: u32) = 2 ^ unat b"
    using unat_push_bit [of "unat b" "1::u32"] by simp
  then have "(push_bit (unat b) 1 :: u32) \<noteq> 0" by (metis power_eq_0_iff unat_0 zero_neq_numeral)
  then obtain v rnd2 where v: "uniform rnd1 (push_bit (unat b) 1) = Some (v, rnd2)"
    "v < push_bit (unat b) 1" "random_ok rnd2"
    using uniform_ok [OF b(3)] by blast
  have "unat v < 2 ^ unat b" using v(2) unfolding word_less_nat_alt p .
  also have "(2::nat) ^ unat b \<le> 2 ^ unat max_log" using ub by (intro power_increasing) auto
  finally show "\<exists>v rnd'. skewed rnd max_log = Some (v, rnd') \<and> unat v < 2 ^ unat max_log \<and> random_ok rnd'"
    using v(1,3) b(1) b32 by (simp add: skewed_def)
qed

theorem random_ranges_witness:
  "\<exists>v rnd'. skewed (Random_new 301) 18 = Some (v, rnd') \<and> unat v < 2 ^ 18"
  using random_ranges [OF Random_new_ok, of 4 18 301] by auto

text \<open>The value that the next step returns runs through one period as the seed does.\<close>

lemma random_values:
  assumes "random_ok rnd"
  shows "bij_betw (\<lambda>j. unat (fst (random_next ((random_step ^^ j) rnd)))) {..<2147483646} {1..2147483646}"
proof -
  have "fst (random_next ((random_step ^^ j) rnd)) = rnd_seed ((random_step ^^ j) (random_step rnd))" for j
    using random_next_step(2) [of "(random_step ^^ j) rnd"] funpow_rnd_seed [OF assms, of j]
      funpow_swap1 [of random_step j rnd] by simp
  then show ?thesis using random_orbit(1) [OF random_next_step(3) [OF assms]] by simp
qed

lemma bij_count:
  assumes "bij_betw f A B"
  shows "card {j \<in> A. P (f j)} = card {x \<in> B. P x}"
proof -
  have "{x \<in> B. P x} = f ` {j \<in> A. P (f j)}" using assms by (auto simp: bij_betw_def)
  moreover have "inj_on f {j \<in> A. P (f j)}" using assms by (auto simp: bij_betw_def inj_on_def)
  ultimately show ?thesis by (simp add: card_image)
qed

lemma random_count:
  assumes "random_ok rnd"
  shows "card {j. j < 2147483646 \<and> P (unat (fst (random_next ((random_step ^^ j) rnd))))} =
    card {x \<in> {1..2147483646}. P x}"
  using bij_count [OF random_values [OF assms], of P] by (simp only: lessThan_iff)

text \<open>
  C35 (random.h \<open>uniform\<close> and \<open>oneIn\<close>). The draws are as uniform as a generator with \<open>2 ^ 31 - 2\<close>
  states can make them: in one period, from any valid state, \<open>uniform(n)\<close> returns each number
  below \<open>n\<close> equally often up to one time, namely \<open>(2 ^ 31 - 2) div n\<close> times or once more, and
  \<open>oneIn(n)\<close> is true exactly \<open>(2 ^ 31 - 2) div n\<close> times. With \<open>n = 4\<close> this is the chance of one in
  four with which the skip list makes a node taller.
\<close>

theorem uniform_equidistributed:
  assumes "random_ok rnd" "v < n"
  shows "(let c = card {j. j < 2 ^ 31 - 2 \<and> map_option fst (uniform ((random_step ^^ j) rnd) n) = Some v}
      in (2 ^ 31 - 2) div unat n \<le> c \<and> c \<le> (2 ^ 31 - 2) div unat n + 1)
    \<and> card {j. j < 2 ^ 31 - 2 \<and> map_option fst (oneIn ((random_step ^^ j) rnd) n) = Some True} = (2 ^ 31 - 2) div unat n"
proof -
  have n: "n \<noteq> 0" "unat v < unat n" using assms(2) by (auto simp: word_less_nat_alt)
  have u: "map_option fst (uniform r n) = Some v \<longleftrightarrow> unat (fst (random_next r)) mod unat n = unat v" for r
    using n(1) by (simp add: uniform_def case_prod_beta Let_def word_unat_eq_iff unat_mod_distrib)
  have o: "map_option fst (oneIn r n) = Some True \<longleftrightarrow> unat (fst (random_next r)) mod unat n = 0" for r
    using n(1) by (simp add: oneIn_def case_prod_beta Let_def word_unat_eq_iff unat_mod_distrib)
  have N: "(2 ^ 31 - 2 :: nat) = 2147483646" by simp
  have z: "0 < unat n" using n(2) by simp
  show ?thesis unfolding N u o Let_def
    using random_count [OF assms(1), of "\<lambda>x. x mod unat n = unat v"] random_count [OF assms(1), of "\<lambda>x. x mod unat n = 0"]
      card_remainder(1,2) [OF n(2), of 2147483646] card_remainder(3) [OF z refl, of 2147483646] by simp
qed

theorem uniform_equidistributed_witness:
  "card {j. j < 2 ^ 31 - 2 \<and> map_option fst (oneIn ((random_step ^^ j) (Random_new 0xdeadbeef)) 4) = Some True} = 536870911"
  using uniform_equidistributed [OF Random_new_ok, of 0 4 "0xdeadbeef"] by (simp add: Let_def)

end
