(* ===== verification/KV_Hash.thy ===== *)
theory KV_Hash
  imports KV_Coding
begin

text \<open>
  The hash function of src/util/hash.cc. \<open>hash_bytes\<close> is the function of the bytes alone that
  \<open>Hash\<close> computes; the properties say that no byte outside the input is read, that the
  seed is never lost, and that inputs of one length that differ in one word cannot collide.
\<close>

unbundle bit_operations_syntax

section \<open>The function\<close>

function Hash_loop :: "block \<Rightarrow> nat \<Rightarrow> nat \<Rightarrow> u32 \<Rightarrow> (nat \<times> u32) option" where
  "Hash_loop mem data limit h =
     (if data + 4 \<le> limit then do {
        w \<leftarrow> DecodeFixed32 mem data;
        let h = (h + w) * 0xc6a4a793;
        Hash_loop mem (data + 4) limit (h XOR drop_bit 16 h) }
      else Some (data, h))"
  by pat_completeness auto
termination
  by (relation "measure (\<lambda>(mem, data, limit, h). limit - data)") auto

declare Hash_loop.simps [simp del]

text \<open>The \<open>switch\<close> on the bytes that are left, whose cases fall through.\<close>

definition Hash_tail :: "block \<Rightarrow> nat \<Rightarrow> nat \<Rightarrow> u32 \<Rightarrow> u32 option" where
  "Hash_tail mem data left h = do {
     h \<leftarrow> (if left = 3 then do {
             b \<leftarrow> load8 mem (data + 2);
             Some (h + push_bit 16 (ucast b)) } else Some h);
     h \<leftarrow> (if left = 3 \<or> left = 2 then do {
             b \<leftarrow> load8 mem (data + 1);
             Some (h + push_bit 8 (ucast b)) } else Some h);
     (if left = 3 \<or> left = 2 \<or> left = 1 then do {
        b \<leftarrow> load8 mem data;
        let h = (h + ucast b) * 0xc6a4a793;
        Some (h XOR drop_bit 24 h) } else Some h) }"

text \<open>
  \<open>n * m\<close> is a 64-bit product, since \<open>n\<close> is a \<open>size_t\<close>; the exclusive or is cut to 32 bits
  when it is stored in \<open>h\<close>.
\<close>

definition Hash :: "block \<Rightarrow> nat \<Rightarrow> nat \<Rightarrow> u32 \<Rightarrow> u32 option" where
  "Hash mem data n seed = do {
     let limit = data + n;
     let h = ucast (ucast seed XOR (word_of_nat n * 0xc6a4a793 :: u64));
     (data, h) \<leftarrow> Hash_loop mem data limit h;
     Hash_tail mem data (limit - data) h }"

section \<open>The function of the bytes\<close>

definition hash_round :: "u32 \<Rightarrow> u32 \<Rightarrow> u32" where
  "hash_round h w = (let h = (h + w) * 0xc6a4a793 in h XOR drop_bit 16 h)"

definition hash_last :: "u32 \<Rightarrow> u32 \<Rightarrow> u32" where
  "hash_last h w = (let h = (h + w) * 0xc6a4a793 in h XOR drop_bit 24 h)"

fun hash_bytes :: "byte list \<Rightarrow> u32 \<Rightarrow> u32" where
  "hash_bytes [] h = h"
| "hash_bytes (b0 # b1 # b2 # b3 # bs) h =
     hash_bytes bs (hash_round h (word_of_nat (le_value [b0, b1, b2, b3])))"
| "hash_bytes bs h = hash_last h (word_of_nat (le_value bs))"

definition hash_init :: "nat \<Rightarrow> u32 \<Rightarrow> u32" where
  "hash_init n seed = ucast (ucast seed XOR (word_of_nat n * 0xc6a4a793 :: u64))"

lemma DecodeFixed32_word:
  assumes "length bs = 4"
  shows "DecodeFixed32 (pre @ bs @ post) (length pre) = Some (word_of_nat (le_value bs))"
  using DecodeFixed32_append [OF assms, of pre post] by (metis of_nat_unat ucast_id)

lemma Hash_tail_bytes:
  assumes "length bs < 4"
  shows "Hash_tail (pre @ bs @ post) (length pre) (length bs) h = Some (hash_bytes bs h)"
proof -
  consider "bs = []" | b0 where "bs = [b0]" | b0 b1 where "bs = [b0, b1]" | b0 b1 b2 where "bs = [b0, b1, b2]"
    using assms by (cases bs; cases "tl bs"; cases "tl (tl bs)"; cases "tl (tl (tl bs))") auto
  then show ?thesis
    by cases (simp_all add: Hash_tail_def load8_def nth_append hash_last_def Let_def push_bit_eq_mult algebra_simps)
qed

lemma Hash_run_short:
  assumes "length bs < 4"
  shows "do { (data, h) \<leftarrow> Hash_loop (pre @ bs @ post) (length pre) (length pre + length bs) h;
    Hash_tail (pre @ bs @ post) data (length pre + length bs - data) h } = Some (hash_bytes bs h)"
  using Hash_tail_bytes [OF assms, of pre post h] assms by (simp add: Hash_loop.simps)

lemma Hash_run:
  "do { (data, h) \<leftarrow> Hash_loop (pre @ bs @ post) (length pre) (length pre + length bs) h;
        Hash_tail (pre @ bs @ post) data (length pre + length bs - data) h } = Some (hash_bytes bs h)"
proof (induction bs h arbitrary: pre rule: hash_bytes.induct)
  case (2 b0 b1 b2 b3 bs h)
  let ?w = "[b0, b1, b2, b3]"
  have m: "pre @ (b0 # b1 # b2 # b3 # bs) @ post = (pre @ ?w) @ bs @ post" by simp
  have d: "DecodeFixed32 ((pre @ ?w) @ bs @ post) (length pre) = Some (word_of_nat (le_value ?w))"
    using DecodeFixed32_word [of ?w pre "bs @ post"] by simp
  have p4: "length pre + 4 = Suc (Suc (Suc (Suc (length pre))))" by simp
  show ?case
    using 2 [of "pre @ ?w"] d unfolding m
    by (subst Hash_loop.simps) (simp add: hash_round_def Let_def p4 del: le_value.simps append_assoc)
qed (rule Hash_run_short, simp)+

lemma Hash_bytes:
  assumes "data + n \<le> length mem"
  shows "Hash mem data n seed = Some (hash_bytes (take n (drop data mem)) (hash_init n seed))"
proof -
  obtain pre bs post where m: "mem = pre @ bs @ post" "length pre = data" "length bs = n"
    using assms by (rule split_block)
  then have "take n (drop data mem) = bs" by auto
  then show ?thesis using Hash_run [of pre bs post "hash_init n seed"] m
    by (simp add: Hash_def hash_init_def)
qed

section \<open>The rounds lose nothing\<close>

lemma xor_shift_involution:
  fixes h :: u32
  assumes "32 \<le> 2 * k"
  shows "(h XOR drop_bit k h) XOR drop_bit k (h XOR drop_bit k h) = h"
proof (rule bit_word_eqI)
  fix n assume "n < LENGTH(32)"
  then have "\<not> bit h (k + (k + n))" using assms by (intro notI) (drule bit_imp_le_length, simp)
  then show "bit ((h XOR drop_bit k h) XOR drop_bit k (h XOR drop_bit k h)) n \<longleftrightarrow> bit h n"
    by (auto simp: bit_simps simp del: drop_bit_xor)
qed

lemma xor_shift_inj: "32 \<le> 2 * k \<Longrightarrow> x XOR drop_bit k x = y XOR drop_bit k y \<Longrightarrow> x = (y::u32)"
  by (metis xor_shift_involution)

lemma mult_m_inj:
  assumes "(x::u32) * 0xc6a4a793 = y * 0xc6a4a793"
  shows "x = y"
proof -
  have one: "(0xc6a4a793 :: u32) * 0xd8198e9b = 1" by simp
  have "x * (0xc6a4a793 * 0xd8198e9b) = y * (0xc6a4a793 * 0xd8198e9b)"
    unfolding mult.assoc [symmetric] assms ..
  then show "x = y" unfolding one by simp
qed

lemma hash_round_inj:
  assumes "hash_round h w = hash_round h' w'"
  shows "h + w = h' + w'"
proof (rule mult_m_inj)
  show "(h + w) * 0xc6a4a793 = (h' + w') * 0xc6a4a793"
    by (rule xor_shift_inj [of 16]) (simp, use assms in \<open>simp only: hash_round_def Let_def\<close>)
qed

lemma hash_last_inj:
  assumes "hash_last h w = hash_last h' w'"
  shows "h + w = h' + w'"
proof (rule mult_m_inj)
  show "(h + w) * 0xc6a4a793 = (h' + w') * 0xc6a4a793"
    by (rule xor_shift_inj [of 24]) (simp, use assms in \<open>simp only: hash_last_def Let_def\<close>)
qed

lemma hash_round_seed_inj: "hash_round h w = hash_round h' w \<Longrightarrow> h = h'"
  by (drule hash_round_inj) simp

lemma hash_last_seed_inj: "hash_last h w = hash_last h' w \<Longrightarrow> h = h'"
  by (drule hash_last_inj) simp

lemma hash_bytes_seed_inj: "hash_bytes bs h = hash_bytes bs h' \<Longrightarrow> h = h'"
proof (induction bs h arbitrary: h' rule: hash_bytes.induct)
  case (2 b0 b1 b2 b3 bs h)
  let ?w = "word_of_nat (le_value [b0, b1, b2, b3])"
  have "hash_round h ?w = hash_round h' ?w"
    by (rule "2.IH") (use "2.prems" in \<open>simp only: hash_bytes.simps\<close>)
  then show ?case by (rule hash_round_seed_inj)
qed (simp_all only: hash_bytes.simps hash_last_seed_inj)

lemma hash_init_inj: "hash_init n s = hash_init n s' \<Longrightarrow> s = s'"
proof (rule bit_word_eqI)
  fix i assume e: "hash_init n s = hash_init n s'" and i: "i < LENGTH(32)"
  have "bit (hash_init n s) i = bit (hash_init n s') i" by (simp add: e)
  then show "bit s i = bit s' i" using i by (auto simp: hash_init_def bit_simps)
qed

lemma hash_bytes_append:
  "length xs mod 4 = 0 \<Longrightarrow> hash_bytes (xs @ ys) h = hash_bytes ys (hash_bytes xs h)"
  by (induction xs h rule: hash_bytes.induct) (auto simp del: le_value.simps)

lemma le_value_inj: "length xs = length ys \<Longrightarrow> le_value xs = le_value ys \<Longrightarrow> xs = ys"
  by (metis le_bytes_value)

lemma word_le_value_inj:
  assumes "length xs = length ys" "length xs \<le> 4" "(word_of_nat (le_value xs) :: u32) = word_of_nat (le_value ys)"
  shows "xs = ys"
proof -
  have "le_value bs < 2 ^ 32" if "length bs \<le> 4" for bs
  proof -
    have "le_value bs < 256 ^ length bs" by (rule le_value_less)
    also have "(256::nat) ^ length bs \<le> 256 ^ 4" using that by (intro power_increasing) auto
    finally show ?thesis by simp
  qed
  then have lt: "le_value xs < 2 ^ LENGTH(32)" "le_value ys < 2 ^ LENGTH(32)"
    using assms(1,2) by simp_all
  have "unat (word_of_nat (le_value xs) :: u32) = unat (word_of_nat (le_value ys) :: u32)"
    using assms(3) by (rule arg_cong)
  then have "le_value xs = le_value ys" unfolding unat_of_nat using lt by (simp only: mod_less)
  with assms(1) show ?thesis by (rule le_value_inj)
qed

text \<open>Two runs of at most four bytes after equal states.\<close>

lemma hash_bytes_last_group:
  assumes "length x = length y" "length x \<le> 4" "x \<noteq> y"
  shows "hash_bytes x h \<noteq> hash_bytes y h"
proof
  assume eq: "hash_bytes x h = hash_bytes y h"
  have "h + word_of_nat (le_value x) = h + (word_of_nat (le_value y) :: u32)"
  proof (cases "length x = 4")
    case True
    then obtain a b c d a' b' c' d' where xy: "x = [a, b, c, d]" "y = [a', b', c', d']"
      using assms(1) by (auto simp: numeral_eq_Suc length_Suc_conv)
    show ?thesis unfolding xy by (rule hash_round_inj) (use eq in \<open>simp add: xy\<close>)
  next
    case False
    then consider "x = []" "y = []" | a a' where "x = [a]" "y = [a']"
      | a b a' b' where "x = [a, b]" "y = [a', b']"
      | a b c a' b' c' where "x = [a, b, c]" "y = [a', b', c']"
      using assms(1,2)
      by (cases x; cases y; cases "tl x"; cases "tl y"; cases "tl (tl x)"; cases "tl (tl y)";
          cases "tl (tl (tl x))"; cases "tl (tl (tl y))") auto
    then show ?thesis using eq by cases (auto dest!: hash_last_inj simp del: le_value.simps)
  qed
  then have "(word_of_nat (le_value x) :: u32) = word_of_nat (le_value y)" by simp
  with assms show False using word_le_value_inj by blast
qed

text \<open>Known values of the hash, by evaluation of the model.\<close>

lemma Hash_known_values:
  "Hash [] 0 0 0xbc9f1d34 = Some 0xbc9f1d34"
  "Hash [0x62] 0 1 0xbc9f1d34 = Some 0xef1345c4"
  "Hash [0xe2, 0x99, 0xa5] 0 3 0xbc9f1d34 = Some 0x323c078f"
  "Hash [0xe1, 0x80, 0xb9, 0x32] 0 4 0xbc9f1d34 = Some 0xed21633a"
  by code_simp+

section \<open>Properties\<close>

text \<open>
  C37 (hash.cc \<open>Hash\<close>). On any \<open>n\<close> bytes inside a buffer the function returns, reads none of
  the buffer's other bytes, and computes the function \<open>hash_bytes\<close> of those bytes: one
  round per little-endian word of four bytes, then one round for the one to three that
  are left. Four known values of the hash come out of the model.
\<close>

theorem Hash_reads_input_only:
  "(data + n \<le> length mem \<longrightarrow>
      Hash mem data n seed = Some (hash_bytes (take n (drop data mem)) (hash_init n seed)))
    \<and> Hash [] 0 0 0xbc9f1d34 = Some 0xbc9f1d34
    \<and> Hash [0x62] 0 1 0xbc9f1d34 = Some 0xef1345c4
    \<and> Hash [0xe2, 0x99, 0xa5] 0 3 0xbc9f1d34 = Some 0x323c078f
    \<and> Hash [0xe1, 0x80, 0xb9, 0x32] 0 4 0xbc9f1d34 = Some 0xed21633a"
  by (intro conjI impI Hash_bytes Hash_known_values)

theorem Hash_reads_input_only_witness:
  "Hash [7, 0x62, 9] 1 1 0xbc9f1d34 = Some (hash_bytes [0x62] (hash_init 1 0xbc9f1d34))"
  using Hash_reads_input_only [of 1 1 "[7, 0x62, 9]" "0xbc9f1d34"] by simp

text \<open>
  (hash.cc \<open>Hash\<close>). The seed is never lost: on the same input two different seeds give two
  different hash values, so for each input the function is a permutation of the seeds.
\<close>

theorem Hash_injective_in_seed:
  assumes "data + n \<le> length mem"
  shows "Hash mem data n s = Hash mem data n s' \<longleftrightarrow> s = s'"
proof
  assume "Hash mem data n s = Hash mem data n s'"
  then have "hash_bytes (take n (drop data mem)) (hash_init n s) =
      hash_bytes (take n (drop data mem)) (hash_init n s')"
    unfolding Hash_bytes [OF assms] by (rule option.inject [THEN iffD1])
  then show "s = s'" by (rule hash_init_inj [OF hash_bytes_seed_inj])
qed simp

theorem Hash_injective_in_seed_witness: "Hash [1, 2, 3, 4, 5] 0 5 0 \<noteq> Hash [1, 2, 3, 4, 5] 0 5 1"
  using Hash_injective_in_seed [of 0 5 "[1, 2, 3, 4, 5]" 0 1] by simp

text \<open>
  (hash.cc \<open>Hash\<close>). Two inputs of the same length that differ inside one aligned group of
  at most four bytes, and agree before and after it, never have the same hash, whatever
  the seed; in particular inputs of the same length below five bytes never collide.
\<close>

theorem Hash_no_collision_one_word:
  assumes "length pre mod 4 = 0" "length x = length y" "length x = 4 \<or> length x < 4 \<and> post = []" "x \<noteq> y"
  shows "Hash (pre @ x @ post) 0 (length (pre @ x @ post)) seed
    \<noteq> Hash (pre @ y @ post) 0 (length (pre @ y @ post)) seed"
proof -
  let ?n = "length (pre @ x @ post)" and ?h = "hash_bytes pre (hash_init (length (pre @ x @ post)) seed)"
  have n: "length (pre @ y @ post) = ?n" using assms(2) by simp
  have ne: "hash_bytes x ?h \<noteq> hash_bytes y ?h"
    using assms by (intro hash_bytes_last_group) auto
  have app: "hash_bytes (pre @ z @ post) (hash_init ?n seed) = hash_bytes post (hash_bytes z ?h)"
    if "length z = length x" for z
    using assms(1,3) that by (cases "post = []") (auto simp: hash_bytes_append)
  show ?thesis unfolding n using ne app [of x] app [of y] assms(2) hash_bytes_seed_inj
    by (auto simp: Hash_bytes)
qed

theorem Hash_no_collision_one_word_witness:
  "Hash ([1, 2, 3, 4] @ [5, 6, 7, 8] @ [9]) 0 (length ([1, 2, 3, 4] @ [5, 6, 7, 8] @ [9 :: byte])) 42
    \<noteq> Hash ([1, 2, 3, 4] @ [5, 6, 0, 8] @ [9]) 0 (length ([1, 2, 3, 4] @ [5, 6, 0, 8] @ [9 :: byte])) 42"
  by (rule Hash_no_collision_one_word) simp_all

end
