(* ===== verification/KV_Comparator.thy ===== *)
theory KV_Comparator
  imports KV_Coding
begin

text \<open>
  The interface \<open>Comparator\<close> of src/include/comparator.h and its default implementation, the
  class \<open>BytewiseComparatorImpl\<close> of src/util/comparator.cc. The interface is a record of its
  virtual functions; what its callers rely on is the locale \<open>comparator_contract\<close>, proved of
  the byte-wise comparator at the end of the theory.
\<close>

unbundle bit_operations_syntax

section \<open>The interface\<close>

text \<open>
  A key given as \<open>const Slice&\<close> is a slice, a key given as \<open>std::string*\<close> to be changed in
  place is a byte list that is returned changed. \<open>None\<close> is a call that aborts.
\<close>

record comparator =
  cmp_name :: string
  cmp_compare :: "slice \<Rightarrow> slice \<Rightarrow> int option"
  cmp_findShortestSeparator :: "byte list \<Rightarrow> slice \<Rightarrow> byte list option"
  cmp_findShortSuccessor :: "byte list \<Rightarrow> byte list option"

section \<open>The byte-wise comparator\<close>

definition bytewise_compare :: "slice \<Rightarrow> slice \<Rightarrow> int option" where
  "bytewise_compare a b = slice_compare a b"

text \<open>\<open>std::string::resize\<close>, which fills with zero bytes when it grows the string.\<close>

definition resize :: "byte list \<Rightarrow> nat \<Rightarrow> byte list" where
  "resize s n = take n s @ replicate (n - length s) 0"

function diff_index_loop :: "byte list \<Rightarrow> slice \<Rightarrow> nat \<Rightarrow> nat \<Rightarrow> nat option" where
  "diff_index_loop start limit min_length diff_index =
     (if diff_index < min_length then do {
        s \<leftarrow> load8 start diff_index;
        l \<leftarrow> slice_at limit diff_index;
        (if s = l then diff_index_loop start limit min_length (diff_index + 1)
         else Some diff_index) }
      else Some diff_index)"
  by pat_completeness auto
termination
  by (relation "measure (\<lambda>(start, limit, min_length, diff_index). min_length - diff_index)") auto

declare diff_index_loop.simps [simp del]

definition bytewise_findShortestSeparator :: "byte list \<Rightarrow> slice \<Rightarrow> byte list option" where
  "bytewise_findShortestSeparator start limit = do {
     let min_length = min (length start) (sl_size limit);
     diff_index \<leftarrow> diff_index_loop start limit min_length 0;
     (if diff_index \<ge> min_length then Some start
      else do {
        diff_byte \<leftarrow> load8 start diff_index;
        limit_byte \<leftarrow> slice_at limit diff_index;
        (if diff_byte < 0xff \<and> unat diff_byte + 1 < unat limit_byte then do {
           start \<leftarrow> store8 start diff_index (diff_byte + 1);
           let start = resize start (diff_index + 1);
           r \<leftarrow> bytewise_compare (Slice_string start) limit;
           _ \<leftarrow> cassert (r < 0);
           Some start }
         else Some start) }) }"

function short_successor_loop :: "byte list \<Rightarrow> nat \<Rightarrow> nat \<Rightarrow> byte list option" where
  "short_successor_loop key n i =
     (if i < n then do {
        byte \<leftarrow> load8 key i;
        (if byte \<noteq> 0xff then do {
           key \<leftarrow> store8 key i (byte + 1);
           Some (resize key (i + 1)) }
         else short_successor_loop key n (i + 1)) }
      else Some key)"
  by pat_completeness auto
termination
  by (relation "measure (\<lambda>(key, n, i). n - i)") auto

declare short_successor_loop.simps [simp del]

definition bytewise_findShortSuccessor :: "byte list \<Rightarrow> byte list option" where
  "bytewise_findShortSuccessor key = short_successor_loop key (length key) 0"

definition BytewiseComparator :: comparator where
  "BytewiseComparator = \<lparr>
     cmp_name = ''leveldb.BytewiseComparator'',
     cmp_compare = bytewise_compare,
     cmp_findShortestSeparator = bytewise_findShortestSeparator,
     cmp_findShortSuccessor = bytewise_findShortSuccessor\<rparr>"

section \<open>What the callers of a comparator rely on\<close>

text \<open>
  \<open>dom\<close> is the set of keys the comparator is made for and \<open>ord\<close> the comparison of two keys
  as byte strings; it is a total preorder. A separator of \<open>start < limit\<close> lies in
  [\<open>start\<close>, \<open>limit\<close>), of any other pair it is \<open>start\<close> itself; a successor is not below its
  key. Neither is longer than the key it replaces. None of the calls aborts.
\<close>

locale comparator_contract =
  fixes C :: comparator
    and dom :: "byte list \<Rightarrow> bool"
    and ord :: "byte list \<Rightarrow> byte list \<Rightarrow> int"
  assumes compare_ord: "slice_ok a \<Longrightarrow> slice_ok b \<Longrightarrow> dom (sl_bytes a) \<Longrightarrow> dom (sl_bytes b) \<Longrightarrow>
      cmp_compare C a b = Some (ord (sl_bytes a) (sl_bytes b))"
    and ord_antisym: "dom x \<Longrightarrow> dom y \<Longrightarrow> sgn (ord y x) = - sgn (ord x y)"
    and ord_trans: "dom x \<Longrightarrow> dom y \<Longrightarrow> dom z \<Longrightarrow> ord x y \<le> 0 \<Longrightarrow> ord y z \<le> 0 \<Longrightarrow> ord x z \<le> 0"
    and separator: "slice_ok l \<Longrightarrow> dom s \<Longrightarrow> dom (sl_bytes l) \<Longrightarrow>
      \<exists>r. cmp_findShortestSeparator C s l = Some r \<and> dom r \<and> length r \<le> length s
        \<and> (if ord s (sl_bytes l) < 0 then ord s r \<le> 0 \<and> ord r (sl_bytes l) < 0 else r = s)"
    and successor: "dom k \<Longrightarrow>
      \<exists>r. cmp_findShortSuccessor C k = Some r \<and> dom r \<and> length r \<le> length k \<and> ord k r \<le> 0"
begin

lemma ord_refl [simp]: "dom x \<Longrightarrow> ord x x = 0"
  using ord_antisym [of x x] by (simp add: sgn_if split: if_splits)

lemma ord_flip: "dom x \<Longrightarrow> dom y \<Longrightarrow> ord y x < 0 \<longleftrightarrow> 0 < ord x y"
  using ord_antisym [of x y] by (simp add: sgn_if split: if_splits)

lemma ord_zero_sym: "dom x \<Longrightarrow> dom y \<Longrightarrow> ord y x = 0 \<longleftrightarrow> ord x y = 0"
  using ord_antisym [of x y] by (simp add: sgn_if split: if_splits)

lemma ord_le_less_trans:
  assumes "dom x" "dom y" "dom z" "ord x y \<le> 0" "ord y z < 0"
  shows "ord x z < 0"
proof (rule ccontr)
  assume "\<not> ord x z < 0"
  then have "ord z x \<le> 0" using ord_flip [of z x] assms(1,3) by linarith
  then have "ord z y \<le> 0" using ord_trans assms by blast
  moreover have "0 < ord z y" using ord_flip [of z y] assms by simp
  ultimately show False by simp
qed

lemma ord_less_le_trans:
  assumes "dom x" "dom y" "dom z" "ord x y < 0" "ord y z \<le> 0"
  shows "ord x z < 0"
proof (rule ccontr)
  assume "\<not> ord x z < 0"
  then have "ord z x \<le> 0" using ord_flip [of z x] assms(1,3) by linarith
  then have "ord y x \<le> 0" using ord_trans assms by blast
  moreover have "0 < ord y x" using ord_flip [of y x] assms by simp
  ultimately show False by simp
qed

lemma ord_equal_trans:
  assumes "dom x" "dom y" "dom z" "ord x y = 0" "ord y z = 0"
  shows "ord x z = 0"
proof -
  have "ord x z \<le> 0" using ord_trans [of x y z] assms by simp
  moreover have "ord z y = 0" "ord y x = 0"
    using ord_zero_sym [of y z] ord_zero_sym [of x y] assms by simp_all
  then have "ord z x \<le> 0" using ord_trans [of z y x] assms by simp
  ultimately show ?thesis using ord_flip [of z x] assms(1,3) by linarith
qed

text \<open>
  What an index built on separators needs: the separator of the last key of one block and
  the first key of the next is not below any key of the first block and below every key
  of the second.
\<close>

lemma separator_splits:
  assumes "slice_ok l" "dom s" "dom (sl_bytes l)" "ord s (sl_bytes l) < 0"
    and "\<And>x. x \<in> A \<Longrightarrow> dom x \<and> ord x s \<le> 0" "\<And>y. y \<in> B \<Longrightarrow> dom y \<and> ord (sl_bytes l) y \<le> 0"
  shows "\<exists>r. cmp_findShortestSeparator C s l = Some r
    \<and> (\<forall>x \<in> A. ord x r \<le> 0) \<and> (\<forall>y \<in> B. ord r y < 0)"
proof -
  obtain r where r: "cmp_findShortestSeparator C s l = Some r" "dom r" "ord s r \<le> 0" "ord r (sl_bytes l) < 0"
    using separator [OF assms(1-3)] assms(4) by auto
  then show ?thesis
    using assms ord_trans [of _ s r] ord_less_le_trans [of r "sl_bytes l"] by blast
qed

end

section \<open>The byte-wise comparator keeps the contract\<close>

lemma diff_index_loop_ok:
  assumes "slice_ok l" "n = min (length s) (sl_size l)" "i \<le> n" "take i s = take i (sl_bytes l)"
  shows "\<exists>d. diff_index_loop s l n i = Some d \<and> d \<le> n \<and> take d s = take d (sl_bytes l)
    \<and> (d < n \<longrightarrow> s ! d \<noteq> sl_bytes l ! d)"
  using assms
proof (induction s l n i rule: diff_index_loop.induct)
  case (1 s l n i)
  show ?case
  proof (cases "i < n")
    case True
    then have i: "i < length s" "i < sl_size l" "i < length (sl_bytes l)"
      using "1.prems" by simp_all
    show ?thesis
    proof (cases "s ! i = sl_bytes l ! i")
      case eq: True
      have "take (i + 1) s = take (i + 1) (sl_bytes l)"
        using "1.prems"(4) eq i by (simp add: take_Suc_conv_app_nth)
      moreover have "load8 s i = Some (s ! i)" "slice_at l i = Some (sl_bytes l ! i)"
        using i "1.prems"(1) by (simp_all add: load8_in slice_at_ok)
      moreover from this eq have "diff_index_loop s l n i = diff_index_loop s l n (i + 1)"
        using True by (simp add: diff_index_loop.simps [of s l n i])
      ultimately show ?thesis using "1.IH" [OF True _ _ eq] "1.prems"(1,2) True eq by simp
    next
      case False
      have "load8 s i = Some (s ! i)" "slice_at l i = Some (sl_bytes l ! i)"
        using i "1.prems"(1) by (simp_all add: load8_in slice_at_ok)
      then show ?thesis using False "1.prems"(3,4) True
        by (simp add: diff_index_loop.simps [of s l n i] load8_in slice_at_ok)
    qed
  next
    case False
    then have "diff_index_loop s l n i = Some i" by (simp add: diff_index_loop.simps [of s l n i])
    then show ?thesis using "1.prems"(3,4) False by auto
  qed
qed

lemma lex_cmp_refl [simp]: "lex_cmp x x = 0"
  by (subst lex_cmp_eq_0) simp

lemma lex_cmp_append: "lex_cmp (xs @ ys) (xs @ zs) = lex_cmp ys zs"
  by (induction xs) auto

lemma lex_cmp_first_diff:
  assumes "take d s = take d t" "d < length s" "d < length t"
  shows "s ! d < t ! d \<Longrightarrow> lex_cmp s t < 0" and "t ! d < s ! d \<Longrightarrow> 0 < lex_cmp s t"
proof -
  have s: "s = take d s @ s ! d # drop (Suc d) s" using assms(2) by (rule id_take_nth_drop)
  have t: "t = take d s @ t ! d # drop (Suc d) t"
    unfolding assms(1) using assms(3) by (rule id_take_nth_drop)
  have eq: "lex_cmp s t = lex_cmp (s ! d # drop (Suc d) s) (t ! d # drop (Suc d) t)"
    using lex_cmp_append [of "take d s" "s ! d # drop (Suc d) s" "t ! d # drop (Suc d) t"]
    by (simp only: s [symmetric] t [symmetric])
  show "s ! d < t ! d \<Longrightarrow> lex_cmp s t < 0" unfolding eq by simp
  show "t ! d < s ! d \<Longrightarrow> 0 < lex_cmp s t" unfolding eq by auto
qed

lemma lex_cmp_bump:
  assumes "d < length s" "s ! d < b"
  shows "lex_cmp s (take d s @ [b]) < 0"
  by (rule lex_cmp_first_diff(1) [of d]) (use assms in \<open>auto simp: nth_append\<close>)

lemma byte_succ:
  assumes "(b::byte) \<noteq> 0xff"
  shows "unat (b + 1) = unat b + 1" "b < b + 1"
proof -
  have "unat b < 255" using assms unat_lt_256 [of b] by (auto simp: word_unat_eq_iff)
  then show "unat (b + 1) = unat b + 1" by (simp add: unat_word_ariths)
  then show "b < b + 1" by (simp add: word_less_nat_alt)
qed

lemma store_resize:
  "d < length s \<Longrightarrow> store8 s d b = Some (s[d := b]) \<and> resize (s[d := b]) (d + 1) = take d s @ [b]"
  by (simp add: store8_def resize_def take_Suc_conv_app_nth)

text \<open>What makes a key worth shortening at \<open>d\<close>: up to there it is the limit, and there is a byte
  between the two.\<close>

definition shortens_at :: "byte list \<Rightarrow> byte list \<Rightarrow> nat \<Rightarrow> bool" where
  "shortens_at s t d \<longleftrightarrow> d < length s \<and> d < length t \<and> take d s = take d t \<and> unat (s ! d) + 1 < unat (t ! d)"

lemma shortens_at_first_diff:
  assumes "shortens_at s t e" "d < length s" "d < length t" "take d s = take d t" "s ! d \<noteq> t ! d"
  shows "e = d"
proof (rule ccontr)
  have "s ! i = t ! i" if "take n s = take n t" "i < n" for i n
    using that by (metis nth_take)
  moreover assume "e \<noteq> d"
  ultimately show False using assms by (auto simp: shortens_at_def neq_iff)
qed

lemma bytewise_separator:
  assumes "slice_ok l"
  shows "\<exists>r. bytewise_findShortestSeparator s l = Some r \<and> length r \<le> length s
    \<and> (if lex_cmp s (sl_bytes l) < 0 then lex_cmp s r \<le> 0 \<and> lex_cmp r (sl_bytes l) < 0 else r = s)
    \<and> (\<forall>d. shortens_at s (sl_bytes l) d \<longrightarrow> r = take d s @ [s ! d + 1])
    \<and> ((\<nexists>d. shortens_at s (sl_bytes l) d) \<longrightarrow> r = s)"
proof -
  let ?n = "min (length s) (sl_size l)" and ?t = "sl_bytes l"
  have len: "length ?t = sl_size l" using assms by simp
  obtain d where d: "diff_index_loop s l ?n 0 = Some d" "d \<le> ?n" "take d s = take d ?t"
    "d < ?n \<longrightarrow> s ! d \<noteq> ?t ! d"
    using diff_index_loop_ok [OF assms, of ?n s 0] by auto
  show ?thesis
  proof (cases "d < ?n \<and> s ! d < 0xff \<and> unat (s ! d) + 1 < unat (?t ! d)")
    case False
    then have "bytewise_findShortestSeparator s l = Some s" using d assms
      by (auto simp: bytewise_findShortestSeparator_def load8_in slice_at_ok not_less)
    moreover have "\<not> shortens_at s ?t e" for e
    proof
      assume e: "shortens_at s ?t e"
      have "d < ?n"
      proof (rule ccontr)
        assume "\<not> d < ?n"
        then have "e < d" using e d(2) len unfolding shortens_at_def by linarith
        then have "s ! e = ?t ! e" using d(3) by (metis nth_take)
        then show False using e by (simp add: shortens_at_def)
      qed
      then have "e = d" using shortens_at_first_diff [OF e _ _ d(3)] d(4) len by simp
      then have "unat (s ! d) + 1 < unat (?t ! d)" using e by (simp add: shortens_at_def)
      moreover from this have "s ! d < 0xff" using unat_lt_256 [of "?t ! d"] by (simp add: word_less_nat_alt)
      ultimately show False using False \<open>d < ?n\<close> by simp
    qed
    ultimately show ?thesis by simp
  next
    case True
    let ?r = "take d s @ [s ! d + 1]"
    have ds: "d < length s" "d < length ?t" using True len by auto
    have "s ! d \<noteq> 0xff" using True by auto
    note succ = byte_succ [OF this]
    have b: "s ! d < s ! d + 1" "s ! d + 1 < ?t ! d"
      using True succ by (simp_all add: word_less_nat_alt)
    have sr: "lex_cmp s ?r < 0" using ds b by (intro lex_cmp_bump) auto
    have rt: "lex_cmp ?r ?t < 0"
      by (rule lex_cmp_first_diff(1) [of d]) (use ds b d(3) in \<open>auto simp: nth_append\<close>)
    have cmp: "bytewise_compare (Slice_string ?r) l = Some (lex_cmp ?r ?t)"
      by (simp add: bytewise_compare_def slice_compare_lex [OF _ assms])
    have "bytewise_findShortestSeparator s l = Some ?r" using d True ds assms rt cmp store_resize [of d s]
      by (simp add: bytewise_findShortestSeparator_def load8_in slice_at_ok Let_def min_le_iff_disj)
    moreover have "length ?r \<le> length s" "lex_cmp s ?t < 0" "lex_cmp s ?r \<le> 0"
      using ds sr lex_cmp_trans [OF sr rt] by simp_all
    moreover have "e = d" if "shortens_at s ?t e" for e
      using shortens_at_first_diff [OF that ds d(3)] d(4) True by simp
    moreover have "shortens_at s ?t d" using True ds d(3) by (simp add: shortens_at_def)
    ultimately show ?thesis using rt by (metis (no_types, lifting))
  qed
qed

lemma bytewise_successor_loop:
  "i \<le> length k \<Longrightarrow> \<exists>r. short_successor_loop k (length k) i = Some r
    \<and> length r \<le> length k \<and> lex_cmp k r \<le> 0"
proof (induction k "length k" i rule: short_successor_loop.induct)
  case (1 k i)
  show ?case
  proof (cases "i < length k \<and> k ! i \<noteq> 0xff")
    case True
    then have "lex_cmp k (take i k @ [k ! i + 1]) < 0" using byte_succ by (intro lex_cmp_bump) auto
    then show ?thesis using True store_resize [of i k]
      by (simp add: short_successor_loop.simps [of k _ i] load8_in)
  next
    case False
    then show ?thesis using 1 by (auto simp: short_successor_loop.simps [of k _ i] load8_in)
  qed
qed

interpretation bytewise: comparator_contract BytewiseComparator "\<lambda>_. True" lex_cmp
proof
  fix a b :: slice assume "slice_ok a" "slice_ok b"
  then show "cmp_compare BytewiseComparator a b = Some (lex_cmp (sl_bytes a) (sl_bytes b))"
    by (simp add: BytewiseComparator_def bytewise_compare_def slice_compare_lex)
next
  fix x y show "sgn (lex_cmp y x) = - sgn (lex_cmp x y)" by (subst lex_cmp_antisym) simp
next
  fix x y z assume "lex_cmp x y \<le> 0" "lex_cmp y z \<le> 0"
  then show "lex_cmp x z \<le> 0" using lex_cmp_trans [of x y z] by (auto simp: le_less)
next
  fix l s assume "slice_ok l"
  from bytewise_separator [OF this] show "\<exists>r. cmp_findShortestSeparator BytewiseComparator s l = Some r \<and> True \<and> length r \<le> length s
      \<and> (if lex_cmp s (sl_bytes l) < 0 then lex_cmp s r \<le> 0 \<and> lex_cmp r (sl_bytes l) < 0 else r = s)"
    unfolding BytewiseComparator_def comparator.simps by blast
next
  fix k show "\<exists>r. cmp_findShortSuccessor BytewiseComparator k = Some r \<and> True \<and> length r \<le> length k
      \<and> lex_cmp k r \<le> 0"
    using bytewise_successor_loop [of 0 k]
    by (simp add: BytewiseComparator_def bytewise_findShortSuccessor_def)
qed


section \<open>Properties\<close>



lemma lex_cmp_all_ff: "length x \<le> length k \<Longrightarrow> \<forall>b \<in> set (take (length x) k). b = 0xff \<Longrightarrow>
  lex_cmp k x \<le> 0 \<Longrightarrow> k = x"
proof (induction x arbitrary: k)
  case Nil
  then show ?case by (cases k) auto
next
  case (Cons a x)
  then obtain b k' where k: "k = b # k'" by (cases k) auto
  moreover have "\<not> (0xff :: byte) < a" using unat_lt_256 [of a] by (simp add: word_less_nat_alt)
  ultimately show ?case using Cons.prems Cons.IH [of k'] by (auto split: if_splits)
qed

lemma short_successor_loop_result:
  "i \<le> length k \<Longrightarrow> \<forall>j < i. k ! j = 0xff \<Longrightarrow> \<exists>r d. short_successor_loop k (length k) i = Some r
    \<and> d \<le> length k \<and> (\<forall>j < d. k ! j = 0xff)
    \<and> (if d = length k then r = k else k ! d \<noteq> 0xff \<and> r = take d k @ [k ! d + 1])"
proof (induction k "length k" i rule: short_successor_loop.induct)
  case (1 k i)
  show ?case
  proof (cases "i < length k \<and> k ! i \<noteq> 0xff")
    case True
    then have "short_successor_loop k (length k) i = Some (take i k @ [k ! i + 1])"
      using store_resize [of i k] by (simp add: short_successor_loop.simps [of k _ i] load8_in)
    then show ?thesis using True 1(3) by (intro exI [of _ i] exI [of _ "take i k @ [k ! i + 1]"]) simp
  next
    case False
    show ?thesis
    proof (cases "i < length k")
      case True
      have "short_successor_loop k (length k) i = short_successor_loop k (length k) (i + 1)"
        using True False by (simp add: short_successor_loop.simps [of k _ i] load8_in)
      moreover have "\<forall>j < i + 1. k ! j = 0xff" using 1(3) True False by (auto simp: less_Suc_eq)
      ultimately show ?thesis using 1(1) [OF True, of "k ! i"] True False by (auto simp: load8_in)
    next
      case False
      then have "short_successor_loop k (length k) i = Some k"
        by (simp add: short_successor_loop.simps [of k _ i])
      then show ?thesis using False 1(2,3) by (intro exI [of _ "length k"] exI [of _ k]) simp
    qed
  qed
qed

text \<open>
  C32 (src/util/comparator.cc, \<open>findShortSuccessor\<close>). For every key the function returns a
  string at or above the key, and no string at or above the key is shorter; the key is left
  as it is exactly when all its bytes are 0xff.
\<close>

theorem bytewise_successor_shortest:
  "\<exists>r. bytewise_findShortSuccessor key = Some r \<and> lex_cmp key r \<le> 0
    \<and> (\<forall>x. lex_cmp key x \<le> 0 \<longrightarrow> length r \<le> length x)
    \<and> (r = key \<longleftrightarrow> (\<forall>b \<in> set key. b = 0xff))"
proof -
  obtain r d where r: "bytewise_findShortSuccessor key = Some r" and d: "d \<le> length key"
    "\<forall>j < d. key ! j = 0xff" and
    res: "if d = length key then r = key else key ! d \<noteq> 0xff \<and> r = take d key @ [key ! d + 1]"
    using short_successor_loop_result [of 0 key] by (auto simp: bytewise_findShortSuccessor_def)
  have ff: "k = x" if "length x \<le> d" "lex_cmp k x \<le> 0" "k = key" for k x
    using lex_cmp_all_ff [of x k] that d by (auto simp: all_set_conv_all_nth)
  have short: "length r \<le> length x" if "lex_cmp key x \<le> 0" for x
    using ff [of x key] that d(1) res by (cases "length x \<le> d") (auto split: if_splits)
  have "lex_cmp key r \<le> 0"
    using bytewise_successor_loop [of 0 key] r by (auto simp: bytewise_findShortSuccessor_def)
  moreover have "r = key \<longleftrightarrow> (\<forall>b \<in> set key. b = 0xff)"
  proof (cases "d = length key")
    case True
    then show ?thesis using res d by (auto simp: in_set_conv_nth)
  next
    case False
    then have "key ! d \<noteq> 0xff" "r ! d = key ! d + 1" "d < length key" using res d by (auto simp: nth_append)
    then show ?thesis using byte_succ [of "key ! d"] by force
  qed
  ultimately show ?thesis using r short by blast
qed

theorem bytewise_successor_shortest_witness:
  "\<exists>r. bytewise_findShortSuccessor [0xff, 7, 1] = Some r \<and> r \<noteq> [0xff, 7, 1] \<and> length r \<le> 2"
proof -
  obtain r where r: "bytewise_findShortSuccessor [0xff, 7, 1] = Some r"
    "\<forall>x. lex_cmp [0xff, 7, 1] x \<le> 0 \<longrightarrow> length r \<le> length x"
    "r = [0xff, 7, 1] \<longleftrightarrow> (\<forall>b \<in> set [0xff, 7, 1 :: byte]. b = 0xff)"
    using bytewise_successor_shortest by blast
  from r(2) [rule_format, of "[0xff, 8]"] have "length r \<le> 2" by simp
  then show ?thesis using r(1,3) by simp
qed

text \<open>
  (src/util/comparator.cc). The comparator keeps the contract its callers rely on: with
  it as the comparator of a sorted index, the separator of the last key \<open>s\<close> of one block
  and the first key \<open>l\<close> of the next sends every key at or below \<open>s\<close> to the first block
  (none is above the separator) and every key at or above \<open>l\<close> to the second (all are
  strictly above it).
\<close>

theorem bytewise_index_separator:
  assumes "slice_ok l" "lex_cmp s (sl_bytes l) < 0"
    and "\<And>x. x \<in> A \<Longrightarrow> lex_cmp x s \<le> 0" "\<And>y. y \<in> B \<Longrightarrow> lex_cmp (sl_bytes l) y \<le> 0"
  shows "\<exists>r. cmp_findShortestSeparator BytewiseComparator s l = Some r
    \<and> (\<forall>x \<in> A. lex_cmp x r \<le> 0) \<and> (\<forall>y \<in> B. lex_cmp r y < 0)"
  by (rule bytewise.separator_splits) (use assms in auto)

theorem bytewise_index_separator_witness:
  "\<exists>r. cmp_findShortestSeparator BytewiseComparator [3, 3, 3] (Slice_string [7]) = Some r
    \<and> (\<forall>x \<in> {[1], [3, 3]}. lex_cmp x r \<le> 0) \<and> (\<forall>y \<in> {[7, 0], [9]}. lex_cmp r y < 0)"
  by (rule bytewise_index_separator [OF slice_ok_string]) auto

end
