(* ===== verification/KV_Logging.thy ===== *)
theory KV_Logging
  imports KV_Slice
begin

text \<open>
  The functions of src/util/logging.cc that turn numbers and keys into text and read decimal
  numbers back. \<open>std::to_string\<close> is the decimal representation, most significant digit
  first (\<open>to_string_u64\<close>).
\<close>

section \<open>Printing\<close>

text \<open>The bytes of a string literal of the source.\<close>

definition ascii :: "string \<Rightarrow> byte list" where
  "ascii s = map of_char s"

definition digit_byte :: "nat \<Rightarrow> byte" where
  "digit_byte d = word_of_nat (48 + d)"

fun dec_digits :: "nat \<Rightarrow> byte list" where
  "dec_digits n = (if n < 10 then [] else dec_digits (n div 10)) @ [digit_byte (n mod 10)]"

declare dec_digits.simps [simp del]

definition to_string_u64 :: "u64 \<Rightarrow> byte list" where
  "to_string_u64 num = dec_digits (unat num)"

definition AppendNumberTo :: "byte list \<Rightarrow> u64 \<Rightarrow> byte list" where
  "AppendNumberTo str num = str @ to_string_u64 num"

definition AppendEscapedStringTo :: "byte list \<Rightarrow> slice \<Rightarrow> byte list option" where
  "AppendEscapedStringTo str v = do { s \<leftarrow> slice_toString v; Some (str @ s) }"

definition NumberToString :: "u64 \<Rightarrow> byte list" where
  "NumberToString num = (let r = [] in AppendNumberTo r num)"

definition EscapeString :: "slice \<Rightarrow> byte list option" where
  "EscapeString v = (let r = [] in AppendEscapedStringTo r v)"

section \<open>Reading a number\<close>

definition s_max_uint64 :: u64 where "s_max_uint64 = 0xFFFFFFFFFFFFFFFF"

definition s_last_digit_of_max_uint64 :: byte where
  "s_last_digit_of_max_uint64 = 48 + ucast (s_max_uint64 mod 10)"

text \<open>
  The loop over the digits. \<open>None\<close>: a read outside the block; \<open>Some None\<close>: the early return
  on overflow; \<open>Some (Some (current, v))\<close>: the loop ended at \<open>current\<close>.
\<close>

function consume_loop :: "block \<Rightarrow> nat \<Rightarrow> nat \<Rightarrow> u64 \<Rightarrow> (nat \<times> u64) option option" where
  "consume_loop m cur e v =
     (if cur \<ge> e then Some (Some (cur, v))
      else do {
        ch \<leftarrow> load8 m cur;
        (if ch < 48 \<or> ch > 57 then Some (Some (cur, v))
         else if v > s_max_uint64 div 10
                 \<or> (v = s_max_uint64 div 10 \<and> ch > s_last_digit_of_max_uint64)
         then Some None
         else consume_loop m (cur + 1) e (v * 10 + ucast (ch - 48))) })"
  by pat_completeness auto
termination by (relation "measure (\<lambda>(m, cur, e, v). e - cur)") auto

declare consume_loop.simps [simp del]

text \<open>The slice and the number passed by pointer are returned, with the result last.\<close>

definition ConsumeDecimalNumber :: "slice \<Rightarrow> u64 \<Rightarrow> (slice \<times> u64 \<times> bool) option" where
  "ConsumeDecimalNumber inp val = do {
     let start = sl_off inp;
     r \<leftarrow> consume_loop (sl_mem inp) start (start + sl_size inp) 0;
     (case r of
        None \<Rightarrow> Some (inp, val, False)
      | Some (current, v) \<Rightarrow> do {
          let digits_consumed = current - start;
          inp \<leftarrow> removePrefix inp digits_consumed;
          Some (inp, v, digits_consumed \<noteq> 0) }) }"

section \<open>Decimal numbers as byte strings\<close>

definition is_digit :: "byte \<Rightarrow> bool" where
  "is_digit c = (48 \<le> c \<and> c \<le> 57)"

definition dec_value :: "nat \<Rightarrow> byte list \<Rightarrow> nat" where
  "dec_value n ds = foldl (\<lambda>a c. a * 10 + (unat c - 48)) n ds"

lemma dec_value_Nil [simp]: "dec_value n [] = n"
  by (simp add: dec_value_def)

lemma dec_value_Cons: "dec_value n (c # ds) = dec_value (n * 10 + (unat c - 48)) ds"
  by (simp add: dec_value_def)

lemma dec_value_append: "dec_value n (ds @ es) = dec_value (dec_value n ds) es"
  by (simp add: dec_value_def)

lemma dec_value_ge: "n \<le> dec_value n ds"
proof (induction ds arbitrary: n)
  case (Cons c ds)
  have "n \<le> n * 10 + (unat c - 48)" by simp
  then show ?case using Cons [of "n * 10 + (unat c - 48)"] by (simp add: dec_value_Cons)
qed simp

lemma unat_digit_byte: "d < 10 \<Longrightarrow> unat (digit_byte d) = 48 + d"
  unfolding digit_byte_def by (simp only: unat_of_nat) simp

lemma is_digit_digit_byte: "d < 10 \<Longrightarrow> is_digit (digit_byte d)"
  using unat_digit_byte [of d] by (simp add: is_digit_def word_le_nat_alt)

lemma dec_digits_value: "dec_value 0 (dec_digits n) = n"
proof (induction n rule: dec_digits.induct)
  case (1 n)
  then show ?case
    by (subst dec_digits.simps) (auto simp: dec_value_append dec_value_Cons unat_digit_byte)
qed

lemma dec_digits_digits: "c \<in> set (dec_digits n) \<Longrightarrow> is_digit c"
proof (induction n rule: dec_digits.induct)
  case (1 n)
  then show ?case
    by (subst (asm) (2) dec_digits.simps) (auto simp: is_digit_digit_byte split: if_splits)
qed

lemma dec_digits_nonempty: "dec_digits n \<noteq> []"
  by (subst dec_digits.simps) simp

lemma NumberToString_digits: "NumberToString num = dec_digits (unat num)"
  by (simp add: NumberToString_def AppendNumberTo_def to_string_u64_def)

lemma EscapeString_bytes: "slice_ok v \<Longrightarrow> EscapeString v = Some (sl_bytes v)"
  by (simp add: EscapeString_def AppendEscapedStringTo_def slice_toString_ok)

section \<open>The loop reads the value of the digits, and detects overflow\<close>

lemma overflow_test:
  assumes "is_digit ch"
  shows "v > s_max_uint64 div 10 \<or> (v = s_max_uint64 div 10 \<and> ch > s_last_digit_of_max_uint64)
    \<longleftrightarrow> 2 ^ 64 \<le> unat v * 10 + (unat ch - 48)"
proof -
  have "s_max_uint64 div 10 = 1844674407370955161" "s_last_digit_of_max_uint64 = 53"
    by code_simp+
  moreover have "48 \<le> unat ch" "unat ch \<le> 57" using assms
    by (simp_all add: is_digit_def word_le_nat_alt)
  ultimately show ?thesis by (auto simp: word_less_nat_alt word_unat_eq_iff)
qed

lemma accumulate:
  assumes "is_digit ch" "unat v * 10 + (unat ch - 48) < 2 ^ 64"
  shows "unat ((v::u64) * 10 + ucast (ch - 48)) = unat v * 10 + (unat ch - 48)"
proof -
  have "48 \<le> ch" using assms(1) by (simp add: is_digit_def)
  then have "unat (ch - 48) = unat ch - 48" by (simp add: unat_sub word_le_nat_alt)
  then have "unat (ucast (ch - 48) :: u64) = unat ch - 48" by (subst unat_ucast_byte) simp_all
  moreover have "unat (v * 10) = unat v * 10" 
    using assms(2) unat_mult_lem [THEN iffD1, of v "10 :: u64"] by simp
  ultimately show ?thesis using assms(2) by (simp add: unat_plus_if')
qed

lemma consume_loop_digits:
  fixes pre :: "byte list"
  assumes "length pre + length bs \<le> length m" "take (length bs) (drop (length pre) m) = bs"
  shows "consume_loop m (length pre) (length pre + length bs) v =
    (let ds = takeWhile is_digit bs in
     if ds = [] \<or> dec_value (unat v) ds < 2 ^ 64
     then Some (Some (length pre + length ds, word_of_nat (dec_value (unat v) ds)))
     else Some None)"
  using assms
proof (induction bs arbitrary: pre v)
  case Nil
  then show ?case by (simp add: consume_loop.simps)
next
  case (Cons ch bs)
  obtain rest where rest: "drop (length pre) m = ch # rest" "take (length bs) rest = bs"
    using Cons.prems by (cases "drop (length pre) m") auto
  then have m: "load8 m (length pre) = Some ch" "take (length bs) (drop (Suc (length pre)) m) = bs"
    using Cons.prems drop_drop [of 1 "length pre" m] by (simp_all add: load8_def nth_via_drop)
  show ?case
  proof (cases "is_digit ch")
    case False
    then show ?thesis using m by (subst consume_loop.simps) (auto simp: is_digit_def not_le)
  next
    case digit: True
    have guard: "\<not> (ch < 48 \<or> ch > 57)" using digit by (simp add: is_digit_def not_less)
    let ?n = "unat v * 10 + (unat ch - 48)" and ?ds = "takeWhile is_digit bs"
    show ?thesis
    proof (cases "2 ^ 64 \<le> ?n")
      case True
      then have "\<not> dec_value ?n ?ds < 2 ^ 64" using dec_value_ge [of ?n ?ds] by simp
      moreover have "consume_loop m (length pre) (length pre + length (ch # bs)) v = Some None"
        using True overflow_test [OF digit, of v] guard m by (subst consume_loop.simps) simp
      ultimately show ?thesis using digit by (simp add: dec_value_Cons)
    next
      case False
      then have lt: "?n < 2 ^ 64" by simp
      note acc = accumulate [OF digit lt]
      have "consume_loop m (length pre) (length pre + length (ch # bs)) v =
          consume_loop m (length (pre @ [ch])) (length (pre @ [ch]) + length bs) (v * 10 + ucast (ch - 48))"
        using False overflow_test [OF digit, of v] guard m by (subst consume_loop.simps) auto
      also have "\<dots> = (if ?ds = [] \<or> dec_value ?n ?ds < 2 ^ 64
          then Some (Some (length (pre @ [ch]) + length ?ds, word_of_nat (dec_value ?n ?ds)))
          else Some None)"
        using Cons.IH [of "pre @ [ch]" "v * 10 + ucast (ch - 48)"] Cons.prems m acc by (simp add: Let_def)
      finally show ?thesis using digit lt by (auto simp: dec_value_Cons)
    qed
  qed
qed


lemma sl_block:
  assumes "slice_ok s"
  shows "sl_off s + sl_size s \<le> length (sl_mem s)"
    "take (sl_size s) (drop (sl_off s) (sl_mem s)) = sl_bytes s"
  using assms by (simp_all add: slice_ok_def sl_bytes_def)

lemma consume_loop_slice:
  assumes "slice_ok s"
  shows "consume_loop (sl_mem s) (sl_off s) (sl_off s + sl_size s) 0 =
    (let ds = takeWhile is_digit (sl_bytes s) in
     if ds = [] \<or> dec_value 0 ds < 2 ^ 64
     then Some (Some (sl_off s + length ds, word_of_nat (dec_value 0 ds)))
     else Some None)"
proof -
  have "sl_off s \<le> length (sl_mem s)" using sl_block(1) [OF assms] by simp
  then have "length (take (sl_off s) (sl_mem s)) = sl_off s" by simp
  then show ?thesis
    using consume_loop_digits [of "take (sl_off s) (sl_mem s)" "sl_bytes s" "sl_mem s" 0]
      sl_block [OF assms] length_sl_bytes [OF assms] by (simp add: Let_def)
qed

lemma Consume_ok:
  assumes "slice_ok inp" and ds: "ds = takeWhile is_digit (sl_bytes inp)" "dec_value 0 ds < 2 ^ 64"
  shows "\<exists>inp'. ConsumeDecimalNumber inp val = Some (inp', word_of_nat (dec_value 0 ds), ds \<noteq> [])
    \<and> slice_ok inp' \<and> sl_bytes inp' = drop (length ds) (sl_bytes inp)"
proof -
  have le: "length ds \<le> sl_size inp"
    using length_takeWhile_le [of is_digit "sl_bytes inp"] ds assms(1) by simp
  obtain s' where s': "removePrefix inp (length ds) = Some s'" "slice_ok s'"
    "sl_bytes s' = drop (length ds) (sl_bytes inp)"
    using removePrefix_ok [OF assms(1) le] by auto
  have "consume_loop (sl_mem inp) (sl_off inp) (sl_off inp + sl_size inp) 0 =
      Some (Some (sl_off inp + length ds, word_of_nat (dec_value 0 ds)))"
    using consume_loop_slice [OF assms(1)] ds by (simp add: Let_def)
  then show ?thesis using s' by (auto simp: ConsumeDecimalNumber_def)
qed

lemma Consume_overflow:
  assumes "slice_ok inp" "2 ^ 64 \<le> dec_value 0 (takeWhile is_digit (sl_bytes inp))"
  shows "ConsumeDecimalNumber inp val = Some (inp, val, False)"
proof -
  have "takeWhile is_digit (sl_bytes inp) \<noteq> []" using assms(2) by auto
  then show ?thesis using consume_loop_slice [OF assms(1)] assms(2)
    by (simp add: ConsumeDecimalNumber_def)
qed

section \<open>Properties\<close>

text \<open>
  C38 (src/util/logging.cc, \<open>ConsumeDecimalNumber\<close>). On every slice that lies in its block:
  let the leading digits be the longest prefix of the characters 0 to 9. When their decimal
  value fits 64 bits, the function stores it, advances the slice past exactly these digits
  and reports whether there was one. When it does not fit, the function reports failure and
  leaves slice and number as they were. No intermediate product or sum wraps, and no byte
  outside the slice is read.
\<close>

theorem ConsumeDecimalNumber_correct:
  assumes "slice_ok inp"
  shows "let ds = takeWhile is_digit (sl_bytes inp) in
    if dec_value 0 ds < 2 ^ 64
    then \<exists>inp' val'. ConsumeDecimalNumber inp val = Some (inp', val', ds \<noteq> [])
      \<and> unat val' = dec_value 0 ds \<and> slice_ok inp' \<and> sl_bytes inp' = drop (length ds) (sl_bytes inp)
    else ConsumeDecimalNumber inp val = Some (inp, val, False)"
proof -
  let ?ds = "takeWhile is_digit (sl_bytes inp)"
  have "dec_value 0 ?ds < 2 ^ 64 \<Longrightarrow> unat (word_of_nat (dec_value 0 ?ds) :: u64) = dec_value 0 ?ds"
    by (simp only: unat_of_nat) simp
  then show ?thesis using Consume_ok [OF assms refl, of val] Consume_overflow [OF assms, of val]
    by (auto simp: Let_def not_less)
qed

theorem ConsumeDecimalNumber_correct_witness:
  "\<exists>inp' val'. ConsumeDecimalNumber (Slice_string [52, 50, 44]) 7 = Some (inp', val', True)
     \<and> unat val' = 42 \<and> sl_bytes inp' = [44]"
  using ConsumeDecimalNumber_correct [OF slice_ok_string, of "[52, 50, 44]" 7]
  by (simp add: Let_def is_digit_def dec_value_def) metis

text \<open>
  (src/util/logging.cc, \<open>NumberToString\<close> and \<open>ConsumeDecimalNumber\<close>). Reading back the
  text of any 64-bit number, followed by any text that does not start with a digit, gives
  the number and leaves exactly that text.
\<close>

theorem decimal_roundtrip:
  assumes "rest = [] \<or> \<not> is_digit (hd rest)"
  shows "\<exists>inp'. ConsumeDecimalNumber (Slice_string (NumberToString num @ rest)) val = Some (inp', num, True)
    \<and> slice_ok inp' \<and> sl_bytes inp' = rest"
proof -
  have "takeWhile is_digit (dec_digits (unat num) @ rest) = dec_digits (unat num)"
    using assms dec_digits_digits by (cases rest) (auto simp: takeWhile_append2)
  then show ?thesis
    using Consume_ok [OF slice_ok_string refl, of "NumberToString num @ rest" val] unat_lt_pow [of num]
    by (simp add: NumberToString_digits dec_digits_value dec_digits_nonempty)
qed

theorem decimal_roundtrip_witness:
  "\<exists>inp'. ConsumeDecimalNumber (Slice_string (NumberToString 1800 @ [32, 49])) 0 = Some (inp', 1800, True)
    \<and> slice_ok inp' \<and> sl_bytes inp' = [32, 49]"
  by (rule decimal_roundtrip) (simp add: is_digit_def)

end
