(* ===== verification/KV_Format.thy ===== *)
theory KV_Format
  imports KV_Comparator KV_Logging
begin

text \<open>
  The key format of src/database/db_format.h and db_format.cc: the internal key, which is the
  user key followed by eight bytes that hold the sequence number and the value type; its
  comparator, built on the comparator of the user; the filter policy adapter; and the key
  that a lookup builds.

  The functor \<open>internal_comparator\<close> is shown to turn any comparator that keeps
  \<open>comparator_contract\<close> into one that keeps it too, for the order \<open>internal_ord\<close>: user keys
  ascending, then newest entry first.
\<close>

unbundle bit_operations_syntax

section \<open>Constants and types\<close>

definition s_num_levels :: int where "s_num_levels = 7"
definition s_l0_compaction_trigger :: int where "s_l0_compaction_trigger = 4"
definition s_l0_slowdown_writes_trigger :: int where "s_l0_slowdown_writes_trigger = 8"
definition s_l0_stop_writes_trigger :: int where "s_l0_stop_writes_trigger = 12"
definition s_max_mem_compact_level :: int where "s_max_mem_compact_level = 2"
definition s_read_bytes_period :: int where "s_read_bytes_period = 1048576"

text \<open>
  The enumeration, with the values outside it that the cast in \<open>ParseInternalKey\<close> can
  produce from a byte.
\<close>

datatype ValueType = TypeDeletion | TypeValue | TypeOther byte

definition value_type_of :: "byte \<Rightarrow> ValueType" where
  "value_type_of c = (if c = 0x0 then TypeDeletion else if c = 0x1 then TypeValue else TypeOther c)"

fun value_type_num :: "ValueType \<Rightarrow> byte" where
  "value_type_num TypeDeletion = 0x0"
| "value_type_num TypeValue = 0x1"
| "value_type_num (TypeOther c) = c"

definition s_value_type_for_seek :: ValueType where "s_value_type_for_seek = TypeValue"

definition s_max_sequence_number :: u64 where
  "s_max_sequence_number = push_bit 56 1 - 1"

record ParsedInternalKey =
  pik_user_key :: slice
  pik_sequence :: u64
  pik_type :: ValueType

definition ParsedInternalKey_new :: "slice \<Rightarrow> u64 \<Rightarrow> ValueType \<Rightarrow> ParsedInternalKey" where
  "ParsedInternalKey_new u seq t = \<lparr>pik_user_key = u, pik_sequence = seq, pik_type = t\<rparr>"

section \<open>Internal keys\<close>

definition InternalKeyEncodingLength :: "ParsedInternalKey \<Rightarrow> nat" where
  "InternalKeyEncodingLength key = sl_size (pik_user_key key) + 8"

definition PackSequenceAndType :: "u64 \<Rightarrow> ValueType \<Rightarrow> u64 option" where
  "PackSequenceAndType seq t = do {
     _ \<leftarrow> cassert (seq \<le> s_max_sequence_number);
     _ \<leftarrow> cassert (t = TypeValue \<or> t = TypeDeletion);
     Some (push_bit 8 seq OR ucast (value_type_num t)) }"

definition AppendInternalKey :: "byte list \<Rightarrow> ParsedInternalKey \<Rightarrow> byte list option" where
  "AppendInternalKey result key = do {
     u \<leftarrow> load_range (sl_mem (pik_user_key key)) (sl_off (pik_user_key key)) (sl_size (pik_user_key key));
     let result = result @ u;
     tag \<leftarrow> PackSequenceAndType (pik_sequence key) (pik_type key);
     PutFixed64 result tag }"

text \<open>The result passed by pointer is returned, with the returned flag.\<close>

definition ParseInternalKey :: "slice \<Rightarrow> ParsedInternalKey \<Rightarrow> (ParsedInternalKey \<times> bool) option" where
  "ParseInternalKey internal_key result = do {
     let n = sl_size internal_key;
     (if n < 8 then Some (result, False)
      else do {
        num \<leftarrow> DecodeFixed64 (sl_mem internal_key) (sl_off internal_key + n - 8);
        let c = (ucast (num AND 0xff) :: byte);
        let result = result\<lparr>pik_sequence := drop_bit 8 num\<rparr>;
        let result = result\<lparr>pik_type := value_type_of c\<rparr>;
        let result = result\<lparr>pik_user_key :=
          Slice_ptr (sl_mem internal_key) (sl_off internal_key) (n - 8)\<rparr>;
        Some (result, c \<le> value_type_num TypeValue) }) }"

definition ExtractUserKey :: "slice \<Rightarrow> slice option" where
  "ExtractUserKey internal_key = do {
     _ \<leftarrow> cassert (sl_size internal_key \<ge> 8);
     Some (Slice_ptr (sl_mem internal_key) (sl_off internal_key) (sl_size internal_key - 8)) }"

definition PIK_debugString :: "ParsedInternalKey \<Rightarrow> byte list option" where
  "PIK_debugString p = do {
     k \<leftarrow> slice_toString (pik_user_key p);
     e \<leftarrow> EscapeString (Slice_string k);
     Some ([39] @ e @ [39] @ ascii '' @ '' @ to_string_u64 (pik_sequence p) @ ascii '' : ''
       @ dec_digits (unat (value_type_num (pik_type p)))) }"

section \<open>The comparator of internal keys\<close>

definition internal_compare :: "comparator \<Rightarrow> slice \<Rightarrow> slice \<Rightarrow> int option" where
  "internal_compare user a b = do {
     ua \<leftarrow> ExtractUserKey a;
     ub \<leftarrow> ExtractUserKey b;
     r \<leftarrow> cmp_compare user ua ub;
     (if r = 0 then do {
        a_num \<leftarrow> DecodeFixed64 (sl_mem a) (sl_off a + sl_size a - 8);
        b_num \<leftarrow> DecodeFixed64 (sl_mem b) (sl_off b + sl_size b - 8);
        Some (if a_num > b_num then -1 else if a_num < b_num then 1 else r) }
      else Some r) }"

definition internal_findShortestSeparator ::
    "comparator \<Rightarrow> byte list \<Rightarrow> slice \<Rightarrow> byte list option" where
  "internal_findShortestSeparator user start limit = do {
     user_start \<leftarrow> ExtractUserKey (Slice_string start);
     user_limit \<leftarrow> ExtractUserKey limit;
     tmp \<leftarrow> slice_toString user_start;
     tmp \<leftarrow> cmp_findShortestSeparator user tmp user_limit;
     larger \<leftarrow> (if length tmp < sl_size user_start
       then do { r \<leftarrow> cmp_compare user user_start (Slice_string tmp); Some (r < 0) }
       else Some False);
     (if larger then do {
        tag \<leftarrow> PackSequenceAndType s_max_sequence_number s_value_type_for_seek;
        tmp \<leftarrow> PutFixed64 tmp tag;
        r1 \<leftarrow> internal_compare user (Slice_string start) (Slice_string tmp);
        _ \<leftarrow> cassert (r1 < 0);
        r2 \<leftarrow> internal_compare user (Slice_string tmp) limit;
        _ \<leftarrow> cassert (r2 < 0);
        Some tmp }
      else Some start) }"

definition internal_findShortSuccessor :: "comparator \<Rightarrow> byte list \<Rightarrow> byte list option" where
  "internal_findShortSuccessor user key = do {
     user_key \<leftarrow> ExtractUserKey (Slice_string key);
     tmp \<leftarrow> slice_toString user_key;
     tmp \<leftarrow> cmp_findShortSuccessor user tmp;
     larger \<leftarrow> (if length tmp < sl_size user_key
       then do { r \<leftarrow> cmp_compare user user_key (Slice_string tmp); Some (r < 0) }
       else Some False);
     (if larger then do {
        tag \<leftarrow> PackSequenceAndType s_max_sequence_number s_value_type_for_seek;
        tmp \<leftarrow> PutFixed64 tmp tag;
        r1 \<leftarrow> internal_compare user (Slice_string key) (Slice_string tmp);
        _ \<leftarrow> cassert (r1 < 0);
        Some tmp }
      else Some key) }"

definition internal_comparator_name :: string where
  "internal_comparator_name = ''default InternalKeyComparator''"

definition internal_comparator :: "comparator \<Rightarrow> comparator" where
  "internal_comparator user = \<lparr>
     cmp_name = internal_comparator_name,
     cmp_compare = internal_compare user,
     cmp_findShortestSeparator = internal_findShortestSeparator user,
     cmp_findShortSuccessor = internal_findShortSuccessor user\<rparr>"

section \<open>The class InternalKey\<close>

type_synonym internal_key = "byte list"  \<comment> \<open>\<open>rep_\<close>\<close>

definition InternalKey_new :: "slice \<Rightarrow> u64 \<Rightarrow> ValueType \<Rightarrow> internal_key option" where
  "InternalKey_new user_key s t = AppendInternalKey [] (ParsedInternalKey_new user_key s t)"

definition ik_decodeFrom :: "internal_key \<Rightarrow> slice \<Rightarrow> (internal_key \<times> bool) option" where
  "ik_decodeFrom rep s = do {
     rep \<leftarrow> load_range (sl_mem s) (sl_off s) (sl_size s);
     Some (rep, rep \<noteq> []) }"

definition ik_encode :: "internal_key \<Rightarrow> slice option" where
  "ik_encode rep = do { _ \<leftarrow> cassert (rep \<noteq> []); Some (Slice_string rep) }"

definition ik_userKey :: "internal_key \<Rightarrow> slice option" where
  "ik_userKey rep = ExtractUserKey (Slice_string rep)"

definition ik_clear :: "internal_key \<Rightarrow> internal_key" where
  "ik_clear rep = []"

definition ik_setFrom :: "internal_key \<Rightarrow> ParsedInternalKey \<Rightarrow> internal_key option" where
  "ik_setFrom rep p = (let rep = ik_clear rep in AppendInternalKey rep p)"

definition ik_debugString :: "internal_key \<Rightarrow> ParsedInternalKey \<Rightarrow> byte list option" where
  "ik_debugString rep parsed = do {
     (parsed, ok) \<leftarrow> ParseInternalKey (Slice_string rep) parsed;
     (if ok then PIK_debugString parsed
      else do { e \<leftarrow> EscapeString (Slice_string rep); Some (ascii ''(bad)'' @ e) }) }"

definition internal_compare_keys :: "comparator \<Rightarrow> internal_key \<Rightarrow> internal_key \<Rightarrow> int option" where
  "internal_compare_keys user a b = do {
     ea \<leftarrow> ik_encode a;
     eb \<leftarrow> ik_encode b;
     internal_compare user ea eb }"

section \<open>The filter policy adapter\<close>

text \<open>
  The class \<open>FilterPolicy\<close> (filter_policy.h) is not in the repository; the policy of the user
  is a parameter. \<open>createFilter\<close> appends to the string given by pointer, which is returned.
\<close>

record filter_policy =
  fp_name :: string
  fp_createFilter :: "slice list \<Rightarrow> byte list \<Rightarrow> byte list option"
  fp_keyMayMatch :: "slice \<Rightarrow> slice \<Rightarrow> bool option"

text \<open>The loop overwrites the caller's array \<open>keys[0..n-1]\<close> with the user keys.\<close>

function extract_keys_loop :: "slice list \<Rightarrow> nat \<Rightarrow> nat \<Rightarrow> slice list option" where
  "extract_keys_loop mkey n i =
     (if i < n then do {
        k \<leftarrow> (if i < length mkey then Some (mkey ! i) else None);
        u \<leftarrow> ExtractUserKey k;
        extract_keys_loop (mkey[i := u]) n (i + 1) }
      else Some mkey)"
  by pat_completeness auto
termination by (relation "measure (\<lambda>(mkey, n, i). n - i)") auto

declare extract_keys_loop.simps [simp del]

definition internal_createFilter ::
    "filter_policy \<Rightarrow> slice list \<Rightarrow> byte list \<Rightarrow> (slice list \<times> byte list) option" where
  "internal_createFilter user keys dst = do {
     mkey \<leftarrow> extract_keys_loop keys (length keys) 0;
     dst \<leftarrow> fp_createFilter user mkey dst;
     Some (mkey, dst) }"

definition internal_keyMayMatch :: "filter_policy \<Rightarrow> slice \<Rightarrow> slice \<Rightarrow> bool option" where
  "internal_keyMayMatch user key flt = do {
     u \<leftarrow> ExtractUserKey key;
     fp_keyMayMatch user u flt }"

definition internal_filter_name :: "filter_policy \<Rightarrow> string" where
  "internal_filter_name user = fp_name user"

section \<open>The class LookupKey\<close>

text \<open>
  The buffer is \<open>space_\<close>, an array of 200 bytes in the object, or a block from \<open>new[]\<close>; the
  three pointers are offsets in it. The initial bytes of either are indeterminate; they are
  the argument \<open>junk\<close>, and no result depends on them.
\<close>

record LookupKey =
  lk_buf :: block
  lk_heap :: bool  \<comment> \<open>\<open>start_ != space_\<close>\<close>
  lk_start :: nat
  lk_key_start :: nat
  lk_end :: nat

definition lookup_buffer :: "(nat \<Rightarrow> byte) \<Rightarrow> nat \<Rightarrow> block" where
  "lookup_buffer junk n = map junk [0..<n]"

definition LookupKey_new :: "(nat \<Rightarrow> byte) \<Rightarrow> slice \<Rightarrow> u64 \<Rightarrow> LookupKey option" where
  "LookupKey_new junk user_key sequence = do {
     let usize = sl_size user_key;
     let needed = usize + 13;
     let on_heap = \<not> needed \<le> 200;
     let buf = lookup_buffer junk (if on_heap then needed else 200);
     let start = 0;
     (buf, dst) \<leftarrow> EncodeVarint32 buf start (word_of_nat (usize + 8));
     let key_start = dst;
     u \<leftarrow> load_range (sl_mem user_key) (sl_off user_key) usize;
     buf \<leftarrow> store_range buf dst u;
     let dst = dst + usize;
     tag \<leftarrow> PackSequenceAndType sequence s_value_type_for_seek;
     buf \<leftarrow> EncodeFixed64 buf dst tag;
     let dst = dst + 8;
     Some \<lparr>lk_buf = buf, lk_heap = on_heap, lk_start = start, lk_key_start = key_start,
       lk_end = dst\<rparr> }"

text \<open>The blocks that the destructor gives back to \<open>delete[]\<close>.\<close>

definition LookupKey_delete :: "LookupKey \<Rightarrow> block list" where
  "LookupKey_delete k = (if lk_heap k then [lk_buf k] else [])"

definition memtableKey :: "LookupKey \<Rightarrow> slice" where
  "memtableKey k = Slice_ptr (lk_buf k) (lk_start k) (lk_end k - lk_start k)"

definition internalKey :: "LookupKey \<Rightarrow> slice" where
  "internalKey k = Slice_ptr (lk_buf k) (lk_key_start k) (lk_end k - lk_key_start k)"

definition lk_userKey :: "LookupKey \<Rightarrow> slice" where
  "lk_userKey k = Slice_ptr (lk_buf k) (lk_key_start k) (lk_end k - lk_key_start k - 8)"


section \<open>What the bytes of an internal key mean\<close>

lemma sl_size_string [simp]: "sl_size (Slice_string s) = length s"
  by (simp add: Slice_string_def)

definition user_part :: "byte list \<Rightarrow> byte list" where
  "user_part k = take (length k - 8) k"

definition tag_part :: "byte list \<Rightarrow> nat" where
  "tag_part k = le_value (drop (length k - 8) k)"

definition tag_of :: "u64 \<Rightarrow> ValueType \<Rightarrow> nat" where
  "tag_of seq t = unat seq * 256 + unat (value_type_num t)"

definition ikey :: "byte list \<Rightarrow> u64 \<Rightarrow> ValueType \<Rightarrow> byte list" where
  "ikey u seq t = u @ le_bytes 8 (tag_of seq t)"

definition good_entry :: "u64 \<Rightarrow> ValueType \<Rightarrow> bool" where
  "good_entry seq t \<longleftrightarrow> seq \<le> s_max_sequence_number \<and> t \<in> {TypeValue, TypeDeletion}"

lemma max_sequence_value: "s_max_sequence_number = 0xFFFFFFFFFFFFFF"
  by code_simp

lemma unat_max_sequence: "unat s_max_sequence_number = 2 ^ 56 - 1"
  unfolding max_sequence_value by simp

lemma good_entry_bound: "good_entry seq t \<Longrightarrow> unat seq < 2 ^ 56 \<and> unat (value_type_num t) \<le> 1"
  by (auto simp: good_entry_def word_le_nat_alt unat_max_sequence)

lemma good_entry_seek [simp]: "good_entry seq s_value_type_for_seek \<longleftrightarrow> seq \<le> s_max_sequence_number"
  by (simp add: good_entry_def s_value_type_for_seek_def)

lemma Pack_ok:
  assumes "good_entry seq t"
  shows "\<exists>w. PackSequenceAndType seq t = Some w \<and> unat w = tag_of seq t"
proof -
  note b = good_entry_bound [OF assms]
  have v: "unat (ucast (value_type_num t) :: u64) = unat (value_type_num t)"
    by (rule unat_ucast_byte) simp
  have p: "unat (push_bit 8 seq) = 2 ^ 8 * unat seq" by (rule unat_push_bit) (use b in simp)
  have "push_bit 8 seq OR ucast (value_type_num t) = ucast (value_type_num t) + push_bit 8 seq"
    by (subst or.commute) (rule or_push_bit, use b v in simp)
  moreover have "unat (ucast (value_type_num t) + push_bit 8 seq :: u64) = tag_of seq t"
    unfolding tag_of_def by (subst unat_plus_if') (use b v p in simp)
  ultimately show ?thesis using assms by (auto simp: PackSequenceAndType_def good_entry_def)
qed

lemma Pack_fail: "\<not> good_entry seq t \<Longrightarrow> PackSequenceAndType seq t = None"
  by (auto simp: PackSequenceAndType_def good_entry_def cassert_def)

lemma AppendInternalKey_bytes:
  assumes "slice_ok (pik_user_key p)"
  shows "AppendInternalKey r p = (if good_entry (pik_sequence p) (pik_type p)
    then Some (r @ ikey (sl_bytes (pik_user_key p)) (pik_sequence p) (pik_type p)) else None)"
proof -
  have u: "load_range (sl_mem (pik_user_key p)) (sl_off (pik_user_key p)) (sl_size (pik_user_key p)) =
      Some (sl_bytes (pik_user_key p))"
    using slice_toString_ok [OF assms] by (simp add: slice_toString_def)
  show ?thesis
  proof (cases "good_entry (pik_sequence p) (pik_type p)")
    case True
    then obtain w where w: "PackSequenceAndType (pik_sequence p) (pik_type p) = Some w"
        "unat w = tag_of (pik_sequence p) (pik_type p)" using Pack_ok by blast
    then show ?thesis using u True by (simp add: AppendInternalKey_def PutFixed64_bytes ikey_def)
  next
    case False
    then show ?thesis using u by (simp add: AppendInternalKey_def Pack_fail)
  qed
qed

lemma DecodeFixed64_in:
  assumes "p + 8 \<le> length m"
  shows "\<exists>w. DecodeFixed64 m p = Some w \<and> unat w = le_value (take 8 (drop p m))"
proof -
  obtain pre bs post where m: "m = pre @ bs @ post" "length pre = p" "length bs = 8"
    using split_block [OF assms] by blast
  then show ?thesis using DecodeFixed64_append [OF m(3), of pre post] by simp
qed

lemma decode_tag:
  assumes "slice_ok k" "8 \<le> sl_size k"
  shows "\<exists>w. DecodeFixed64 (sl_mem k) (sl_off k + sl_size k - 8) = Some w
    \<and> unat w = tag_part (sl_bytes k)"
proof -
  have "take 8 (drop (sl_off k + sl_size k - 8) (sl_mem k)) = drop (sl_size k - 8) (sl_bytes k)"
    using assms by (simp add: sl_bytes_def drop_take add.commute)
  then show ?thesis
    using DecodeFixed64_in [of "sl_off k + sl_size k - 8" "sl_mem k"] assms
    by (simp add: slice_ok_def tag_part_def length_sl_bytes [OF assms(1)])
qed

lemma ExtractUserKey_ok:
  assumes "slice_ok k" "8 \<le> sl_size k"
  shows "\<exists>u. ExtractUserKey k = Some u \<and> slice_ok u \<and> sl_bytes u = user_part (sl_bytes k)
    \<and> sl_size u = sl_size k - 8"
  using slice_prefix [OF assms(1), of "sl_size k - 8"] assms
  by (simp add: ExtractUserKey_def user_part_def) (simp add: Slice_ptr_def)

lemma ikey_parts [simp]:
  assumes "good_entry seq t"
  shows "user_part (ikey u seq t) = u" "tag_part (ikey u seq t) = tag_of seq t"
proof -
  show "user_part (ikey u seq t) = u" by (simp add: user_part_def ikey_def)
  have "tag_of seq t < 256 ^ 8" using good_entry_bound [OF assms] by (simp add: tag_of_def)
  then show "tag_part (ikey u seq t) = tag_of seq t"
    by (simp add: tag_part_def ikey_def le_value_bytes)
qed

lemma length_ikey [simp]: "length (ikey u seq t) = length u + 8"
  by (simp add: ikey_def)

lemma tag_part_less: "8 \<le> length k \<Longrightarrow> tag_part k < 2 ^ 64"
  using le_value_less [of "drop (length k - 8) k"] by (simp add: tag_part_def)

text \<open>Every string of at least eight bytes is the internal key of its parts.\<close>

lemma parts_unique:
  assumes "8 \<le> length k"
  shows "k = user_part k @ le_bytes 8 (tag_part k)"
proof -
  have "length (drop (length k - 8) k) = 8" using assms by simp
  then show ?thesis
    by (metis append_take_drop_id le_bytes_value tag_part_def user_part_def)
qed

section \<open>The comparator of internal keys keeps the contract\<close>

definition internal_ord :: "(byte list \<Rightarrow> byte list \<Rightarrow> int) \<Rightarrow> byte list \<Rightarrow> byte list \<Rightarrow> int" where
  "internal_ord ord x y = (let r = ord (user_part x) (user_part y) in
     if r = 0 then (if tag_part x > tag_part y then -1 else if tag_part x < tag_part y then 1 else 0)
     else r)"

definition internal_dom :: "(byte list \<Rightarrow> bool) \<Rightarrow> byte list \<Rightarrow> bool" where
  "internal_dom D k \<longleftrightarrow> 8 \<le> length k \<and> D (user_part k)"

lemma internal_dom_ikey [simp]: "good_entry seq t \<Longrightarrow> internal_dom D (ikey u seq t) \<longleftrightarrow> D u"
  by (simp add: internal_dom_def)

locale user_comparator = comparator_contract
begin

lemma internal_compare_ok:
  assumes a: "slice_ok a" "internal_dom dom (sl_bytes a)"
    and b: "slice_ok b" "internal_dom dom (sl_bytes b)"
  shows "internal_compare C a b = Some (internal_ord ord (sl_bytes a) (sl_bytes b))"
proof -
  have sz: "8 \<le> sl_size a" "8 \<le> sl_size b" and d: "dom (user_part (sl_bytes a))" "dom (user_part (sl_bytes b))"
    using a b by (simp_all add: internal_dom_def)
  obtain ua where ua: "ExtractUserKey a = Some ua" "slice_ok ua" "sl_bytes ua = user_part (sl_bytes a)"
    using ExtractUserKey_ok [OF a(1) sz(1)] by auto
  obtain ub where ub: "ExtractUserKey b = Some ub" "slice_ok ub" "sl_bytes ub = user_part (sl_bytes b)"
    using ExtractUserKey_ok [OF b(1) sz(2)] by auto
  obtain x where x: "DecodeFixed64 (sl_mem a) (sl_off a + sl_size a - 8) = Some x"
    "unat x = tag_part (sl_bytes a)" using decode_tag [OF a(1) sz(1)] by auto
  obtain y where y: "DecodeFixed64 (sl_mem b) (sl_off b + sl_size b - 8) = Some y"
    "unat y = tag_part (sl_bytes b)" using decode_tag [OF b(1) sz(2)] by auto
  have "cmp_compare C ua ub = Some (ord (user_part (sl_bytes a)) (user_part (sl_bytes b)))"
    using compare_ord [OF ua(2) ub(2)] ua(3) ub(3) d by simp
  then show ?thesis
    using ua(1) ub(1) x y by (simp add: internal_compare_def internal_ord_def Let_def word_less_nat_alt)
qed

lemma internal_ord_antisym:
  assumes "internal_dom dom x" "internal_dom dom y"
  shows "sgn (internal_ord ord y x) = - sgn (internal_ord ord x y)"
proof -
  have d: "dom (user_part x)" "dom (user_part y)" using assms by (simp_all add: internal_dom_def)
  show ?thesis using ord_antisym [OF d] ord_zero_sym [OF d] by (auto simp: internal_ord_def Let_def)
qed

lemma internal_ord_le:
  "internal_ord ord x y \<le> 0 \<longleftrightarrow> ord (user_part x) (user_part y) < 0
    \<or> ord (user_part x) (user_part y) = 0 \<and> tag_part y \<le> tag_part x"
  by (auto simp: internal_ord_def Let_def)

lemma internal_ord_less:
  "internal_ord ord x y < 0 \<longleftrightarrow> ord (user_part x) (user_part y) < 0
    \<or> ord (user_part x) (user_part y) = 0 \<and> tag_part y < tag_part x"
  by (auto simp: internal_ord_def Let_def)

lemma internal_ord_trans:
  assumes "internal_dom dom x" "internal_dom dom y" "internal_dom dom z"
    and "internal_ord ord x y \<le> 0" "internal_ord ord y z \<le> 0"
  shows "internal_ord ord x z \<le> 0"
proof -
  have d: "dom (user_part x)" "dom (user_part y)" "dom (user_part z)"
    using assms(1-3) by (simp_all add: internal_dom_def)
  note tr = ord_trans [OF d] ord_le_less_trans [OF d] ord_less_le_trans [OF d] ord_equal_trans [OF d]
  show ?thesis using assms(4,5) tr unfolding internal_ord_le by linarith
qed

lemma seek_tag:
  "\<exists>tag. PackSequenceAndType s_max_sequence_number s_value_type_for_seek = Some tag
    \<and> PutFixed64 t tag = Some (ikey t s_max_sequence_number s_value_type_for_seek)"
  using Pack_ok [of s_max_sequence_number s_value_type_for_seek] by (auto simp: PutFixed64_bytes ikey_def)

lemma internal_separator:
  assumes l: "slice_ok l" and s: "internal_dom dom s" and dl: "internal_dom dom (sl_bytes l)"
  shows "\<exists>r. internal_findShortestSeparator C s l = Some r \<and> internal_dom dom r \<and> length r \<le> length s
    \<and> (if internal_ord ord s (sl_bytes l) < 0
       then internal_ord ord s r \<le> 0 \<and> internal_ord ord r (sl_bytes l) < 0 else r = s)"
proof -
  let ?us = "user_part s" and ?ul = "user_part (sl_bytes l)"
  have d: "dom ?us" "dom ?ul" "8 \<le> length s" "8 \<le> sl_size l"
    using s dl l by (simp_all add: internal_dom_def)
  obtain u where u: "ExtractUserKey (Slice_string s) = Some u" "slice_ok u" "sl_bytes u = ?us"
    "sl_size u = length s - 8"
    using ExtractUserKey_ok [OF slice_ok_string, of s] d by auto
  obtain ul where ul: "ExtractUserKey l = Some ul" "slice_ok ul" "sl_bytes ul = ?ul"
    using ExtractUserKey_ok [OF l] d by auto
  obtain t where t: "cmp_findShortestSeparator C ?us ul = Some t" "dom t" "length t \<le> length ?us"
    "if ord ?us ?ul < 0 then ord ?us t \<le> 0 \<and> ord t ?ul < 0 else t = ?us"
    using separator [OF ul(2) d(1)] unfolding ul(3) using d(2) by blast
  have cmp: "cmp_compare C u (Slice_string t) = Some (ord ?us t)"
    using compare_ord [OF u(2) slice_ok_string] u d t by simp
  show ?thesis
  proof (cases "length t < length s - 8 \<and> ord ?us t < 0")
    case False
    then have "internal_findShortestSeparator C s l = Some s"
      using u ul t cmp slice_toString_ok [OF u(2)]
      by (simp add: internal_findShortestSeparator_def)
    then show ?thesis using s internal_ord_le [of s s] d by simp
  next
    case True
    let ?r = "ikey t s_max_sequence_number s_value_type_for_seek"
    obtain tag where tag: "PackSequenceAndType s_max_sequence_number s_value_type_for_seek = Some tag"
      "PutFixed64 t tag = Some ?r" using seek_tag by blast
    have "t \<noteq> ?us" using True d(1) by auto
    then have lt: "ord ?us t < 0" "ord t ?ul < 0" "ord ?us ?ul < 0"
      using True t(4) by (auto split: if_splits)
    have r: "internal_dom dom ?r" "internal_ord ord s ?r < 0" "internal_ord ord ?r (sl_bytes l) < 0"
      using t(2) lt by (simp_all add: internal_ord_less)
    then have "internal_findShortestSeparator C s l = Some ?r"
      using u ul t(1) cmp slice_toString_ok [OF u(2)] True tag
        internal_compare_ok [OF slice_ok_string _ slice_ok_string] internal_compare_ok [OF slice_ok_string _ l dl] s
      by (simp add: internal_findShortestSeparator_def)
    moreover have "internal_ord ord s (sl_bytes l) < 0" using lt by (simp add: internal_ord_less)
    moreover have "length ?r \<le> length s" unfolding length_ikey using True by linarith
    ultimately show ?thesis using r by simp
  qed
qed

lemma internal_successor:
  assumes k: "internal_dom dom k"
  shows "\<exists>r. internal_findShortSuccessor C k = Some r \<and> internal_dom dom r \<and> length r \<le> length k
    \<and> internal_ord ord k r \<le> 0"
proof -
  let ?uk = "user_part k"
  have d: "dom ?uk" "8 \<le> length k" using k by (simp_all add: internal_dom_def)
  obtain u where u: "ExtractUserKey (Slice_string k) = Some u" "slice_ok u" "sl_bytes u = ?uk"
    "sl_size u = length k - 8"
    using ExtractUserKey_ok [OF slice_ok_string, of k] d by auto
  obtain t where t: "cmp_findShortSuccessor C ?uk = Some t" "dom t"
    using successor [OF d(1)] by auto
  have cmp: "cmp_compare C u (Slice_string t) = Some (ord ?uk t)"
    using compare_ord [OF u(2) slice_ok_string] u d t by simp
  show ?thesis
  proof (cases "length t < length k - 8 \<and> ord ?uk t < 0")
    case False
    then have "internal_findShortSuccessor C k = Some k"
      using u t cmp slice_toString_ok [OF u(2)] by (simp add: internal_findShortSuccessor_def)
    then show ?thesis using k internal_ord_le [of k k] d by simp
  next
    case True
    let ?r = "ikey t s_max_sequence_number s_value_type_for_seek"
    obtain tag where tag: "PackSequenceAndType s_max_sequence_number s_value_type_for_seek = Some tag"
      "PutFixed64 t tag = Some ?r" using seek_tag by blast
    have r: "internal_dom dom ?r" "internal_ord ord k ?r < 0"
      using t(2) True by (simp_all add: internal_ord_less)
    then have "internal_findShortSuccessor C k = Some ?r"
      using u t(1) cmp slice_toString_ok [OF u(2)] True tag
        internal_compare_ok [OF slice_ok_string _ slice_ok_string] k
      by (simp add: internal_findShortSuccessor_def)
    moreover have "length ?r \<le> length k" unfolding length_ikey using True by linarith
    ultimately show ?thesis using r by simp
  qed
qed

end

sublocale user_comparator \<subseteq>
  internal: comparator_contract "internal_comparator C" "internal_dom dom" "internal_ord ord"
proof
  fix a b :: slice
  assume "slice_ok a" "slice_ok b" "internal_dom dom (sl_bytes a)" "internal_dom dom (sl_bytes b)"
  then show "cmp_compare (internal_comparator C) a b = Some (internal_ord ord (sl_bytes a) (sl_bytes b))"
    by (simp add: internal_comparator_def internal_compare_ok)
next
  fix l s assume "slice_ok l" "internal_dom dom s" "internal_dom dom (sl_bytes l)"
  from internal_separator [OF this]
  show "\<exists>r. cmp_findShortestSeparator (internal_comparator C) s l = Some r \<and> internal_dom dom r
      \<and> length r \<le> length s
      \<and> (if internal_ord ord s (sl_bytes l) < 0
         then internal_ord ord s r \<le> 0 \<and> internal_ord ord r (sl_bytes l) < 0 else r = s)"
    by (simp add: internal_comparator_def)
next
  fix k assume "internal_dom dom k"
  from internal_successor [OF this]
  show "\<exists>r. cmp_findShortSuccessor (internal_comparator C) k = Some r \<and> internal_dom dom r
      \<and> length r \<le> length k \<and> internal_ord ord k r \<le> 0"
    by (simp add: internal_comparator_def)
next
  fix x y assume "internal_dom dom x" "internal_dom dom y"
  then show "sgn (internal_ord ord y x) = - sgn (internal_ord ord x y)" by (rule internal_ord_antisym)
next
  fix x y z
  assume "internal_dom dom x" "internal_dom dom y" "internal_dom dom z"
    "internal_ord ord x y \<le> 0" "internal_ord ord y z \<le> 0"
  then show "internal_ord ord x z \<le> 0" by (rule internal_ord_trans)
qed

interpretation ibytewise: user_comparator BytewiseComparator "\<lambda>_. True" lex_cmp
  by unfold_locales


section \<open>Parsing\<close>

definition parse_type :: "nat \<Rightarrow> ValueType" where
  "parse_type tag = value_type_of (word_of_nat (tag mod 256))"

lemma ucast_and_255: "(ucast ((w::u64) AND 0xff) :: byte) = word_of_nat (unat w mod 256)"
proof -
  have "w AND 0xff = take_bit 8 w" by (simp add: take_bit_eq_mask mask_eq_exp_minus_1)
  then have "unat (w AND 0xff) = unat w mod 256" by (simp add: unat_take_bit_word del: take_bit_eq_mod)
  then show ?thesis by (simp only: ucast_byte)
qed

lemma parse_type_le:
  "(word_of_nat (tag mod 256) :: byte) \<le> value_type_num TypeValue \<longleftrightarrow> parse_type tag \<in> {TypeValue, TypeDeletion}"
proof -
  let ?c = "word_of_nat (tag mod 256) :: byte"
  have "?c \<le> 1 \<longleftrightarrow> ?c = 0 \<or> ?c = 1" by (auto simp: word_le_nat_alt word_unat_eq_iff le_Suc_eq)
  then show ?thesis by (auto simp: parse_type_def value_type_of_def)
qed

lemma ParseInternalKey_ok:
  assumes "slice_ok k" "8 \<le> sl_size k"
  shows "\<exists>p. ParseInternalKey k p0 = Some (p, parse_type (tag_part (sl_bytes k)) \<in> {TypeValue, TypeDeletion})
    \<and> slice_ok (pik_user_key p) \<and> sl_bytes (pik_user_key p) = user_part (sl_bytes k)
    \<and> unat (pik_sequence p) = tag_part (sl_bytes k) div 256
    \<and> pik_type p = parse_type (tag_part (sl_bytes k))"
proof -
  obtain w where w: "DecodeFixed64 (sl_mem k) (sl_off k + sl_size k - 8) = Some w"
    "unat w = tag_part (sl_bytes k)" using decode_tag [OF assms] by blast
  have sq: "unat (drop_bit 8 w) = tag_part (sl_bytes k) div 256"
    using unat_drop_bit [of 8 w] w(2) by simp
  have c: "(ucast (w AND 0xff) :: byte) = word_of_nat (tag_part (sl_bytes k) mod 256)"
    using ucast_and_255 [of w] w(2) by simp
  have n: "\<not> sl_size k < 8" using assms(2) by simp
  have u: "slice_ok (Slice_ptr (sl_mem k) (sl_off k) (sl_size k - 8))"
    "sl_bytes (Slice_ptr (sl_mem k) (sl_off k) (sl_size k - 8)) = user_part (sl_bytes k)"
    using slice_prefix [OF assms(1), of "sl_size k - 8"] assms by (simp_all add: user_part_def)
  have "ParseInternalKey k p0 = Some (\<lparr>pik_user_key = Slice_ptr (sl_mem k) (sl_off k) (sl_size k - 8),
      pik_sequence = drop_bit 8 w, pik_type = parse_type (tag_part (sl_bytes k)), \<dots> = ParsedInternalKey.more p0\<rparr>,
      parse_type (tag_part (sl_bytes k)) \<in> {TypeValue, TypeDeletion})"
    unfolding ParseInternalKey_def Let_def w(1) if_not_P [OF n] Option.bind.bind_lunit c parse_type_le
    by (simp add: parse_type_def)
  then show ?thesis using u sq by simp
qed

lemma parse_tag_of:
  assumes "good_entry seq t"
  shows "tag_of seq t div 256 = unat seq" "parse_type (tag_of seq t) = t"
proof -
  note b = good_entry_bound [OF assms]
  show "tag_of seq t div 256 = unat seq" using b by (simp add: tag_of_def)
  have "tag_of seq t mod 256 = unat (value_type_num t)" using b by (simp add: tag_of_def)
  then show "parse_type (tag_of seq t) = t" using assms
    by (auto simp: parse_type_def value_type_of_def good_entry_def)
qed


section \<open>The lookup key\<close>

lemma LookupKey_new_ok:
  assumes ok: "slice_ok k" and seq: "seq \<le> s_max_sequence_number"
  defines "vb \<equiv> varint_bytes ((sl_size k + 8) mod 2 ^ 32)"
  shows "\<exists>lk post. LookupKey_new junk k seq = Some lk \<and> lk_heap lk = (200 < sl_size k + 13)
    \<and> lk_buf lk = vb @ ikey (sl_bytes k) seq TypeValue @ post
    \<and> length (lk_buf lk) = (if lk_heap lk then sl_size k + 13 else 200)
    \<and> lk_start lk = 0 \<and> lk_key_start lk = length vb \<and> lk_end lk = length vb + sl_size k + 8"
proof -
  define n where "n = (if \<not> sl_size k + 13 \<le> 200 then sl_size k + 13 else 200)"
  have n: "sl_size k + 13 \<le> n" by (simp add: n_def)
  let ?b = "lookup_buffer junk n"
  have len: "length ?b = n" by (simp add: lookup_buffer_def)
  have v: "unat (word_of_nat (sl_size k + 8) :: u32) = (sl_size k + 8) mod 2 ^ 32"
    by (simp only: unat_of_nat) simp
  have vb: "vb = varint_bytes (unat (word_of_nat (sl_size k + 8) :: u32))" by (simp only: vb_def v)
  have lvb: "length vb \<le> 5" unfolding vb using unat_u32_varint by (intro length_varint_bytes_le) auto
  have fits: "0 + (length vb + (sl_size k + 8)) \<le> length ?b" using n len lvb by simp
  obtain old post where b: "?b = old @ post" "length old = length vb + (sl_size k + 8)"
    using split_block [OF fits] by (metis append_Nil length_0_conv)
  obtain o1 o2 o3 where old: "old = o1 @ o2 @ o3" "length o1 = length vb" "length o2 = sl_size k"
    "length o3 = 8"
  proof
    show "old = take (length vb) old @ take (sl_size k) (drop (length vb) old)
        @ drop (length vb + sl_size k) old"
      by (metis add.commute append_take_drop_id drop_drop)
  qed (use b(2) in auto)
  have u: "load_range (sl_mem k) (sl_off k) (sl_size k) = Some (sl_bytes k)"
    using slice_toString_ok [OF ok] by (simp add: slice_toString_def)
  obtain tag where tag: "PackSequenceAndType seq s_value_type_for_seek = Some tag"
    "unat tag = tag_of seq TypeValue"
    using Pack_ok [of seq s_value_type_for_seek] seq by (auto simp: s_value_type_for_seek_def good_entry_def)
  have e1: "EncodeVarint32 ?b 0 (word_of_nat (sl_size k + 8)) = Some (vb @ o2 @ o3 @ post, length vb)"
    unfolding EncodeVarint32_seq vb [symmetric]
    using store_seq_append [of o1 vb "[]" "o2 @ o3 @ post"] old b by simp
  have e2: "store_range (vb @ o2 @ o3 @ post) (length vb) (sl_bytes k) = Some (vb @ sl_bytes k @ o3 @ post)"
    using store_range_append [of o2 "sl_bytes k" vb "o3 @ post"] old ok by simp
  have e3: "EncodeFixed64 (vb @ sl_bytes k @ o3 @ post) (length vb + sl_size k) tag =
      Some (vb @ ikey (sl_bytes k) seq TypeValue @ post)"
    using EncodeFixed64_append [of o3 "vb @ sl_bytes k" post tag] old ok tag by (simp add: ikey_def)
  have buf: "lookup_buffer junk (if \<not> sl_size k + 13 \<le> 200 then sl_size k + 13 else 200) = ?b"
    unfolding n_def ..
  have new: "LookupKey_new junk k seq = Some \<lparr>lk_buf = vb @ ikey (sl_bytes k) seq TypeValue @ post,
      lk_heap = (\<not> sl_size k + 13 \<le> 200), lk_start = 0, lk_key_start = length vb,
      lk_end = length vb + sl_size k + 8\<rparr>"
    unfolding LookupKey_new_def Let_def buf e1 using u e2 e3 tag(1) by simp
  have "length (vb @ ikey (sl_bytes k) seq TypeValue @ post) = n"
    using len b(2) ok arg_cong [OF b(1), of length] by simp
  then show ?thesis unfolding new n_def by (auto split: if_splits)
qed

lemma LookupKey_slices:
  assumes ok: "slice_ok k" and seq: "seq \<le> s_max_sequence_number"
  shows "\<exists>lk. LookupKey_new junk k seq = Some lk \<and> lk_heap lk = (200 < sl_size k + 13)
    \<and> length (lk_buf lk) = (if lk_heap lk then sl_size k + 13 else 200)
    \<and> slice_ok (memtableKey lk) \<and> slice_ok (internalKey lk) \<and> slice_ok (lk_userKey lk)
    \<and> sl_bytes (memtableKey lk) =
        varint_bytes ((sl_size k + 8) mod 2 ^ 32) @ ikey (sl_bytes k) seq TypeValue
    \<and> sl_bytes (internalKey lk) = ikey (sl_bytes k) seq TypeValue
    \<and> sl_bytes (lk_userKey lk) = sl_bytes k"
proof -
  obtain lk post where lk: "LookupKey_new junk k seq = Some lk" "lk_heap lk = (200 < sl_size k + 13)"
    "lk_buf lk = varint_bytes ((sl_size k + 8) mod 2 ^ 32) @ ikey (sl_bytes k) seq TypeValue @ post"
    "length (lk_buf lk) = (if lk_heap lk then sl_size k + 13 else 200)"
    "lk_start lk = 0" "lk_key_start lk = length (varint_bytes ((sl_size k + 8) mod 2 ^ 32))"
    "lk_end lk = length (varint_bytes ((sl_size k + 8) mod 2 ^ 32)) + sl_size k + 8"
    using LookupKey_new_ok [OF assms] by blast
  have len: "length (ikey (sl_bytes k) seq TypeValue) = sl_size k + 8" using ok by simp
  have u: "take (sl_size k) (ikey (sl_bytes k) seq TypeValue @ post) = sl_bytes k"
    using ok by (simp add: ikey_def)
  show ?thesis
    by (rule exI [of _ lk])
      (use lk(1,2,4) len u in \<open>simp add: memtableKey_def internalKey_def lk_userKey_def
        slice_ok_def sl_bytes_ptr lk(3,5-7)\<close>, simp add: Slice_ptr_def lk(3))
qed


section \<open>Properties\<close>

text \<open>
  C26 (src/database/db_format.h and db_format.cc, \<open>AppendInternalKey\<close> and
  \<open>ParseInternalKey\<close>). Appending an internal key to any string adds exactly
  \<open>InternalKeyEncodingLength\<close> bytes, which parse back to the same user key, sequence number
  and type; it aborts exactly when the sequence number needs more than 56 bits or the type
  is not one of the two enumerators.
\<close>

theorem internal_key_roundtrip:
  assumes "slice_ok (pik_user_key p)"
  shows "if pik_sequence p \<le> s_max_sequence_number \<and> pik_type p \<in> {TypeValue, TypeDeletion}
    then \<exists>t q. AppendInternalKey r p = Some t
      \<and> length t = length r + InternalKeyEncodingLength p
      \<and> ParseInternalKey (Slice_ptr t (length r) (length t - length r)) p0 = Some (q, True)
      \<and> sl_bytes (pik_user_key q) = sl_bytes (pik_user_key p)
      \<and> pik_sequence q = pik_sequence p \<and> pik_type q = pik_type p
    else AppendInternalKey r p = None"
proof (cases "good_entry (pik_sequence p) (pik_type p)")
  case good: True
  let ?k = "ikey (sl_bytes (pik_user_key p)) (pik_sequence p) (pik_type p)"
  let ?s = "Slice_ptr (r @ ?k) (length r) (length (r @ ?k) - length r)"
  have s: "slice_ok ?s" "sl_bytes ?s = ?k" "8 \<le> sl_size ?s"
    by (simp_all add: slice_ok_ptr sl_bytes_ptr) (simp add: Slice_ptr_def)
  have ty: "pik_type p \<in> {TypeValue, TypeDeletion}" using good by (simp add: good_entry_def)
  obtain q where q: "ParseInternalKey ?s p0 = Some (q, True)"
    "sl_bytes (pik_user_key q) = sl_bytes (pik_user_key p)"
    "unat (pik_sequence q) = unat (pik_sequence p)" "pik_type q = pik_type p"
    using ParseInternalKey_ok [OF s(1,3), of p0] ty
    unfolding s(2) ikey_parts [OF good] parse_tag_of [OF good] by auto
  have t: "AppendInternalKey r p = Some (r @ ?k)" using good assms by (simp add: AppendInternalKey_bytes)
  have len: "length (r @ ?k) = length r + InternalKeyEncodingLength p"
    using assms by (simp add: InternalKeyEncodingLength_def)
  show ?thesis using good q t len by (auto simp: good_entry_def word_unat_eq_iff)
next
  case False
  then show ?thesis using assms by (auto simp: AppendInternalKey_bytes good_entry_def)
qed

theorem internal_key_roundtrip_witness:
  "\<exists>t q. AppendInternalKey [9] \<lparr>pik_user_key = Slice_string [1, 2], pik_sequence = 300, pik_type = TypeDeletion\<rparr>
      = Some t \<and> length t = 11
    \<and> ParseInternalKey (Slice_ptr t 1 10)
        \<lparr>pik_user_key = Slice_empty, pik_sequence = 0, pik_type = TypeValue\<rparr> = Some (q, True)
    \<and> pik_sequence q = 300 \<and> pik_type q = TypeDeletion"
proof -
  have "(300 :: u64) \<le> s_max_sequence_number" by code_simp
  then show ?thesis
    using internal_key_roundtrip [of "\<lparr>pik_user_key = Slice_string [1, 2], pik_sequence = 300,
        pik_type = TypeDeletion\<rparr>" "[9]" "\<lparr>pik_user_key = Slice_empty, pik_sequence = 0, pik_type = TypeValue\<rparr>"]
    by (force simp: InternalKeyEncodingLength_def)
qed

text \<open>
  C27 (src/database/db_format.h, \<open>ParseInternalKey\<close>). On any slice that lies in its block
  parsing reads nothing outside it and does not abort. A slice of fewer than eight bytes is
  refused and the result left as it was; of a longer one, the result holds the bytes before
  the last eight, and the number in the last eight without and with its low byte; the
  function accepts it exactly when that low byte is one of the two enumerators.
\<close>

theorem ParseInternalKey_any_input:
  assumes "slice_ok k"
  shows "if sl_size k < 8 then ParseInternalKey k p0 = Some (p0, False)
    else \<exists>p. ParseInternalKey k p0 = Some (p, pik_type p \<in> {TypeValue, TypeDeletion})
      \<and> slice_ok (pik_user_key p) \<and> sl_bytes (pik_user_key p) = take (sl_size k - 8) (sl_bytes k)
      \<and> unat (pik_sequence p) = le_value (drop (sl_size k - 8) (sl_bytes k)) div 256
      \<and> unat (value_type_num (pik_type p)) = le_value (drop (sl_size k - 8) (sl_bytes k)) mod 256"
proof (cases "sl_size k < 8")
  case True
  then show ?thesis by (simp add: ParseInternalKey_def)
next
  case False
  have num: "unat (value_type_num (parse_type n)) = n mod 256" for n
  proof -
    have "value_type_num (parse_type n) = word_of_nat (n mod 256)"
      by (simp add: parse_type_def value_type_of_def)
    then show ?thesis by (simp only: unat_of_nat) simp
  qed
  show ?thesis using ParseInternalKey_ok [OF assms, of p0] False assms
    by (auto simp: user_part_def tag_part_def num)
qed

theorem ParseInternalKey_any_input_witness:
  "\<exists>p. ParseInternalKey (Slice_string [5, 7, 1, 0, 0, 0, 0, 0, 0])
      \<lparr>pik_user_key = Slice_empty, pik_sequence = 0, pik_type = TypeValue\<rparr>
      = Some (p, pik_type p \<in> {TypeValue, TypeDeletion}) \<and> unat (value_type_num (pik_type p)) = 7"
  using ParseInternalKey_any_input [OF slice_ok_string, of "[5, 7, 1, 0, 0, 0, 0, 0, 0]"
      "\<lparr>pik_user_key = Slice_empty, pik_sequence = 0, pik_type = TypeValue\<rparr>"]
  by auto


text \<open>
  C28 (src/database/db_format.cc, \<open>InternalKeyComparator::compare\<close> over the byte-wise
  comparator). On any two internal keys the comparison does not abort and its sign orders
  them by user key ascending; under one user key by sequence number descending, and under
  one sequence number the value before the deletion.
\<close>

theorem internal_compare_order:
  assumes "good_entry s1 t1" "good_entry s2 t2"
  shows "\<exists>r. internal_compare_keys BytewiseComparator (ikey u1 s1 t1) (ikey u2 s2 t2) = Some r
    \<and> (r < 0 \<longleftrightarrow> lex_cmp u1 u2 < 0
        \<or> u1 = u2 \<and> (s2 < s1 \<or> s1 = s2 \<and> t1 = TypeValue \<and> t2 = TypeDeletion))
    \<and> (r = 0 \<longleftrightarrow> u1 = u2 \<and> s1 = s2 \<and> t1 = t2)"
proof -
  have ne: "ikey u1 s1 t1 \<noteq> []" "ikey u2 s2 t2 \<noteq> []"
    using length_ikey [of u1 s1 t1] length_ikey [of u2 s2 t2] by (metis add_is_0 list.size(3) zero_neq_numeral)+
  have cmp: "internal_compare BytewiseComparator (Slice_string (ikey u1 s1 t1)) (Slice_string (ikey u2 s2 t2))
      = Some (internal_ord lex_cmp (ikey u1 s1 t1) (ikey u2 s2 t2))"
    using ibytewise.internal_compare_ok [OF slice_ok_string _ slice_ok_string] assms by simp
  note b = good_entry_bound [OF assms(1)] good_entry_bound [OF assms(2)]
  have less: "tag_of s2 t2 < tag_of s1 t1 \<longleftrightarrow> s2 < s1 \<or> s1 = s2 \<and> t1 = TypeValue \<and> t2 = TypeDeletion"
    using assms b by (auto simp: tag_of_def good_entry_def word_less_nat_alt word_unat_eq_iff)
  have eq: "tag_of s1 t1 = tag_of s2 t2 \<longleftrightarrow> s1 = s2 \<and> t1 = t2"
    using parse_tag_of [OF assms(1)] parse_tag_of [OF assms(2)] by (metis word_unat_eq_iff)
  show ?thesis
    using ne cmp assms less eq
    by (auto simp: internal_compare_keys_def ik_encode_def internal_ord_def Let_def)
qed

theorem internal_compare_order_witness:
  "\<exists>r. internal_compare_keys BytewiseComparator (ikey [4] 9 TypeDeletion) (ikey [4] 8 TypeValue) = Some r \<and> r < 0"
proof -
  have "good_entry 9 TypeDeletion" "good_entry 8 TypeValue"
    unfolding good_entry_def max_sequence_value by simp_all
  from internal_compare_order [OF this, of "[4]" "[4]"] show ?thesis by force
qed

text \<open>
  C13 (src/database/db_format.cc, \<open>InternalKeyComparator::findShortestSeparator\<close> over the
  byte-wise comparator). For two internal keys of at least eight bytes the function does not
  abort (its own assertions and those of the calls hold), the result is an internal key that
  is not longer than \<open>start\<close>, and if \<open>start\<close> is before \<open>limit\<close> it is not before \<open>start\<close> and
  before \<open>limit\<close>; otherwise it is \<open>start\<close>. A shorter key than eight bytes aborts.
\<close>

theorem internal_separator_correct:
  assumes "slice_ok limit"
  shows "if 8 \<le> length start \<and> 8 \<le> sl_size limit
    then \<exists>r. internal_findShortestSeparator BytewiseComparator start limit = Some r
      \<and> 8 \<le> length r \<and> length r \<le> length start
      \<and> (if internal_ord lex_cmp start (sl_bytes limit) < 0
         then internal_ord lex_cmp start r \<le> 0 \<and> internal_ord lex_cmp r (sl_bytes limit) < 0
         else r = start)
    else internal_findShortestSeparator BytewiseComparator start limit = None"
proof (cases "8 \<le> length start \<and> 8 \<le> sl_size limit")
  case True
  then show ?thesis using ibytewise.internal_separator [OF assms, of start] assms
    by (auto simp: internal_dom_def)
next
  case False
  then show ?thesis
    by (cases "8 \<le> length start") (simp_all add: internal_findShortestSeparator_def ExtractUserKey_def)
qed

theorem internal_separator_correct_witness:
  "\<exists>r. internal_findShortestSeparator BytewiseComparator (ikey [1, 1, 1] 5 TypeValue)
      (Slice_string (ikey [3] 6 TypeValue)) = Some r
    \<and> length r \<le> 11 \<and> internal_ord lex_cmp r (ikey [3] 6 TypeValue) < 0"
proof -
  have "good_entry 5 TypeValue" "good_entry 6 TypeValue"
    unfolding good_entry_def max_sequence_value by simp_all
  then have "internal_ord lex_cmp (ikey [1, 1, 1] 5 TypeValue) (ikey [3] 6 TypeValue) < 0"
    by (simp add: internal_ord_def)
  then show ?thesis
    using internal_separator_correct [OF slice_ok_string, of "ikey [1, 1, 1] 5 TypeValue" "ikey [3] 6 TypeValue"]
    by auto
qed

text \<open>
  C29 (src/database/db_format.cc, the constructor of \<open>LookupKey\<close>). For a user key below
  4 GB and a sequence number of 56 bits: no assertion fails and every byte is written inside
  the buffer, which is the 200 bytes of the object exactly for user keys of at most 187
  bytes (then the destructor frees nothing) and a heap block of \<open>size + 13\<close> otherwise. The
  three views are the user key, the internal key with the type used to seek, and the entry
  key of the memtable, which decodes to the internal key with nothing left over. What the
  buffer held before has no influence.
\<close>

theorem LookupKey_correct:
  assumes "slice_ok k" "seq \<le> s_max_sequence_number" "sl_size k + 8 < 2 ^ 32"
  shows "\<exists>lk. LookupKey_new junk k seq = Some lk
    \<and> slice_ok (memtableKey lk) \<and> slice_ok (internalKey lk) \<and> slice_ok (lk_userKey lk)
    \<and> sl_bytes (lk_userKey lk) = sl_bytes k
    \<and> InternalKey_new k seq s_value_type_for_seek = Some (sl_bytes (internalKey lk))
    \<and> (\<exists>rest e. GetLengthPrefixedSlice (memtableKey lk) = Some (rest, Some e)
        \<and> sl_bytes e = sl_bytes (internalKey lk) \<and> sl_bytes rest = [])
    \<and> (if sl_size k \<le> 187 then length (lk_buf lk) = 200 \<and> LookupKey_delete lk = []
       else length (lk_buf lk) = sl_size k + 13 \<and> LookupKey_delete lk = [lk_buf lk])"
proof -
  obtain lk where lk: "LookupKey_new junk k seq = Some lk" "lk_heap lk = (200 < sl_size k + 13)"
    "length (lk_buf lk) = (if lk_heap lk then sl_size k + 13 else 200)"
    "slice_ok (memtableKey lk)" "slice_ok (internalKey lk)" "slice_ok (lk_userKey lk)"
    "sl_bytes (memtableKey lk) = varint_bytes ((sl_size k + 8) mod 2 ^ 32) @ ikey (sl_bytes k) seq TypeValue"
    "sl_bytes (internalKey lk) = ikey (sl_bytes k) seq TypeValue" "sl_bytes (lk_userKey lk) = sl_bytes k"
    using LookupKey_slices [OF assms(1,2)] by blast
  have len: "length (ikey (sl_bytes k) seq TypeValue) = sl_size k + 8" using assms(1) by simp
  have "sl_bytes (memtableKey lk) = varint_bytes (length (ikey (sl_bytes k) seq TypeValue))
      @ ikey (sl_bytes k) seq TypeValue @ []" using lk(7) assms(3) len by simp
  from GetLengthPrefixedSlice_ok [OF lk(4) this]
  have "\<exists>rest e. GetLengthPrefixedSlice (memtableKey lk) = Some (rest, Some e)
      \<and> sl_bytes e = ikey (sl_bytes k) seq TypeValue \<and> sl_bytes rest = []"
    using assms(3) unfolding len by blast
  moreover have "InternalKey_new k seq s_value_type_for_seek = Some (ikey (sl_bytes k) seq TypeValue)"
    using assms(1,2)
    by (simp add: InternalKey_new_def ParsedInternalKey_new_def AppendInternalKey_bytes s_value_type_for_seek_def good_entry_def)
  ultimately show ?thesis using lk by (auto simp: LookupKey_delete_def split: if_splits)
qed

theorem LookupKey_correct_witness:
  "\<exists>lk. LookupKey_new (\<lambda>_. 0xcd) (Slice_string [1, 2, 3]) 77 = Some lk
    \<and> sl_bytes (lk_userKey lk) = [1, 2, 3] \<and> length (lk_buf lk) = 200 \<and> LookupKey_delete lk = []"
proof -
  have "(77 :: u64) \<le> s_max_sequence_number" unfolding max_sequence_value by simp
  then show ?thesis
    using LookupKey_correct [OF slice_ok_string, of 77 "[1, 2, 3]" "\<lambda>_. 0xcd"] by auto
qed

text \<open>
  C12 (src/database/db_format.h, \<open>LookupKey\<close> and \<open>InternalKeyComparator\<close>). A lookup of user
  key \<open>u\<close> at sequence number \<open>seq\<close> seeks to the newest entry it may see. In the order of
  the internal comparator, its internal key is before or at the internal key of an entry
  exactly when the entry has a user key after \<open>u\<close>, or is one of \<open>u\<close> itself with a sequence
  number up to \<open>seq\<close>; so every entry of a smaller user key and every newer entry of \<open>u\<close> lies
  before it.
\<close>

theorem lookup_sees_snapshot:
  assumes "slice_ok k" "seq \<le> s_max_sequence_number" "good_entry s t"
    and lk: "LookupKey_new junk k seq = Some lk"
  shows "\<exists>r. internal_compare BytewiseComparator (internalKey lk) (Slice_string (ikey u s t)) = Some r
    \<and> (r \<le> 0 \<longleftrightarrow> lex_cmp (sl_bytes k) u < 0 \<or> u = sl_bytes k \<and> s \<le> seq)"
proof -
  have ik: "slice_ok (internalKey lk)" "sl_bytes (internalKey lk) = ikey (sl_bytes k) seq TypeValue"
    using LookupKey_slices [OF assms(1,2), of junk] lk by auto
  have good: "good_entry seq TypeValue" using assms(2) by (simp add: good_entry_def)
  have "tag_of s t \<le> tag_of seq TypeValue \<longleftrightarrow> s \<le> seq"
    using good_entry_bound [OF assms(3)] by (auto simp: tag_of_def word_le_nat_alt)
  then show ?thesis
    using ibytewise.internal_compare_ok [OF ik(1) _ slice_ok_string, of "ikey u s t"] ik(2) good assms(3)
    by (auto simp: ibytewise.internal_ord_le)
qed

theorem lookup_sees_snapshot_witness:
  "\<exists>lk r. LookupKey_new (\<lambda>_. 0) (Slice_string [6]) 10 = Some lk
    \<and> internal_compare BytewiseComparator (internalKey lk) (Slice_string (ikey [6] 11 TypeValue)) = Some r \<and> 0 < r"
proof -
  have s: "(10 :: u64) \<le> s_max_sequence_number" "good_entry 11 TypeValue"
    unfolding max_sequence_value good_entry_def by simp_all
  obtain lk where lk: "LookupKey_new (\<lambda>_. 0) (Slice_string [6]) 10 = Some lk"
    using LookupKey_slices [OF slice_ok_string s(1)] by blast
  from lookup_sees_snapshot [OF slice_ok_string s lk, of "[6]"] lk show ?thesis by (force simp: not_le)
qed


section \<open>The filter policy adapter\<close>

lemma extract_keys_loop_ok:
  assumes "length ks = n" "i \<le> n" "\<forall>j < n. i \<le> j \<longrightarrow> slice_ok (ks ! j) \<and> 8 \<le> sl_size (ks ! j)"
  shows "extract_keys_loop ks n i = Some (take i ks @ map (the \<circ> ExtractUserKey) (drop i ks))"
  using assms
proof (induction "n - i" arbitrary: ks i)
  case 0
  then show ?case by (simp add: extract_keys_loop.simps [of ks])
next
  case (Suc d)
  then have i: "i < n" by simp
  then obtain u where u: "ExtractUserKey (ks ! i) = Some u"
    using ExtractUserKey_ok [of "ks ! i"] Suc.prems(3) by auto
  have "extract_keys_loop (ks[i := u]) n (i + 1) =
      Some (take (i + 1) (ks[i := u]) @ map (the \<circ> ExtractUserKey) (drop (i + 1) (ks[i := u])))"
    by (rule Suc.hyps(1)) (use Suc.hyps(2) Suc.prems i in auto)
  moreover have "extract_keys_loop ks n i = extract_keys_loop (ks[i := u]) n (i + 1)"
    using i u Suc.prems(1) by (simp add: extract_keys_loop.simps [of ks])
  moreover have "drop i ks = ks ! i # drop (Suc i) ks"
    using i Suc.prems(1) by (simp add: Cons_nth_drop_Suc)
  ultimately show ?case using i u Suc.prems(1) by (simp add: take_Suc_conv_app_nth)
qed

text \<open>
  C30 (src/database/db_format.cc, \<open>InternalFilterPolicy\<close>). When the policy of the user gives
  no false negatives (the documented duty of a filter policy: what \<open>createFilter\<close> appends
  accepts every key it was made from), neither does the adapter: every internal key with the
  user key of some key given to \<open>createFilter\<close>, under any sequence number and type, may
  match. The caller's array of keys is overwritten with the user keys.
\<close>

theorem internal_filter_no_false_negative:
  assumes policy: "\<And>ks dst. \<forall>k \<in> set ks. slice_ok k \<Longrightarrow> \<exists>f. fp_createFilter P ks dst = Some (dst @ f)
      \<and> (\<forall>k k'. k \<in> set ks \<longrightarrow> slice_ok k' \<longrightarrow> sl_bytes k' = sl_bytes k
          \<longrightarrow> fp_keyMayMatch P k' (Slice_string f) = Some True)"
    and keys: "\<forall>k \<in> set keys. slice_ok k \<and> 8 \<le> sl_size k"
  shows "\<exists>ukeys f. internal_createFilter P keys dst = Some (ukeys, dst @ f)
    \<and> map sl_bytes ukeys = map (user_part \<circ> sl_bytes) keys
    \<and> (\<forall>k \<in> set keys. \<forall>k'. slice_ok k' \<longrightarrow> 8 \<le> sl_size k' \<longrightarrow>
        user_part (sl_bytes k') = user_part (sl_bytes k) \<longrightarrow>
        internal_keyMayMatch P k' (Slice_string f) = Some True)"
proof -
  let ?u = "map (the \<circ> ExtractUserKey) keys"
  have ex: "slice_ok (the (ExtractUserKey k)) \<and> sl_bytes (the (ExtractUserKey k)) = user_part (sl_bytes k)"
    if "k \<in> set keys" for k using ExtractUserKey_ok [of k] keys that by auto
  have "extract_keys_loop keys (length keys) 0 = Some ?u"
    using extract_keys_loop_ok [OF refl, of 0 keys] keys by simp
  moreover obtain f where f: "fp_createFilter P ?u dst = Some (dst @ f)"
    "\<forall>k k'. k \<in> set ?u \<longrightarrow> slice_ok k' \<longrightarrow> sl_bytes k' = sl_bytes k
      \<longrightarrow> fp_keyMayMatch P k' (Slice_string f) = Some True"
  proof -
    have "\<forall>k \<in> set ?u. slice_ok k" using ex by (simp add: ball_simps)
    from policy [OF this] that show thesis by blast
  qed
  ultimately have "internal_createFilter P keys dst = Some (?u, dst @ f)"
    by (simp add: internal_createFilter_def)
  moreover have "map sl_bytes ?u = map (user_part \<circ> sl_bytes) keys" using ex by simp
  moreover have "internal_keyMayMatch P k' (Slice_string f) = Some True"
    if k: "k \<in> set keys" and k': "slice_ok k'" "8 \<le> sl_size k'"
      "user_part (sl_bytes k') = user_part (sl_bytes k)" for k k'
  proof -
    obtain u' where u': "ExtractUserKey k' = Some u'" "slice_ok u'"
      "sl_bytes u' = user_part (sl_bytes k')" using ExtractUserKey_ok [OF k'(1,2)] by auto
    have "the (ExtractUserKey k) \<in> set ?u" using k by simp
    then show ?thesis using f(2) u' ex [OF k] k'(3) by (simp add: internal_keyMayMatch_def del: set_map)
  qed
  ultimately show ?thesis by blast
qed

text \<open>A concrete policy: the filter is the list of the lengths of the keys, in one byte each.\<close>

definition length_policy :: filter_policy where
  "length_policy = \<lparr>fp_name = ''lengths'',
     fp_createFilter = (\<lambda>ks dst. Some (dst @ map (\<lambda>k. word_of_nat (length (sl_bytes k))) ks)),
     fp_keyMayMatch = (\<lambda>k f. Some (word_of_nat (length (sl_bytes k)) \<in> set (sl_bytes f)))\<rparr>"

theorem internal_filter_no_false_negative_witness:
  "\<exists>ukeys f. internal_createFilter length_policy [Slice_string (ikey [1, 2] 3 TypeValue)] [9] =
      Some (ukeys, [9] @ f)
    \<and> internal_keyMayMatch length_policy (Slice_string (ikey [1, 2] 4 TypeDeletion)) (Slice_string f) = Some True"
proof -
  have g: "good_entry 3 TypeValue" "good_entry 4 TypeDeletion"
    unfolding good_entry_def max_sequence_value by simp_all
  have "\<exists>ukeys f. internal_createFilter length_policy [Slice_string (ikey [1, 2] 3 TypeValue)] [9] =
      Some (ukeys, [9] @ f)
    \<and> map sl_bytes ukeys = map (user_part \<circ> sl_bytes) [Slice_string (ikey [1, 2] 3 TypeValue)]
    \<and> (\<forall>k \<in> set [Slice_string (ikey [1, 2] 3 TypeValue)]. \<forall>k'. slice_ok k' \<longrightarrow> 8 \<le> sl_size k' \<longrightarrow>
        user_part (sl_bytes k') = user_part (sl_bytes k) \<longrightarrow>
        internal_keyMayMatch length_policy k' (Slice_string f) = Some True)"
    by (rule internal_filter_no_false_negative) (auto simp: length_policy_def)
  then show ?thesis using g by force
qed

end
