(* ===== verification/KV_Arena.thy ===== *)
theory KV_Arena
  imports KV_Prelude
begin

text \<open>
  The allocator \<open>Arena\<close> of src/util/arena.h and arena.cc. Addresses and sizes are natural
  numbers below \<open>2 ^ 64\<close>; where the code can compute past the width of \<open>size_t\<close>, the
  wrap-around is written out. \<open>new char[n]\<close> is the parameter \<open>os\<close>: given the blocks that are
  live, the address of a new block, or \<open>None\<close> for the exception that ends the program.
  \<open>good_new\<close> is what the C++ standard promises of it.

  \<open>arena_inv A R\<close> says that the regions \<open>R\<close> handed out so far lie in the blocks, do not
  overlap one another or the free part, and that the accounting is right. It is the
  invariant of the interface \<open>region_allocator\<close>, which both ways to allocate satisfy.
\<close>

unbundle bit_operations_syntax

section \<open>The class\<close>

type_synonym region = "nat \<times> nat"  \<comment> \<open>address and size\<close>
type_synonym os = "region list \<Rightarrow> nat \<Rightarrow> nat option"

record arena =
  alloc_ptr :: nat
  alloc_bytes_remaining :: nat
  blocks :: "region list"
  memory_usage :: nat

definition kBlockSize :: nat where "kBlockSize = 4096"

definition Arena_new :: arena where
  "Arena_new = \<lparr>alloc_ptr = 0, alloc_bytes_remaining = 0, blocks = [], memory_usage = 0\<rparr>"

text \<open>The blocks that the destructor passes to \<open>delete[]\<close>, in order.\<close>

definition Arena_delete :: "arena \<Rightarrow> nat list" where
  "Arena_delete A = map fst (blocks A)"

definition memoryUsage :: "arena \<Rightarrow> nat" where
  "memoryUsage A = memory_usage A"

definition allocateNewBlock :: "os \<Rightarrow> arena \<Rightarrow> nat \<Rightarrow> (nat \<times> arena) option" where
  "allocateNewBlock os A block_bytes = do {
     res \<leftarrow> os (blocks A) block_bytes;
     let A = A\<lparr>blocks := blocks A @ [(res, block_bytes)]\<rparr>;
     let A = A\<lparr>memory_usage := (memory_usage A + (block_bytes + 8)) mod 2 ^ 64\<rparr>;
     Some (res, A) }"

definition allocateFallback :: "os \<Rightarrow> arena \<Rightarrow> nat \<Rightarrow> (nat \<times> arena) option" where
  "allocateFallback os A bytes =
     (if bytes > kBlockSize div 4 then allocateNewBlock os A bytes
      else do {
        (ptr, A) \<leftarrow> allocateNewBlock os A kBlockSize;
        let A = A\<lparr>alloc_ptr := ptr\<rparr>;
        let A = A\<lparr>alloc_bytes_remaining := kBlockSize\<rparr>;
        let result = alloc_ptr A;
        let A = A\<lparr>alloc_ptr := alloc_ptr A + bytes\<rparr>;
        let A = A\<lparr>alloc_bytes_remaining := alloc_bytes_remaining A - bytes\<rparr>;
        Some (result, A) })"

definition allocate :: "os \<Rightarrow> arena \<Rightarrow> nat \<Rightarrow> (nat \<times> arena) option" where
  "allocate os A bytes = do {
     _ \<leftarrow> cassert (bytes > 0);
     (if bytes \<le> alloc_bytes_remaining A then do {
        let res = alloc_ptr A;
        let A = A\<lparr>alloc_ptr := alloc_ptr A + bytes\<rparr>;
        let A = A\<lparr>alloc_bytes_remaining := alloc_bytes_remaining A - bytes\<rparr>;
        Some (res, A) }
      else allocateFallback os A bytes) }"

definition allocateAligned :: "os \<Rightarrow> arena \<Rightarrow> nat \<Rightarrow> (nat \<times> arena) option" where
  "allocateAligned os A bytes = do {
     let align = (8 :: nat);
     let current_mod = alloc_ptr A AND (align - 1);
     let slop = (if current_mod = 0 then 0 else align - current_mod);
     let needed = (bytes + slop) mod 2 ^ 64;
     (res, A) \<leftarrow> (if needed \<le> alloc_bytes_remaining A then do {
          let res = alloc_ptr A + slop;
          let A = A\<lparr>alloc_ptr := alloc_ptr A + needed\<rparr>;
          let A = A\<lparr>alloc_bytes_remaining := alloc_bytes_remaining A - needed\<rparr>;
          Some (res, A) }
        else allocateFallback os A bytes);
     _ \<leftarrow> cassert (res AND (align - 1) = 0);
     Some (res, A) }"

section \<open>What is promised\<close>

text \<open>Two regions that share no byte; a region inside another.\<close>

definition region_disj :: "region \<Rightarrow> region \<Rightarrow> bool" where
  "region_disj x y \<longleftrightarrow>
     snd x = 0 \<or> snd y = 0 \<or> fst x + snd x \<le> fst y \<or> fst y + snd y \<le> fst x"

definition region_in :: "region \<Rightarrow> region \<Rightarrow> bool" where
  "region_in x y \<longleftrightarrow> fst y \<le> fst x \<and> fst x + snd x \<le> fst y + snd y"

text \<open>
  The promise of \<open>new char[n]\<close>: a non-null address, aligned for every fundamental type, of
  \<open>n\<close> bytes (at least one, so that addresses are unique) that overlap no live block.
\<close>

definition good_new :: "os \<Rightarrow> bool" where
  "good_new os \<longleftrightarrow> (\<forall>live n a. os live n = Some a \<longrightarrow> 0 < a \<and> 8 dvd a \<and> a + n < 2 ^ 64
     \<and> (\<forall>b \<in> set live. region_disj (a, max 1 n) (fst b, max 1 (snd b))))"

definition bytes_in :: "region list \<Rightarrow> nat" where
  "bytes_in R = sum_list (map snd R)"

definition arena_inv :: "arena \<Rightarrow> region list \<Rightarrow> bool" where
  "arena_inv A R \<longleftrightarrow>
     sorted_wrt (\<lambda>x y. region_disj (fst x, max 1 (snd x)) (fst y, max 1 (snd y))) (blocks A)
   \<and> (\<forall>b \<in> set (blocks A). 0 < fst b \<and> fst b + snd b < 2 ^ 64)
   \<and> (alloc_bytes_remaining A = 0 \<or>
       (\<exists>b \<in> set (blocks A). region_in (alloc_ptr A, alloc_bytes_remaining A) b))
   \<and> (\<forall>r \<in> set R. \<exists>b \<in> set (blocks A). region_in r b)
   \<and> sorted_wrt region_disj R
   \<and> (\<forall>r \<in> set R. region_disj r (alloc_ptr A, alloc_bytes_remaining A))
   \<and> (\<forall>r \<in> set R. 0 < snd r)
   \<and> memory_usage A = sum_list (map (\<lambda>b. snd b + 8) (blocks A)) mod 2 ^ 64
   \<and> bytes_in R + alloc_bytes_remaining A \<le> bytes_in (blocks A)"

lemma region_disj_sym: "region_disj x y \<longleftrightarrow> region_disj y x"
  by (auto simp: region_disj_def)

lemma region_disj_in: "region_disj x y \<Longrightarrow> region_in x' x \<Longrightarrow> region_disj x' y"
  by (auto simp: region_disj_def region_in_def)

lemma bytes_in_simps [simp]: "bytes_in [] = 0" "bytes_in (r # R) = snd r + bytes_in R"
  "bytes_in (R @ S) = bytes_in R + bytes_in S"
  by (simp_all add: bytes_in_def)

lemma good_newD:
  assumes "good_new os" "os live n = Some a"
  shows "0 < a" "8 dvd a" "a + n < 2 ^ 64"
    "b \<in> set live \<Longrightarrow> region_disj (a, max 1 n) (fst b, max 1 (snd b))"
  using assms unfolding good_new_def by blast+

lemma arena_inv_new [simp]: "arena_inv Arena_new []"
  by (simp add: arena_inv_def Arena_new_def)


section \<open>The steps keep the invariant\<close>

lemma region_in_trans: "region_in x y \<Longrightarrow> region_in y z \<Longrightarrow> region_in x z"
  by (auto simp: region_in_def)

lemma region_disj_block:
  assumes "\<exists>b \<in> B. region_in r b" "\<And>b. b \<in> B \<Longrightarrow> region_disj x b"
  shows "region_disj x r"
  using assms region_disj_in region_disj_sym by blast

lemma region_in_split:
  assumes "slop + n \<le> m"
  shows "region_in (p + slop, n) (p, m)" "region_in (p + (slop + n), m - (slop + n)) (p, m)"
    "region_disj (p + slop, n) (p + (slop + n), m - (slop + n))"
  using assms by (auto simp: region_in_def region_disj_def)

lemma arena_inv_take:
  assumes "arena_inv A R" "0 < n" "slop + n \<le> alloc_bytes_remaining A"
  shows "arena_inv (A\<lparr>alloc_ptr := alloc_ptr A + (slop + n),
      alloc_bytes_remaining := alloc_bytes_remaining A - (slop + n)\<rparr>) ((alloc_ptr A + slop, n) # R)"
proof -
  let ?free = "(alloc_ptr A, alloc_bytes_remaining A)"
  note parts = region_in_split [OF assms(3), of "alloc_ptr A"]
  have "\<exists>b \<in> set (blocks A). region_in ?free b" and disj: "\<forall>r \<in> set R. region_disj r ?free"
    using assms unfolding arena_inv_def by auto
  then have ins: "\<exists>b \<in> set (blocks A). region_in (alloc_ptr A + slop, n) b"
    "\<exists>b \<in> set (blocks A). region_in
      (alloc_ptr A + (slop + n), alloc_bytes_remaining A - (slop + n)) b"
    using region_in_trans parts(1,2) by blast+
  have new: "\<forall>r \<in> set R. region_disj (alloc_ptr A + slop, n) r"
    "\<forall>r \<in> set R. region_disj r (alloc_ptr A + (slop + n), alloc_bytes_remaining A - (slop + n))"
    using disj region_disj_in [OF _ parts(1)] region_disj_in [OF _ parts(2)] region_disj_sym by blast+
  have "n + bytes_in R + (alloc_bytes_remaining A - (slop + n)) \<le> bytes_in (blocks A)"
    using assms unfolding arena_inv_def by linarith
  then show ?thesis
    using assms ins new parts(3) unfolding arena_inv_def by simp
qed

lemma allocateNewBlock_inv:
  assumes "arena_inv A R" "good_new os" "allocateNewBlock os A n = Some (a, A')"
  shows "arena_inv A' R" and "\<forall>r \<in> set R. region_disj (a, n) r"
    and "region_disj (a, n) (alloc_ptr A, alloc_bytes_remaining A)"
    and "0 < a" "8 dvd a" "(a, n) \<in> set (blocks A')" "bytes_in (blocks A') = bytes_in (blocks A) + n"
    and "alloc_ptr A' = alloc_ptr A" "alloc_bytes_remaining A' = alloc_bytes_remaining A"
proof -
  have a: "os (blocks A) n = Some a" and A': "A' = A\<lparr>blocks := blocks A @ [(a, n)],
      memory_usage := (memory_usage A + (n + 8)) mod 2 ^ 64\<rparr>"
    using assms(3) by (auto simp: allocateNewBlock_def Let_def split: bind_splits)
  note new = good_newD [OF assms(2) a]
  have disj: "region_disj (a, n) b" if "b \<in> set (blocks A)" for b
    using new(4) [OF that] by (auto simp: region_disj_def)
  have sym: "region_disj (fst b, max 1 (snd b)) (a, max 1 n)" if "b \<in> set (blocks A)" for b
    using new(4) [OF that] by (simp add: region_disj_sym)
  have inv: "\<forall>r \<in> set R. \<exists>b \<in> set (blocks A). region_in r b"
    "alloc_bytes_remaining A = 0 \<or> (\<exists>b \<in> set (blocks A). region_in (alloc_ptr A, alloc_bytes_remaining A) b)"
    using assms(1) unfolding arena_inv_def by blast+
  show "\<forall>r \<in> set R. region_disj (a, n) r"
    using inv(1) disj region_disj_block by blast
  show "region_disj (a, n) (alloc_ptr A, alloc_bytes_remaining A)"
  proof (cases "alloc_bytes_remaining A = 0")
    case True
    then show ?thesis by (simp add: region_disj_def)
  next
    case False
    then have "\<exists>b \<in> set (blocks A). region_in (alloc_ptr A, alloc_bytes_remaining A) b"
      using inv(2) by simp
    then show ?thesis by (rule region_disj_block) (rule disj)
  qed
  show "0 < a" "8 dvd a" by (rule new)+
  show "(a, n) \<in> set (blocks A')" "bytes_in (blocks A') = bytes_in (blocks A) + n"
    "alloc_ptr A' = alloc_ptr A" "alloc_bytes_remaining A' = alloc_bytes_remaining A"
    by (simp_all add: A')
  have usage: "memory_usage A' = sum_list (map (\<lambda>b. snd b + 8) (blocks A')) mod 2 ^ 64"
    using assms(1) by (simp add: A' arena_inv_def mod_add_left_eq)
  show "arena_inv A' R"
    using assms(1) new(1,3) sym usage unfolding arena_inv_def
    by (simp add: A' sorted_wrt_append) auto
qed

lemma arena_inv_add:
  assumes "arena_inv A R" "(a, n) \<in> set (blocks A)" "0 < n" "\<forall>r \<in> set R. region_disj (a, n) r"
    and "region_disj (a, n) (alloc_ptr A, alloc_bytes_remaining A)"
    and "bytes_in R + n + alloc_bytes_remaining A \<le> bytes_in (blocks A)"
  shows "arena_inv A ((a, n) # R)"
proof -
  have "\<exists>b \<in> set (blocks A). region_in (a, n) b"
    using assms(2) by (intro bexI [of _ "(a, n)"]) (simp_all add: region_in_def)
  then show ?thesis using assms unfolding arena_inv_def by simp
qed

lemma allocateFallback_ok:
  assumes inv: "arena_inv A R" and new: "good_new os" and n: "0 < n"
    and res: "allocateFallback os A n = Some (p, A')"
  shows "arena_inv A' ((p, n) # R) \<and> 0 < p \<and> 8 dvd p"
proof (cases "n > kBlockSize div 4")
  case True
  then have nb: "allocateNewBlock os A n = Some (p, A')" using res by (simp add: allocateFallback_def)
  note b = allocateNewBlock_inv [OF inv new nb]
  have tot: "bytes_in R + alloc_bytes_remaining A \<le> bytes_in (blocks A)" using inv by (simp add: arena_inv_def)
  have "arena_inv A' ((p, n) # R)" using b n tot by (intro arena_inv_add) auto
  then show ?thesis using b(4,5) by blast
next
  case False
  then obtain a A1 where nb: "allocateNewBlock os A kBlockSize = Some (a, A1)"
    and p: "p = a" and A': "A' = A1\<lparr>alloc_ptr := a + n, alloc_bytes_remaining := kBlockSize - n\<rparr>"
    using res by (auto simp: allocateFallback_def Let_def split: bind_splits)
  note b = allocateNewBlock_inv [OF inv new nb]
  let ?A2 = "A1\<lparr>alloc_ptr := a, alloc_bytes_remaining := kBlockSize\<rparr>"
  have tot: "bytes_in R + alloc_bytes_remaining A \<le> bytes_in (blocks A)" using inv by (simp add: arena_inv_def)
  have free: "\<exists>b \<in> set (blocks A1). region_in (a, kBlockSize) b"
    using b(6) by (intro bexI [of _ "(a, kBlockSize)"]) (simp_all add: region_in_def)
  have disj: "\<forall>r \<in> set R. region_disj r (a, kBlockSize)" using b(2) region_disj_sym by blast
  have "arena_inv ?A2 R"
    using b(1,7) tot free disj unfolding arena_inv_def by simp
  from arena_inv_take [OF this n, of 0] False
  have "arena_inv A' ((a, n) # R)" by (simp add: A' kBlockSize_def)
  then show ?thesis using b(4,5) p by blast
qed


lemma allocate_ok:
  assumes inv: "arena_inv A R" and new: "good_new os" and res: "allocate os A n = Some (p, A')"
  shows "arena_inv A' ((p, n) # R) \<and> 0 < p"
proof -
  have n: "0 < n" using res by (auto simp: allocate_def split: bind_splits)
  show ?thesis
  proof (cases "n \<le> alloc_bytes_remaining A")
    case True
    then have eq: "p = alloc_ptr A" "A' = A\<lparr>alloc_ptr := alloc_ptr A + n,
        alloc_bytes_remaining := alloc_bytes_remaining A - n\<rparr>"
      using res n by (auto simp: allocate_def Let_def)
    have "\<exists>b \<in> set (blocks A). region_in (alloc_ptr A, alloc_bytes_remaining A) b"
      "\<forall>b \<in> set (blocks A). 0 < fst b" using inv True n unfolding arena_inv_def by auto
    then have "0 < p" by (auto simp: region_in_def eq)
    then show ?thesis using arena_inv_take [OF inv n, of 0] True by (simp add: eq)
  next
    case False
    then show ?thesis using allocateFallback_ok [OF inv new n] res n by (simp add: allocate_def)
  qed
qed

lemma and_7: "(x :: nat) AND (8 - 1) = x mod 8"
  using take_bit_eq_mask [of 3 x] by (simp add: take_bit_eq_mod mask_eq_exp_minus_1)

definition aligned_slop :: "arena \<Rightarrow> nat" where
  "aligned_slop A = (if alloc_ptr A mod 8 = 0 then 0 else 8 - alloc_ptr A mod 8)"

lemma aligned_slop: "8 dvd alloc_ptr A + aligned_slop A" "aligned_slop A < 8"
  unfolding aligned_slop_def by presburger+

lemma allocateAligned_unfold:
  assumes "n \<le> 2 ^ 64 - 8"
  shows "allocateAligned os A n = do {
    (res, A) \<leftarrow> (if aligned_slop A + n \<le> alloc_bytes_remaining A
       then Some (alloc_ptr A + aligned_slop A, A\<lparr>alloc_ptr := alloc_ptr A + (aligned_slop A + n),
          alloc_bytes_remaining := alloc_bytes_remaining A - (aligned_slop A + n)\<rparr>)
       else allocateFallback os A n);
    _ \<leftarrow> cassert (8 dvd res);
    Some (res, A) }"
proof -
  have "(n + aligned_slop A) mod 2 ^ 64 = aligned_slop A + n"
    using aligned_slop(2) [of A] assms by simp
  then show ?thesis
    by (simp only: allocateAligned_def Let_def and_7 aligned_slop_def [symmetric] dvd_eq_mod_eq_0) simp
qed

lemma allocateAligned_ok:
  assumes inv: "arena_inv A R" and new: "good_new os" and n: "0 < n" "n \<le> 2 ^ 64 - 8"
    and res: "allocateAligned os A n = Some (p, A')"
  shows "arena_inv A' ((p, n) # R) \<and> 0 < p \<and> 8 dvd p"
proof (cases "aligned_slop A + n \<le> alloc_bytes_remaining A")
  case True
  then have eq: "p = alloc_ptr A + aligned_slop A"
    "A' = A\<lparr>alloc_ptr := alloc_ptr A + (aligned_slop A + n),
      alloc_bytes_remaining := alloc_bytes_remaining A - (aligned_slop A + n)\<rparr>"
    using res aligned_slop(1) [of A] unfolding allocateAligned_unfold [OF n(2)] by simp_all
  have "\<exists>b \<in> set (blocks A). region_in (alloc_ptr A, alloc_bytes_remaining A) b"
    "\<forall>b \<in> set (blocks A). 0 < fst b" using inv True n unfolding arena_inv_def by auto
  then have "0 < p" by (auto simp: region_in_def eq)
  then show ?thesis using arena_inv_take [OF inv n(1) True] aligned_slop(1) by (simp add: eq)
next
  case False
  then have "allocateFallback os A n = Some (p, A')"
    using res unfolding allocateAligned_unfold [OF n(2)] by (auto split: bind_splits)
  then show ?thesis using allocateFallback_ok [OF inv new n(1)] by blast
qed

text \<open>The only way to fail is that the system has no memory; the alignment assertion holds.\<close>

lemma allocateFallback_fail:
  "allocateFallback os A n = None \<longleftrightarrow> os (blocks A) (if n > kBlockSize div 4 then n else kBlockSize) = None"
  by (auto simp: allocateFallback_def allocateNewBlock_def Let_def split: bind_splits)

lemma allocateAligned_fail:
  assumes inv: "arena_inv A R" and new: "good_new os" and n: "0 < n" "n \<le> 2 ^ 64 - 8"
  shows "allocateAligned os A n = None \<longleftrightarrow> alloc_bytes_remaining A < aligned_slop A + n
    \<and> os (blocks A) (if n > kBlockSize div 4 then n else kBlockSize) = None"
proof (cases "aligned_slop A + n \<le> alloc_bytes_remaining A")
  case True
  then show ?thesis using aligned_slop(1) [of A] unfolding allocateAligned_unfold [OF n(2)] by simp
next
  case False
  then have "allocateAligned os A n = do { (res, A) \<leftarrow> allocateFallback os A n;
      _ \<leftarrow> cassert (8 dvd res); Some (res, A) }"
    unfolding allocateAligned_unfold [OF n(2)] by simp
  then show ?thesis
    using allocateFallback_ok [OF inv new n(1)] False allocateFallback_fail [of os A n]
    by (cases "allocateFallback os A n") auto
qed

section \<open>The interface\<close>

text \<open>A run of requests: the addresses, in the order of the requests, and the last state.\<close>

primrec alloc_run :: "('s \<Rightarrow> 'r \<Rightarrow> (nat \<times> 's) option) \<Rightarrow> 's \<Rightarrow> 'r list \<Rightarrow> (nat list \<times> 's) option" where
  "alloc_run alloc s [] = Some ([], s)"
| "alloc_run alloc s (r # rs) = do {
     (p, s) \<leftarrow> alloc s r;
     (ps, s) \<leftarrow> alloc_run alloc s rs;
     Some (p # ps, s) }"

text \<open>
  An allocator: every legal request that succeeds adds a region of the requested size to
  those handed out, and the regions handed out never overlap.
\<close>

locale region_allocator =
  fixes alloc :: "'s \<Rightarrow> 'r \<Rightarrow> (nat \<times> 's) option"
    and request_size :: "'r \<Rightarrow> nat"
    and legal :: "'r \<Rightarrow> bool"
    and inv :: "'s \<Rightarrow> region list \<Rightarrow> bool"
  assumes alloc_inv: "inv s R \<Longrightarrow> legal r \<Longrightarrow> alloc s r = Some (p, s') \<Longrightarrow>
      inv s' ((p, request_size r) # R)"
    and alloc_nonnull: "inv s R \<Longrightarrow> legal r \<Longrightarrow> alloc s r = Some (p, s') \<Longrightarrow> 0 < p"
    and inv_disj: "inv s R \<Longrightarrow> sorted_wrt region_disj R"
    and legal_size: "legal r \<Longrightarrow> 0 < request_size r"
begin

lemma run_inv:
  "inv s R \<Longrightarrow> \<forall>r \<in> set rs. legal r \<Longrightarrow> alloc_run alloc s rs = Some (ps, s') \<Longrightarrow>
   inv s' (rev (zip ps (map request_size rs)) @ R) \<and> length ps = length rs \<and> 0 \<notin> set ps"
proof (induction rs arbitrary: s R ps)
  case (Cons r rs)
  from Cons.prems(3) obtain p s1 ps' where step: "alloc s r = Some (p, s1)"
    "alloc_run alloc s1 rs = Some (ps', s')" "ps = p # ps'"
    by (auto split: bind_splits)
  show ?case
    using Cons.IH [OF alloc_inv [OF Cons.prems(1) _ step(1)] _ step(2)] Cons.prems(2)
      alloc_nonnull [OF Cons.prems(1) _ step(1)] step(3) by auto
qed simp

text \<open>The regions of a run do not overlap; in particular all its addresses differ.\<close>

lemma run_disjoint:
  assumes "inv s []" "\<forall>r \<in> set rs. legal r" "alloc_run alloc s rs = Some (ps, s')"
    and ij: "i < length rs" "j < length rs" "i \<noteq> j"
  shows "region_disj (ps ! i, request_size (rs ! i)) (ps ! j, request_size (rs ! j))"
proof -
  let ?z = "zip ps (map request_size rs)"
  have run: "inv s' (rev ?z)" "length ps = length rs" using run_inv [OF assms(1-3)] by auto
  from inv_disj [OF run(1)] have "sorted_wrt (\<lambda>x y. region_disj y x) ?z"
    by (simp only: sorted_wrt_rev)
  then have "region_disj (?z ! i) (?z ! j) \<or> region_disj (?z ! j) (?z ! i)"
    using ij run(2) by (cases i j rule: linorder_cases) (auto simp: sorted_wrt_iff_nth_less)
  then show ?thesis using ij run(2) region_disj_sym by auto
qed

end

datatype request = Plain nat | Aligned nat

fun arena_alloc :: "os \<Rightarrow> arena \<Rightarrow> request \<Rightarrow> (nat \<times> arena) option" where
  "arena_alloc os A (Plain n) = allocate os A n"
| "arena_alloc os A (Aligned n) = allocateAligned os A n"

fun request_bytes :: "request \<Rightarrow> nat" where
  "request_bytes (Plain n) = n"
| "request_bytes (Aligned n) = n"

definition legal_request :: "request \<Rightarrow> bool" where
  "legal_request r \<longleftrightarrow> 0 < request_bytes r \<and> request_bytes r \<le> 2 ^ 64 - 8"

lemma arena_alloc_ok:
  assumes "good_new os \<and> arena_inv A R" "legal_request r" "arena_alloc os A r = Some (p, A')"
  shows "(good_new os \<and> arena_inv A' ((p, request_bytes r) # R)) \<and> 0 < p"
proof (cases r)
  case (Plain n)
  then show ?thesis using assms allocate_ok [of A R os n p A'] by simp
next
  case (Aligned n)
  then show ?thesis using assms allocateAligned_ok [of A R os n p A'] by (simp add: legal_request_def)
qed

interpretation arena: region_allocator "arena_alloc os" request_bytes legal_request
  "\<lambda>A R. good_new os \<and> arena_inv A R" for os
proof
  fix A R r p A'
  assume a: "good_new os \<and> arena_inv A R" "legal_request r" "arena_alloc os A r = Some (p, A')"
  then have "(good_new os \<and> arena_inv A' ((p, request_bytes r) # R)) \<and> 0 < p"
    by (rule arena_alloc_ok)
  then show "good_new os \<and> arena_inv A' ((p, request_bytes r) # R)" "0 < p" by blast+
next
  fix A R assume "good_new os \<and> arena_inv A R"
  then show "sorted_wrt region_disj R" by (simp add: arena_inv_def)
next
  fix r assume "legal_request r"
  then show "0 < request_bytes r" by (simp add: legal_request_def)
qed


section \<open>A concrete system\<close>

text \<open>A \<open>new\<close> that keeps the promise: it places each block above all live ones.\<close>

definition bump_new :: os where
  "bump_new live n = (let a = 16 * (fold (\<lambda>b m. max (fst b + max 1 (snd b)) m) live 16 div 16 + 1)
     in if a + n < 2 ^ 64 then Some a else None)"

lemma fold_max_le: "m \<le> fold (\<lambda>b m. max (f b) m) xs (m :: nat)"
  by (induction xs arbitrary: m) (simp_all, meson max.cobounded2 order_trans)

lemma fold_max_member: "x \<in> set xs \<Longrightarrow> f x \<le> fold (\<lambda>b m. max (f b) m) xs (m :: nat)"
proof (induction xs arbitrary: m)
  case (Cons y ys)
  show ?case
  proof (cases "x = y")
    case True
    then show ?thesis using fold_max_le [of "max (f y) m" f ys] by simp
  next
    case False
    then show ?thesis using Cons by simp
  qed
qed simp

lemma good_bump_new: "good_new bump_new"
  unfolding good_new_def
proof (intro allI impI)
  fix live n a assume a: "bump_new live n = Some a"
  let ?m = "fold (\<lambda>b m. max (fst b + max 1 (snd b)) m) live 16"
  have eq: "a = 16 * (?m div 16 + 1)" "a + n < 2 ^ 64"
    using a by (auto simp: bump_new_def Let_def split: if_splits)
  then have "?m < a" by presburger
  moreover have "fst b + max 1 (snd b) \<le> ?m" if "b \<in> set live" for b
    by (rule fold_max_member [OF that])
  ultimately have "region_disj (a, max 1 n) (fst b, max 1 (snd b))" if "b \<in> set live" for b
    using that by (fastforce simp: region_disj_def)
  moreover have "8 dvd a" unfolding eq(1) by presburger
  ultimately show "0 < a \<and> 8 dvd a \<and> a + n < 2 ^ 64
     \<and> (\<forall>b \<in> set live. region_disj (a, max 1 n) (fst b, max 1 (snd b)))" using eq by simp
qed

section \<open>Properties\<close>

text \<open>
  src/util/arena.h, \<open>Arena::allocate\<close>. On an arena that has handed out the regions
  \<open>R\<close>, a request of \<open>n > 0\<close> bytes fails only if it does not fit the current block and the
  system refuses the new block; otherwise it returns a non-null pointer to \<open>n\<close> bytes that
  lie in one of the arena's blocks and overlap neither a region of \<open>R\<close> nor what is still
  free, and the accounting stays right (the invariant \<open>arena_inv\<close>).
\<close>

theorem allocate_correct:
  assumes "good_new os" "arena_inv A R" "0 < n"
  shows "case allocate os A n of
      None \<Rightarrow> alloc_bytes_remaining A < n
        \<and> os (blocks A) (if n > kBlockSize div 4 then n else kBlockSize) = None
    | Some (p, A') \<Rightarrow> arena_inv A' ((p, n) # R) \<and> 0 < p"
proof (cases "allocate os A n")
  case None
  then show ?thesis using assms(3) allocateFallback_fail [of os A n]
    by (auto simp: allocate_def Let_def split: if_splits)
next
  case (Some r)
  then show ?thesis using allocate_ok [OF assms(2,1)] by (cases r) simp
qed

theorem allocate_correct_witness:
  "arena_inv \<lparr>alloc_ptr = 42, alloc_bytes_remaining = 4086, blocks = [(32, 4096)], memory_usage = 4104\<rparr> [(32, 10)]"
proof -
  have "allocate bump_new Arena_new 10 = Some (32,
      \<lparr>alloc_ptr = 42, alloc_bytes_remaining = 4086, blocks = [(32, 4096)], memory_usage = 4104\<rparr>)"
    by (simp add: allocate_def allocateFallback_def allocateNewBlock_def bump_new_def Arena_new_def
        kBlockSize_def Let_def)
  then show ?thesis using allocate_correct [OF good_bump_new arena_inv_new, of 10] by simp
qed

text \<open>
  C18 (src/util/arena.cc, \<open>Arena::allocateAligned\<close>). On an arena that has handed out the regions
  \<open>R\<close>, an aligned request of at least one and at most \<open>2 ^ 64 - 8\<close> bytes fails only if it does not fit the current
  block and the system refuses the new block; otherwise it returns a non-null pointer to fresh
  bytes in one of the arena's blocks, as \<open>allocate\<close> does; the pointer is a multiple of 8, and
  the assertion that checks this never fails.
\<close>

theorem allocateAligned_correct:
  assumes "good_new os" "arena_inv A R" "0 < n" "n \<le> 2 ^ 64 - 8"
  shows "case allocateAligned os A n of
      None \<Rightarrow> alloc_bytes_remaining A < n + 7
        \<and> os (blocks A) (if n > kBlockSize div 4 then n else kBlockSize) = None
    | Some (p, A') \<Rightarrow> arena_inv A' ((p, n) # R) \<and> 0 < p \<and> 8 dvd p"
proof (cases "allocateAligned os A n")
  case None
  then show ?thesis using allocateAligned_fail [OF assms(2,1,3,4)] aligned_slop(2) [of A] by auto
next
  case (Some r)
  then show ?thesis using allocateAligned_ok [OF assms(2,1,3,4)] by (cases r) simp
qed

theorem allocateAligned_correct_witness:
  "arena_inv \<lparr>alloc_ptr = 68, alloc_bytes_remaining = 4060, blocks = [(32, 4096)], memory_usage = 4104\<rparr>
     [(48, 20), (32, 10)]"
proof -
  let ?A = "\<lparr>alloc_ptr = 42, alloc_bytes_remaining = 4086, blocks = [(32, 4096)], memory_usage = 4104\<rparr>"
  have "allocate bump_new Arena_new 10 = Some (32, ?A)"
    by (simp add: allocate_def allocateFallback_def allocateNewBlock_def bump_new_def Arena_new_def
        kBlockSize_def Let_def)
  then have inv: "arena_inv ?A [(32, 10)]"
    using allocate_ok [OF arena_inv_new good_bump_new] by blast
  have "allocateAligned bump_new ?A 20 = Some (48,
      \<lparr>alloc_ptr = 68, alloc_bytes_remaining = 4060, blocks = [(32, 4096)], memory_usage = 4104\<rparr>)"
    by (simp add: allocateAligned_unfold aligned_slop_def)
  then show ?thesis using allocateAligned_correct [OF good_bump_new inv, of 20] by simp
qed

text \<open>
  C16 (src/util/arena.h and arena.cc). In any run of requests of both kinds on a new arena,
  each of at least one and at most \<open>2 ^ 64 - 8\<close> bytes, no two of the regions handed out share a byte, whatever blocks the arena had to get for them,
  and each lies inside one of the blocks that the arena holds at the end.
\<close>

theorem arena_regions_disjoint:
  assumes "good_new os" "\<forall>r \<in> set rs. legal_request r"
    and "alloc_run (arena_alloc os) Arena_new rs = Some (ps, A)"
    and "i < length rs" "j < length rs" "i \<noteq> j"
  shows "region_disj (ps ! i, request_bytes (rs ! i)) (ps ! j, request_bytes (rs ! j))
    \<and> (\<exists>b \<in> set (blocks A). region_in (ps ! i, request_bytes (rs ! i)) b)"
proof
  show "region_disj (ps ! i, request_bytes (rs ! i)) (ps ! j, request_bytes (rs ! j))"
    by (rule arena.run_disjoint [OF _ assms(2-)]) (simp add: assms(1))
  have inv: "arena_inv A (rev (zip ps (map request_bytes rs)))" and "length ps = length rs"
    using arena.run_inv [OF _ assms(2,3), of "[]"] assms(1) by auto
  then have "(ps ! i, request_bytes (rs ! i)) \<in> set (zip ps (map request_bytes rs))"
    using assms(4) by (force simp: set_zip)
  then show "\<exists>b \<in> set (blocks A). region_in (ps ! i, request_bytes (rs ! i)) b"
    using inv unfolding arena_inv_def by auto
qed

theorem arena_regions_disjoint_witness:
  "\<exists>p q r A. alloc_run (arena_alloc bump_new) Arena_new [Plain 3, Aligned 5000, Aligned 8] = Some ([p, q, r], A)
    \<and> region_disj (p, 3) (r, 8) \<and> (\<exists>b \<in> set (blocks A). region_in (p, 3) b)"
proof -
  have run: "\<exists>A. alloc_run (arena_alloc bump_new) Arena_new [Plain 3, Aligned 5000, Aligned 8]
      = Some ([32, 4144, 40], A)"
    by (simp add: allocate_def allocateFallback_def allocateNewBlock_def bump_new_def Arena_new_def
        allocateAligned_unfold aligned_slop_def kBlockSize_def Let_def)
  then obtain A where A: "alloc_run (arena_alloc bump_new) Arena_new [Plain 3, Aligned 5000, Aligned 8]
      = Some ([32, 4144, 40], A)" ..
  have "region_disj ([32, 4144, 40] ! 0, request_bytes ([Plain 3, Aligned 5000, Aligned 8] ! 0))
     ([32, 4144, 40] ! 2, request_bytes ([Plain 3, Aligned 5000, Aligned 8] ! 2))
    \<and> (\<exists>b \<in> set (blocks A). region_in ([32, 4144, 40] ! 0, request_bytes ([Plain 3, Aligned 5000, Aligned 8] ! 0)) b)"
    by (rule arena_regions_disjoint [OF good_bump_new _ A]) (auto simp: legal_request_def)
  then show ?thesis using A by auto
qed

text \<open>
  C17 (src/util/arena.cc, \<open>memoryUsage\<close> and the destructor). After any run of requests on a
  new arena, \<open>memoryUsage\<close> is the size of all blocks plus a pointer for each (as long as that
  is below \<open>2 ^ 64\<close>) and at least the bytes handed out; every region handed out lies in a
  block that the destructor frees, and it frees no block twice and never a null pointer.
\<close>

theorem arena_accounting:
  assumes "good_new os" "\<forall>r \<in> set rs. legal_request r"
    and "alloc_run (arena_alloc os) Arena_new rs = Some (ps, A)"
    and "sum_list (map (\<lambda>b. snd b + 8) (blocks A)) < 2 ^ 64"
  shows "memoryUsage A = sum_list (map (\<lambda>b. snd b + 8) (blocks A))
    \<and> sum_list (map request_bytes rs) \<le> memoryUsage A
    \<and> distinct (Arena_delete A) \<and> 0 \<notin> set (Arena_delete A)
    \<and> (\<forall>r \<in> set (zip ps (map request_bytes rs)). \<exists>b \<in> set (blocks A). fst b \<in> set (Arena_delete A)
        \<and> region_in r b)"
proof -
  let ?R = "rev (zip ps (map request_bytes rs))"
  have inv: "arena_inv A ?R" and len: "length ps = length rs"
    using arena.run_inv [OF _ assms(2,3), of "[]"] assms(1) by auto
  have mu: "memoryUsage A = sum_list (map (\<lambda>b. snd b + 8) (blocks A))"
    using inv assms(4) by (simp add: arena_inv_def memoryUsage_def)
  have "bytes_in (blocks A) \<le> sum_list (map (\<lambda>b. snd b + 8) (blocks A))"
    unfolding bytes_in_def by (rule sum_list_mono) simp
  moreover have "bytes_in ?R = sum_list (map request_bytes rs)"
    using len by (simp add: bytes_in_def rev_map [symmetric] sum_list_rev)
  ultimately have le: "sum_list (map request_bytes rs) \<le> memoryUsage A"
    using inv mu by (simp add: arena_inv_def)
  have "sorted_wrt (\<lambda>x y. region_disj (fst x, max 1 (snd x)) (fst y, max 1 (snd y))) (blocks A)"
    using inv by (simp add: arena_inv_def)
  then have "sorted_wrt (\<lambda>x y. fst x \<noteq> fst y) (blocks A)"
    by (rule sorted_wrt_mono_rel [rotated]) (auto simp: region_disj_def)
  then have dist: "distinct (Arena_delete A)"
    by (simp add: Arena_delete_def distinct_conv_nth sorted_wrt_iff_nth_less) (metis linorder_neqE_nat)
  show ?thesis using mu le dist inv unfolding arena_inv_def by (auto simp: Arena_delete_def)
qed

theorem arena_accounting_witness:
  "\<exists>ps A. alloc_run (arena_alloc bump_new) Arena_new [Plain 3, Aligned 5000] = Some (ps, A)
    \<and> memoryUsage A = 9112 \<and> distinct (Arena_delete A)"
proof -
  obtain ps A where A: "alloc_run (arena_alloc bump_new) Arena_new [Plain 3, Aligned 5000] = Some (ps, A)"
    "blocks A = [(32, 4096), (4144, 5000)]"
    by (simp add: allocate_def allocateFallback_def allocateNewBlock_def bump_new_def Arena_new_def
        allocateAligned_unfold aligned_slop_def kBlockSize_def Let_def)
  then show ?thesis using arena_accounting [OF good_bump_new _ A(1)] by (simp add: legal_request_def)
qed

section \<open>The limit of the request size\<close>

text \<open>
  Above \<open>2 ^ 64 - 8\<close> the sum \<open>bytes + slop\<close> wraps around: a request that no system could
  serve is answered with a pointer into the current block and next to no bytes reserved.
\<close>

lemma allocateAligned_size_wraps:
  assumes "alloc_ptr A mod 8 = 1" "alloc_bytes_remaining A \<ge> 7"
  shows "allocateAligned os A (2 ^ 64 - 7) = Some (alloc_ptr A + 7, A)"
proof -
  have "(alloc_ptr A + 7) mod 8 = 0" using assms(1) by presburger
  then have "alloc_ptr A + 7 AND 7 = 0" "alloc_ptr A AND 7 = 1"
    using and_7 [of "alloc_ptr A"] and_7 [of "alloc_ptr A + 7"] assms(1) by simp_all
  then show ?thesis by (simp add: allocateAligned_def Let_def)
qed

end
