(* ===== verification/KV_SkipList.thy ===== *)
theory KV_SkipList
  imports KV_Arena KV_Random
begin

text \<open>
  The template class \<open>SkipList\<close> of src/database/skiplist.h, executed by one thread. A node
  lives at the address that the arena returned for it; the state holds the map from
  addresses to nodes, so that nodes are shared by the levels exactly as in the code, and the
  address 0 is \<open>nullptr\<close>. A word of a node that was not written yet is \<open>None\<close>; reading one,
  reading through an address that is no node and an access outside an array abort. The loops
  without a bound are \<open>partial_function\<close>s: not returning is \<open>None\<close> as well, so that \<open>Some\<close>
  includes termination.

  \<open>sizeof(Node)\<close> depends on the template argument and is the parameter \<open>nsz\<close>; the comparator
  is the parameter \<open>cmp\<close>, whose contract is the locale \<open>key_order\<close>.
\<close>

section \<open>State\<close>

record 'k node =
  nd_key :: 'k
  nd_nexts :: "nat option list"

record 'k skiplist =
  sk_arena :: arena
  sk_nodes :: "nat \<rightharpoonup> 'k node"
  sk_head :: nat
  sk_max_height :: nat
  sk_rnd :: random

abbreviation (input) s_max_height :: nat where "s_max_height \<equiv> 12"

definition getMaxHeight :: "'k skiplist \<Rightarrow> nat" where
  "getMaxHeight S = sk_max_height S"

text \<open>
  The four accessors of a node's links. In an execution by one thread the acquire, release
  and relaxed accesses read and write the same values.
\<close>

definition node_next :: "'k skiplist \<Rightarrow> nat \<Rightarrow> nat \<Rightarrow> nat option" where
  "node_next S x n = do {
     nd \<leftarrow> sk_nodes S x;
     (if n < length (nd_nexts nd) then nd_nexts nd ! n else None) }"

definition setNext :: "'k skiplist \<Rightarrow> nat \<Rightarrow> nat \<Rightarrow> nat \<Rightarrow> 'k skiplist option" where
  "setNext S x n y = do {
     nd \<leftarrow> sk_nodes S x;
     (if n < length (nd_nexts nd)
      then Some (S\<lparr>sk_nodes := (sk_nodes S)(x \<mapsto> nd\<lparr>nd_nexts := (nd_nexts nd)[n := Some y]\<rparr>)\<rparr>)
      else None) }"

definition noBarrierNext :: "'k skiplist \<Rightarrow> nat \<Rightarrow> nat \<Rightarrow> nat option" where
  "noBarrierNext S x n = node_next S x n"

definition noBarrierSetNext :: "'k skiplist \<Rightarrow> nat \<Rightarrow> nat \<Rightarrow> nat \<Rightarrow> 'k skiplist option" where
  "noBarrierSetNext S x n y = setNext S x n y"

definition node_key :: "'k skiplist \<Rightarrow> nat \<Rightarrow> 'k option" where
  "node_key S x = map_option nd_key (sk_nodes S x)"

section \<open>Construction\<close>

definition newNode :: "os \<Rightarrow> nat \<Rightarrow> 'k skiplist \<Rightarrow> 'k \<Rightarrow> nat \<Rightarrow> (nat \<times> 'k skiplist) option" where
  "newNode os nsz S key height = do {
     (node_memory, A) \<leftarrow> allocateAligned os (sk_arena S) (nsz + 8 * (height - 1));
     Some (node_memory, S\<lparr>sk_arena := A, sk_nodes := (sk_nodes S)
       (node_memory \<mapsto> \<lparr>nd_key = key, nd_nexts = replicate height None\<rparr>)\<rparr>) }"

function init_head :: "'k skiplist \<Rightarrow> nat \<Rightarrow> 'k skiplist option" where
  "init_head S i =
     (if i < s_max_height then do {
        S \<leftarrow> setNext S (sk_head S) i 0;
        init_head S (i + 1) }
      else Some S)"
  by pat_completeness auto
termination by (relation "measure (\<lambda>(S, i). s_max_height - i)") auto

declare init_head.simps [simp del]

text \<open>The key of the head is the template's \<open>Key(0)\<close>, here \<open>key0\<close>; no code reads it.\<close>

definition SkipList_new :: "os \<Rightarrow> nat \<Rightarrow> 'k \<Rightarrow> arena \<Rightarrow> 'k skiplist option" where
  "SkipList_new os nsz key0 A = do {
     let S = \<lparr>sk_arena = A, sk_nodes = Map.empty, sk_head = 0, sk_max_height = 0,
       sk_rnd = \<lparr>rnd_seed = 0\<rparr>\<rparr>;
     (h, S) \<leftarrow> newNode os nsz S key0 s_max_height;
     let S = S\<lparr>sk_head := h\<rparr>;
     let S = S\<lparr>sk_max_height := 1\<rparr>;
     let S = S\<lparr>sk_rnd := Random_new 0xdeadbeef\<rparr>;
     init_head S 0 }"

section \<open>Heights\<close>

function randomHeight_loop :: "random \<Rightarrow> nat \<Rightarrow> (nat \<times> random) option" where
  "randomHeight_loop rnd height =
     (if height < s_max_height then do {
        (b, rnd) \<leftarrow> oneIn rnd 4;
        (if b then randomHeight_loop rnd (height + 1) else Some (height, rnd)) }
      else Some (height, rnd))"
  by pat_completeness auto
termination by (relation "measure (\<lambda>(rnd, height). s_max_height - height)") auto

declare randomHeight_loop.simps [simp del]

definition randomHeight :: "'k skiplist \<Rightarrow> (nat \<times> 'k skiplist) option" where
  "randomHeight S = do {
     (height, rnd) \<leftarrow> randomHeight_loop (sk_rnd S) 1;
     _ \<leftarrow> cassert (height > 0);
     _ \<leftarrow> cassert (height \<le> s_max_height);
     Some (height, S\<lparr>sk_rnd := rnd\<rparr>) }"

section \<open>Searches\<close>

definition key_equal :: "('k \<Rightarrow> 'k \<Rightarrow> int) \<Rightarrow> 'k \<Rightarrow> 'k \<Rightarrow> bool" where
  "key_equal cmp a b = (cmp a b = 0)"

definition keyIsAfterNode :: "('k \<Rightarrow> 'k \<Rightarrow> int) \<Rightarrow> 'k skiplist \<Rightarrow> 'k \<Rightarrow> nat \<Rightarrow> bool option" where
  "keyIsAfterNode cmp S key n =
     (if n \<noteq> 0 then do { k \<leftarrow> node_key S n; Some (cmp k key < 0) } else Some False)"

text \<open>
  The array \<open>prev\<close> of the caller: \<open>None\<close> is the null pointer; an element not written yet is
  \<open>None\<close>.
\<close>

type_synonym prevs = "nat option list"

definition store_prev :: "prevs \<Rightarrow> nat \<Rightarrow> nat \<Rightarrow> prevs option" where
  "store_prev prev i x = (if i < length prev then Some (prev[i := Some x]) else None)"

definition load_prev :: "prevs \<Rightarrow> nat \<Rightarrow> nat option" where
  "load_prev prev i = (if i < length prev then prev ! i else None)"

partial_function (option) findGE_loop ::
    "('k \<Rightarrow> 'k \<Rightarrow> int) \<Rightarrow> 'k skiplist \<Rightarrow> 'k \<Rightarrow> nat \<Rightarrow> nat \<Rightarrow> prevs option \<Rightarrow> (nat \<times> prevs option) option" where
  "findGE_loop cmp S key x level prev = do {
     nxt \<leftarrow> node_next S x level;
     after \<leftarrow> keyIsAfterNode cmp S key nxt;
     (if after then findGE_loop cmp S key nxt level prev
      else do {
        prev \<leftarrow> (case prev of None \<Rightarrow> Some None
          | Some p \<Rightarrow> map_option Some (store_prev p level x));
        (if level = 0 then Some (nxt, prev)
         else findGE_loop cmp S key x (level - 1) prev) }) }"

definition findGreateOrEqual ::
    "('k \<Rightarrow> 'k \<Rightarrow> int) \<Rightarrow> 'k skiplist \<Rightarrow> 'k \<Rightarrow> prevs option \<Rightarrow> (nat \<times> prevs option) option" where
  "findGreateOrEqual cmp S key prev = findGE_loop cmp S key (sk_head S) (getMaxHeight S - 1) prev"

partial_function (option) findLT_loop ::
    "('k \<Rightarrow> 'k \<Rightarrow> int) \<Rightarrow> 'k skiplist \<Rightarrow> 'k \<Rightarrow> nat \<Rightarrow> nat \<Rightarrow> nat option" where
  "findLT_loop cmp S key x level = do {
     _ \<leftarrow> (if x = sk_head S then Some () else do { k \<leftarrow> node_key S x; cassert (cmp k key < 0) });
     nxt \<leftarrow> node_next S x level;
     stop \<leftarrow> (if nxt = 0 then Some True else do { k \<leftarrow> node_key S nxt; Some (cmp k key \<ge> 0) });
     (if stop then (if level = 0 then Some x else findLT_loop cmp S key x (level - 1))
      else findLT_loop cmp S key nxt level) }"

definition findLessThan :: "('k \<Rightarrow> 'k \<Rightarrow> int) \<Rightarrow> 'k skiplist \<Rightarrow> 'k \<Rightarrow> nat option" where
  "findLessThan cmp S key = findLT_loop cmp S key (sk_head S) (getMaxHeight S - 1)"

partial_function (option) findLast_loop :: "'k skiplist \<Rightarrow> nat \<Rightarrow> nat \<Rightarrow> nat option" where
  "findLast_loop S x level = do {
     nxt \<leftarrow> node_next S x level;
     (if nxt = 0 then (if level = 0 then Some x else findLast_loop S x (level - 1))
      else findLast_loop S nxt level) }"

definition findLast :: "'k skiplist \<Rightarrow> nat option" where
  "findLast S = findLast_loop S (sk_head S) (getMaxHeight S - 1)"

definition contains :: "('k \<Rightarrow> 'k \<Rightarrow> int) \<Rightarrow> 'k skiplist \<Rightarrow> 'k \<Rightarrow> bool option" where
  "contains cmp S key = do {
     (x, _) \<leftarrow> findGreateOrEqual cmp S key None;
     (if x \<noteq> 0 then do { k \<leftarrow> node_key S x; Some (key_equal cmp key k) } else Some False) }"

section \<open>Insertion\<close>

function fill_prev :: "prevs \<Rightarrow> nat \<Rightarrow> nat \<Rightarrow> nat \<Rightarrow> prevs option" where
  "fill_prev prev h i height =
     (if i < height then do { prev \<leftarrow> store_prev prev i h; fill_prev prev h (i + 1) height }
      else Some prev)"
  by pat_completeness auto
termination by (relation "measure (\<lambda>(prev, h, i, height). height - i)") auto

declare fill_prev.simps [simp del]

function link_loop :: "'k skiplist \<Rightarrow> nat \<Rightarrow> prevs \<Rightarrow> nat \<Rightarrow> nat \<Rightarrow> 'k skiplist option" where
  "link_loop S x prev i height =
     (if i < height then do {
        p \<leftarrow> load_prev prev i;
        n \<leftarrow> noBarrierNext S p i;
        S \<leftarrow> noBarrierSetNext S x i n;
        S \<leftarrow> setNext S p i x;
        link_loop S x prev (i + 1) height }
      else Some S)"
  by pat_completeness auto
termination by (relation "measure (\<lambda>(S, x, prev, i, height). height - i)") auto

declare link_loop.simps [simp del]

definition skip_insert ::
    "os \<Rightarrow> nat \<Rightarrow> ('k \<Rightarrow> 'k \<Rightarrow> int) \<Rightarrow> 'k skiplist \<Rightarrow> 'k \<Rightarrow> 'k skiplist option" where
  "skip_insert os nsz cmp S key = do {
     let prev = replicate s_max_height None;
     (x, r) \<leftarrow> findGreateOrEqual cmp S key (Some prev);
     prev \<leftarrow> r;
     _ \<leftarrow> (if x = 0 then Some () else do { k \<leftarrow> node_key S x; cassert (\<not> key_equal cmp key k) });
     (height, S) \<leftarrow> randomHeight S;
     (prev, S) \<leftarrow> (if height > getMaxHeight S then do {
          prev \<leftarrow> fill_prev prev (sk_head S) (getMaxHeight S) height;
          Some (prev, S\<lparr>sk_max_height := height\<rparr>) }
        else Some (prev, S));
     (x, S) \<leftarrow> newNode os nsz S key height;
     link_loop S x prev 0 height }"

section \<open>The iterator\<close>

record iterator =
  it_node :: nat

definition it_new :: iterator where
  "it_new = \<lparr>it_node = 0\<rparr>"

definition it_valid :: "iterator \<Rightarrow> bool" where
  "it_valid it = (it_node it \<noteq> 0)"

definition it_key :: "'k skiplist \<Rightarrow> iterator \<Rightarrow> 'k option" where
  "it_key S it = do { _ \<leftarrow> cassert (it_valid it); node_key S (it_node it) }"

definition it_next :: "'k skiplist \<Rightarrow> iterator \<Rightarrow> iterator option" where
  "it_next S it = do {
     _ \<leftarrow> cassert (it_valid it);
     n \<leftarrow> node_next S (it_node it) 0;
     Some (it\<lparr>it_node := n\<rparr>) }"

definition it_prev :: "('k \<Rightarrow> 'k \<Rightarrow> int) \<Rightarrow> 'k skiplist \<Rightarrow> iterator \<Rightarrow> iterator option" where
  "it_prev cmp S it = do {
     _ \<leftarrow> cassert (it_valid it);
     k \<leftarrow> node_key S (it_node it);
     n \<leftarrow> findLessThan cmp S k;
     let it = it\<lparr>it_node := n\<rparr>;
     Some (if it_node it = sk_head S then it\<lparr>it_node := 0\<rparr> else it) }"

definition it_seek :: "('k \<Rightarrow> 'k \<Rightarrow> int) \<Rightarrow> 'k skiplist \<Rightarrow> iterator \<Rightarrow> 'k \<Rightarrow> iterator option" where
  "it_seek cmp S it target = do {
     (n, _) \<leftarrow> findGreateOrEqual cmp S target None;
     Some (it\<lparr>it_node := n\<rparr>) }"

definition it_seekToFirst :: "'k skiplist \<Rightarrow> iterator \<Rightarrow> iterator option" where
  "it_seekToFirst S it = do {
     n \<leftarrow> node_next S (sk_head S) 0;
     Some (it\<lparr>it_node := n\<rparr>) }"

definition it_seekToLast :: "'k skiplist \<Rightarrow> iterator \<Rightarrow> iterator option" where
  "it_seekToLast S it = do {
     n \<leftarrow> findLast S;
     let it = it\<lparr>it_node := n\<rparr>;
     Some (if it_node it = sk_head S then it\<lparr>it_node := 0\<rparr> else it) }"

end
