(* ===== verification/KV_SkipInv.thy ===== *)
theory KV_SkipInv
  imports KV_SkipList
begin

text \<open>
  The invariant of the skip list, and that its searches and its insertion are correct with
  respect to it.

  The abstract value is the list \<open>ns\<close> of the nodes in key order. A node takes part in the
  lists of the levels below \<open>lv\<close> of it; for a list that no insertion is changing, \<open>lv\<close> is the
  height of the node, and while a node is being linked it is the number of levels linked so
  far. For every level the links run from the head through the nodes of that level in the
  order of \<open>ns\<close> and end in the null pointer (\<open>path\<close>).
\<close>

section \<open>The order of the keys\<close>

text \<open>
  What the skip list needs of its comparator on the keys \<open>D\<close> it is used with: a total
  preorder, decided by the sign.
\<close>

locale key_order =
  fixes cmp :: "'k \<Rightarrow> 'k \<Rightarrow> int"
    and D :: "'k \<Rightarrow> bool"
  assumes cmp_antisym: "D x \<Longrightarrow> D y \<Longrightarrow> sgn (cmp y x) = - sgn (cmp x y)"
    and cmp_trans: "D x \<Longrightarrow> D y \<Longrightarrow> D z \<Longrightarrow> cmp x y \<le> 0 \<Longrightarrow> cmp y z \<le> 0 \<Longrightarrow> cmp x z \<le> 0"
begin

lemma cmp_flip: "D x \<Longrightarrow> D y \<Longrightarrow> cmp y x < 0 \<longleftrightarrow> 0 < cmp x y"
  using cmp_antisym [of x y] by (simp add: sgn_if split: if_splits)

lemma cmp_zero: "D x \<Longrightarrow> D y \<Longrightarrow> cmp y x = 0 \<longleftrightarrow> cmp x y = 0"
  using cmp_antisym [of x y] by (simp add: sgn_if split: if_splits)

lemma cmp_refl: "D x \<Longrightarrow> cmp x x = 0"
  using cmp_antisym [of x x] by (simp add: sgn_if split: if_splits)

lemma cmp_less_le_trans:
  assumes "D x" "D y" "D z" "cmp x y < 0" "cmp y z \<le> 0"
  shows "cmp x z < 0"
proof (rule ccontr)
  assume "\<not> cmp x z < 0"
  then have "cmp z x \<le> 0" using cmp_flip [of z x] assms(1,3) by linarith
  then have "cmp y x \<le> 0" using cmp_trans assms by blast
  then show False using cmp_flip [of y x] assms by simp
qed

lemma cmp_le_less_trans:
  assumes "D x" "D y" "D z" "cmp x y \<le> 0" "cmp y z < 0"
  shows "cmp x z < 0"
proof (rule ccontr)
  assume "\<not> cmp x z < 0"
  then have "cmp z x \<le> 0" using cmp_flip [of z x] assms(1,3) by linarith
  then have "cmp z y \<le> 0" using cmp_trans assms by blast
  then show False using cmp_flip [of z y] assms by simp
qed

end

section \<open>Paths\<close>

fun path :: "'k skiplist \<Rightarrow> nat \<Rightarrow> nat list \<Rightarrow> bool" where
  "path S i [] = False"
| "path S i [x] = (node_next S x i = Some 0)"
| "path S i (x # y # ys) = (node_next S x i = Some y \<and> path S i (y # ys))"

definition hd0 :: "nat list \<Rightarrow> nat" where
  "hd0 xs = (case xs of [] \<Rightarrow> 0 | x # _ \<Rightarrow> x)"

lemma hd0_simps [simp]: "hd0 [] = 0" "hd0 (x # xs) = x"
  by (simp_all add: hd0_def)

lemma path_next: "path S i (x # xs) \<Longrightarrow> node_next S x i = Some (hd0 xs)"
  by (cases xs) auto

lemma path_Cons: "path S i (x # xs) \<longleftrightarrow> node_next S x i = Some (hd0 xs) \<and> (xs = [] \<or> path S i xs)"
  by (cases xs) auto

lemma path_suffix: "path S i (xs @ y # ys) \<Longrightarrow> path S i (y # ys)"
  by (induction xs) (auto simp: path_Cons)

lemma path_replace:
  assumes "path S i (xs @ y # ys)" "\<And>a. a \<in> set xs \<Longrightarrow> node_next T a i = node_next S a i"
    and "path T i (y # zs)"
  shows "path T i (xs @ y # zs)"
  using assms
proof (induction xs)
  case (Cons a xs)
  have "hd0 (xs @ y # ys) = hd0 (xs @ y # zs)" by (cases xs) auto
  then show ?case using Cons by (simp add: path_Cons)
qed simp

lemma path_cong:
  assumes "\<And>a. a \<in> set xs \<Longrightarrow> node_next T a i = node_next S a i"
  shows "path T i xs = path S i xs"
  using assms by (induction S i xs rule: path.induct) auto

section \<open>The shape of a skip list\<close>

definition keyof :: "'k skiplist \<Rightarrow> nat \<Rightarrow> 'k" where
  "keyof S a = the (node_key S a)"

abbreviation on_level :: "(nat \<Rightarrow> nat) \<Rightarrow> nat \<Rightarrow> nat list \<Rightarrow> nat list" where
  "on_level lv i xs \<equiv> filter (\<lambda>a. i < lv a) xs"

definition shape ::
    "('k \<Rightarrow> 'k \<Rightarrow> int) \<Rightarrow> ('k \<Rightarrow> bool) \<Rightarrow> 'k skiplist \<Rightarrow> nat list \<Rightarrow> (nat \<Rightarrow> nat) \<Rightarrow> bool" where
  "shape cmp D S ns lv \<longleftrightarrow>
     distinct (sk_head S # ns) \<and> 0 \<notin> set (sk_head S # ns)
   \<and> set (sk_head S # ns) \<subseteq> dom (sk_nodes S)
   \<and> 1 \<le> sk_max_height S \<and> sk_max_height S \<le> s_max_height
   \<and> lv (sk_head S) = s_max_height
   \<and> (\<forall>a \<in> set ns. 1 \<le> lv a \<and> lv a \<le> sk_max_height S \<and> D (keyof S a))
   \<and> sorted_wrt (\<lambda>a b. cmp (keyof S a) (keyof S b) < 0) ns
   \<and> (\<forall>i < s_max_height. path S i (on_level lv i (sk_head S # ns)))"

lemma shapeD:
  assumes "shape cmp D S ns lv"
  shows "distinct (sk_head S # ns)" "0 \<notin> set (sk_head S # ns)" "set (sk_head S # ns) \<subseteq> dom (sk_nodes S)"
    "1 \<le> sk_max_height S" "sk_max_height S \<le> s_max_height" "lv (sk_head S) = s_max_height"
    "a \<in> set ns \<Longrightarrow> 1 \<le> lv a" "a \<in> set ns \<Longrightarrow> lv a \<le> sk_max_height S" "a \<in> set ns \<Longrightarrow> D (keyof S a)"
    "sorted_wrt (\<lambda>a b. cmp (keyof S a) (keyof S b) < 0) ns"
    "i < s_max_height \<Longrightarrow> path S i (on_level lv i (sk_head S # ns))"
  using assms unfolding shape_def by blast+

lemma shape_node_key: "shape cmp D S ns lv \<Longrightarrow> a \<in> set (sk_head S # ns) \<Longrightarrow> node_key S a = Some (keyof S a)"
  using shapeD(3) [of cmp D S ns lv] by (auto simp: keyof_def node_key_def)

lemma shape_nonzero: "shape cmp D S ns lv \<Longrightarrow> a \<in> set (sk_head S # ns) \<Longrightarrow> a \<noteq> 0"
  using shapeD(2) [of cmp D S ns lv] by metis

lemma on_level_0: "shape cmp D S ns lv \<Longrightarrow> set xs \<subseteq> set ns \<Longrightarrow> on_level lv 0 xs = xs"
  using shapeD(7) by (fastforce simp: filter_id_conv)

text \<open>
  One step of a search. The search stands at \<open>x\<close>, one of the head and the nodes \<open>L\<close>; after
  them comes \<open>G\<close>. Its next link leads to a node of \<open>L\<close> further on, or, when the level has none
  in the rest of \<open>L\<close>, to the first node of \<open>G\<close> on this level.
\<close>

lemma search_step:
  assumes sh: "shape cmp D S (L @ G) lv" and x: "sk_head S # L = pre @ x # rest"
    and lev: "level < lv x" "level < s_max_height"
  obtains (Move) y r1 r2 where "rest = r1 @ y # r2" "level < lv y" "y \<in> set L"
      "node_next S x level = Some y"
  | (Down) "on_level lv level rest = []" "node_next S x level = Some (hd0 (on_level lv level G))"
      "x = last (on_level lv level (sk_head S # L))" "level = 0 \<Longrightarrow> rest = []"
proof -
  have "sk_head S # L @ G = pre @ x # rest @ G" using x by simp
  then have "path S level (on_level lv level (pre @ x # rest @ G))"
    using shapeD(11) [OF sh lev(2)] by metis
  then have "path S level (x # on_level lv level (rest @ G))" using lev(1) by (auto dest: path_suffix)
  then have nxt: "node_next S x level = Some (hd0 (on_level lv level (rest @ G)))" by (rule path_next)
  have sub: "set rest \<subseteq> set L" using x by (cases pre) auto
  show thesis
  proof (cases "on_level lv level rest")
    case Nil
    have "x = last (on_level lv level (sk_head S # L))" unfolding x using Nil lev(1) by simp
    moreover have "level = 0 \<Longrightarrow> rest = []"
      using Nil on_level_0 [OF sh, of rest] sub by auto
    ultimately show thesis using that(2) Nil nxt by simp
  next
    case (Cons y ys)
    then obtain r1 r2 where "rest = r1 @ y # r2" "level < lv y"
      by (auto simp: filter_eq_Cons_iff)
    moreover have "node_next S x level = Some y" using nxt Cons by simp
    ultimately show thesis using that(1) [of r1 y r2] sub by auto
  qed
qed


section \<open>The searches\<close>

text \<open>The predecessor on a level: the last node of the level among the head and \<open>L\<close>.\<close>

definition pred :: "'k skiplist \<Rightarrow> (nat \<Rightarrow> nat) \<Rightarrow> nat list \<Rightarrow> nat \<Rightarrow> nat" where
  "pred S lv L i = last (on_level lv i (sk_head S # L))"

definition fill_pred :: "'k skiplist \<Rightarrow> (nat \<Rightarrow> nat) \<Rightarrow> nat list \<Rightarrow> nat \<Rightarrow> prevs \<Rightarrow> prevs" where
  "fill_pred S lv L n p = map (\<lambda>i. if i < n then Some (pred S lv L i) else p ! i) [0..<length p]"

lemma length_fill_pred [simp]: "length (fill_pred S lv L n p) = length p"
  by (simp add: fill_pred_def)

lemma fill_pred_nth: "i < length p \<Longrightarrow> fill_pred S lv L n p ! i = (if i < n then Some (pred S lv L i) else p ! i)"
  by (simp add: fill_pred_def)

lemma fill_pred_update:
  "n < length p \<Longrightarrow> fill_pred S lv L n (p[n := Some (pred S lv L n)]) = fill_pred S lv L (Suc n) p"
  by (rule nth_equalityI) (auto simp: fill_pred_nth nth_list_update less_Suc_eq)

text \<open>
  What a search knows of the two parts of the list: \<open>L\<close> are the nodes before the key, \<open>G\<close>
  the others.
\<close>

definition split_at ::
    "('k \<Rightarrow> 'k \<Rightarrow> int) \<Rightarrow> 'k skiplist \<Rightarrow> 'k \<Rightarrow> nat list \<Rightarrow> nat list \<Rightarrow> bool" where
  "split_at cmp S key L G \<longleftrightarrow> (\<forall>a \<in> set L. cmp (keyof S a) key < 0) \<and> (\<forall>a \<in> set G. 0 \<le> cmp (keyof S a) key)"

lemma hd0_G:
  assumes "shape cmp D S (L @ G) lv" "split_at cmp S key L G"
  shows "hd0 (on_level lv i G) = 0 \<or> node_key S (hd0 (on_level lv i G)) = Some (keyof S (hd0 (on_level lv i G)))
    \<and> hd0 (on_level lv i G) \<noteq> 0 \<and> 0 \<le> cmp (keyof S (hd0 (on_level lv i G))) key"
proof (cases "on_level lv i G")
  case (Cons a as)
  then have "a \<in> set (on_level lv i G)" by simp
  then have "a \<in> set G" by simp
  then show ?thesis using Cons assms shape_node_key [OF assms(1), of a] shape_nonzero [OF assms(1), of a]
    by (auto simp: split_at_def)
qed simp

lemma findGE_loop_ok:
  assumes sh: "shape cmp D S (L @ G) lv" and sp: "split_at cmp S key L G"
    and x: "sk_head S # L = pre @ x # rest" and lev: "level < lv x" "level < s_max_height"
    and prev: "\<And>p. prev = Some p \<Longrightarrow> level < length p"
  shows "findGE_loop cmp S key x level prev =
    Some (hd0 G, map_option (fill_pred S lv L (Suc level)) prev)"
  using x lev prev
proof (induction "level + length rest" arbitrary: pre x rest level prev rule: less_induct)
  case less
  from sh less.prems(1-3) show ?case
  proof (cases rule: search_step)
    case (Move y r1 r2)
    have "y \<noteq> 0" "node_key S y = Some (keyof S y)" "cmp (keyof S y) key < 0"
      using Move(3) shape_nonzero [OF sh, of y] shape_node_key [OF sh, of y] sp
      by (auto simp: split_at_def)
    then have step: "findGE_loop cmp S key x level prev = findGE_loop cmp S key y level prev"
      using Move(4) by (subst findGE_loop.simps) (simp add: keyIsAfterNode_def)
    show ?thesis unfolding step
      by (rule less.hyps [of _ r2 "pre @ x # r1"]) (use less.prems Move in auto)
  next
    case Down
    let ?n = "hd0 (on_level lv level G)"
    have after: "keyIsAfterNode cmp S key ?n = Some False"
      using hd0_G [OF sh sp, of level] by (auto simp: keyIsAfterNode_def)
    have x: "x = pred S lv L level" using Down(3) by (simp only: pred_def)
    define prev' where "prev' = map_option (\<lambda>p. p[level := Some x]) prev"
    have store: "(case prev of None \<Rightarrow> Some None | Some p \<Rightarrow> map_option Some (store_prev p level x)) = Some prev'"
      using less.prems(4) by (auto simp: prev'_def store_prev_def split: option.splits)
    have fill: "map_option (fill_pred S lv L level) prev' = map_option (fill_pred S lv L (Suc level)) prev"
      using less.prems(4) by (cases prev) (simp_all add: prev'_def x fill_pred_update)
    have step: "findGE_loop cmp S key x level prev = (if level = 0 then Some (?n, prev')
        else findGE_loop cmp S key x (level - 1) prev')"
      by (subst findGE_loop.simps) (simp add: Down(2) after store)
    show ?thesis
    proof (cases "level = 0")
      case True
      have "map_option (fill_pred S lv L 0) prev' = prev'"
        by (cases prev') (simp_all add: fill_pred_def map_nth)
      then show ?thesis using step fill True on_level_0 [OF sh, of G] by simp
    next
      case False
      have "findGE_loop cmp S key x (level - 1) prev' =
          Some (hd0 G, map_option (fill_pred S lv L (Suc (level - 1))) prev')"
        by (rule less.hyps [of _ rest pre])
          (use less.prems False in \<open>auto simp: prev'_def less_imp_diff_less\<close>)
      then show ?thesis using step fill False by simp
    qed
  qed
qed

lemma findLT_loop_ok:
  assumes sh: "shape cmp D S (L @ G) lv" and sp: "split_at cmp S key L G"
    and x: "sk_head S # L = pre @ x # rest" and lev: "level < lv x" "level < s_max_height"
  shows "findLT_loop cmp S key x level = Some (last (sk_head S # L))"
  using x lev
proof (induction "level + length rest" arbitrary: pre x rest level rule: less_induct)
  case less
  have "x = sk_head S \<or> x \<in> set L" using less.prems(1) by (cases pre) auto
  then have assert: "(if x = sk_head S then Some () else do { k \<leftarrow> node_key S x; cassert (cmp k key < 0) }) = Some ()"
    using shape_node_key [OF sh, of x] sp by (auto simp: split_at_def)
  from sh less.prems show ?case
  proof (cases rule: search_step)
    case (Move y r1 r2)
    have "y \<noteq> 0" "node_key S y = Some (keyof S y)" "cmp (keyof S y) key < 0"
      using Move(3) shape_nonzero [OF sh, of y] shape_node_key [OF sh, of y] sp
      by (auto simp: split_at_def)
    then have step: "findLT_loop cmp S key x level = findLT_loop cmp S key y level"
      using Move(4) assert by (subst findLT_loop.simps) simp
    show ?thesis unfolding step
      by (rule less.hyps [of _ r2 "pre @ x # r1"]) (use less.prems Move in auto)
  next
    case Down
    let ?n = "hd0 (on_level lv level G)"
    have "(if ?n = 0 then Some True else do { k \<leftarrow> node_key S ?n; Some (cmp k key \<ge> 0) }) = Some True"
      using hd0_G [OF sh sp, of level] by auto
    then have step: "findLT_loop cmp S key x level = (if level = 0 then Some x
        else findLT_loop cmp S key x (level - 1))"
      by (subst findLT_loop.simps) (simp add: Down(2) assert)
    show ?thesis
    proof (cases "level = 0")
      case True
      then show ?thesis using step less.prems(1) Down(4) by simp
    next
      case False
      have "findLT_loop cmp S key x (level - 1) = Some (last (sk_head S # L))"
        by (rule less.hyps [of _ rest pre]) (use less.prems False in auto)
      then show ?thesis using step False by simp
    qed
  qed
qed

lemma findLast_loop_ok:
  assumes sh: "shape cmp D S ns lv"
    and x: "sk_head S # ns = pre @ x # rest" and lev: "level < lv x" "level < s_max_height"
  shows "findLast_loop S x level = Some (last (sk_head S # ns))"
  using x lev
proof (induction "level + length rest" arbitrary: pre x rest level rule: less_induct)
  case less
  have sh': "shape cmp D S (ns @ []) lv" using sh by simp
  from sh' less.prems show ?case
  proof (cases rule: search_step)
    case (Move y r1 r2)
    have "y \<noteq> 0" using Move(3) shape_nonzero [OF sh, of y] by auto
    then have step: "findLast_loop S x level = findLast_loop S y level"
      using Move(4) by (subst findLast_loop.simps) simp
    show ?thesis unfolding step
      by (rule less.hyps [of _ r2 "pre @ x # r1"]) (use less.prems Move in auto)
  next
    case Down
    then have step: "findLast_loop S x level = (if level = 0 then Some x else findLast_loop S x (level - 1))"
      by (subst findLast_loop.simps) simp
    show ?thesis
    proof (cases "level = 0")
      case True
      then show ?thesis using step less.prems(1) Down(4) by simp
    next
      case False
      have "findLast_loop S x (level - 1) = Some (last (sk_head S # ns))"
        by (rule less.hyps [of _ rest pre]) (use less.prems False in auto)
      then show ?thesis using step False by simp
    qed
  qed
qed


section \<open>Writing a link\<close>

text \<open>Two states that differ in link values only.\<close>

definition same_frame :: "'k skiplist \<Rightarrow> 'k skiplist \<Rightarrow> bool" where
  "same_frame S T \<longleftrightarrow> T = S\<lparr>sk_nodes := sk_nodes T\<rparr>
     \<and> (\<forall>a. map_option (\<lambda>nd. (nd_key nd, length (nd_nexts nd))) (sk_nodes T a) =
          map_option (\<lambda>nd. (nd_key nd, length (nd_nexts nd))) (sk_nodes S a))"

lemma same_frame_refl [simp]: "same_frame S S"
  by (simp add: same_frame_def)

lemma same_frame_trans:
  assumes "same_frame S T" "same_frame T U"
  shows "same_frame S U"
proof -
  have "T = S\<lparr>sk_nodes := sk_nodes T\<rparr>" "U = T\<lparr>sk_nodes := sk_nodes U\<rparr>"
    using assms by (simp_all add: same_frame_def)
  then have "U = S\<lparr>sk_nodes := sk_nodes T\<rparr>\<lparr>sk_nodes := sk_nodes U\<rparr>" by metis
  then have "U = S\<lparr>sk_nodes := sk_nodes U\<rparr>" by simp
  then show ?thesis using assms by (simp add: same_frame_def)
qed

lemma same_frameD:
  assumes "same_frame S T"
  shows "sk_head T = sk_head S" "sk_max_height T = sk_max_height S" "sk_rnd T = sk_rnd S"
    "sk_arena T = sk_arena S" "node_key T a = node_key S a" "keyof T a = keyof S a"
    "dom (sk_nodes T) = dom (sk_nodes S)"
    "map_option (length \<circ> nd_nexts) (sk_nodes T a) = map_option (length \<circ> nd_nexts) (sk_nodes S a)"
proof -
  have T: "T = S\<lparr>sk_nodes := sk_nodes T\<rparr>" using assms by (simp add: same_frame_def)
  show "sk_head T = sk_head S" "sk_max_height T = sk_max_height S" "sk_rnd T = sk_rnd S"
    "sk_arena T = sk_arena S" by (subst T, simp)+
  have eq: "map_option (\<lambda>nd. (nd_key nd, length (nd_nexts nd))) (sk_nodes T a) =
      map_option (\<lambda>nd. (nd_key nd, length (nd_nexts nd))) (sk_nodes S a)" for a
    using assms by (simp add: same_frame_def)
  show nk: "node_key T a = node_key S a" using arg_cong [OF eq [of a], of "map_option fst"]
    by (simp add: node_key_def option.map_comp comp_def)
  then show "keyof T a = keyof S a" by (simp add: keyof_def)
  show "map_option (length \<circ> nd_nexts) (sk_nodes T a) = map_option (length \<circ> nd_nexts) (sk_nodes S a)"
    using arg_cong [OF eq [of a], of "map_option snd"] by (simp add: option.map_comp comp_def)
  show "dom (sk_nodes T) = dom (sk_nodes S)"
    using eq by (metis (no_types, lifting) dom_map_option domIff map_option_is_None subsetI subset_antisym)
qed

lemma setNext_ok:
  assumes "sk_nodes S p = Some nd" "i < length (nd_nexts nd)"
  shows "\<exists>T. setNext S p i v = Some T \<and> same_frame S T
    \<and> (\<forall>a k. node_next T a k = (if a = p \<and> k = i then Some v else node_next S a k))"
  using assms by (auto simp: setNext_def same_frame_def node_next_def nth_list_update)

lemma node_next_node: "node_next S p i = Some v \<Longrightarrow> \<exists>nd. sk_nodes S p = Some nd \<and> i < length (nd_nexts nd)"
  by (auto simp: node_next_def split: bind_splits if_splits)

section \<open>Linking a node\<close>

definition linked :: "'k skiplist \<Rightarrow> nat list \<Rightarrow> (nat \<Rightarrow> nat) \<Rightarrow> bool" where
  "linked S ns lv \<longleftrightarrow> (\<forall>i < s_max_height. path S i (on_level lv i (sk_head S # ns)))"

lemma on_level_upd [simp]: "x \<notin> set xs \<Longrightarrow> on_level (lv(x := j)) i xs = on_level lv i xs"
  by (rule filter_cong) auto

lemma pred_split:
  assumes "i < lv (sk_head S)"
  shows "\<exists>A. on_level lv i (sk_head S # L) = A @ [pred S lv L i]"
  using assms by (intro exI [of _ "butlast (on_level lv i (sk_head S # L))"]) (simp add: pred_def)

text \<open>
  The list on level \<open>i\<close> when the new node \<open>x\<close> is linked on the levels below \<open>k\<close>, and the
  predecessor of \<open>x\<close> there.
\<close>

lemma on_level_at:
  assumes "x \<notin> set (sk_head S # L)" "x \<notin> set G"
  shows "on_level (lv(x := k)) i (sk_head S # L @ x # G) =
      on_level lv i (sk_head S # L) @ (if i < k then [x] else []) @ on_level lv i G"
proof -
  have e: "sk_head S # L @ x # G = (sk_head S # L) @ [x] @ G" by simp
  show ?thesis unfolding e filter_append on_level_upd [OF assms(1)] on_level_upd [OF assms(2)] by simp
qed

lemma pred_place:
  assumes "j < lv (sk_head S)" "distinct (sk_head S # L)"
  obtains A where "on_level lv j (sk_head S # L) = A @ [pred S lv L j]"
    "set A \<subseteq> set (sk_head S # L)" "pred S lv L j \<in> set (sk_head S # L)" "pred S lv L j \<notin> set A"
proof -
  obtain A where A: "on_level lv j (sk_head S # L) = A @ [pred S lv L j]" using pred_split assms(1) by metis
  have "set (A @ [pred S lv L j]) \<subseteq> set (sk_head S # L)" unfolding A [symmetric] by auto
  moreover have "distinct (A @ [pred S lv L j])" unfolding A [symmetric] by (rule distinct_filter) (rule assms(2))
  ultimately show thesis using A by (intro that) auto
qed

text \<open>Redirecting one link of level \<open>j\<close> puts a node into the list of that level and leaves the others alone.\<close>

lemma path_link:
  assumes path: "path S j (A @ p # ns)" and px: "p \<noteq> x" "p \<notin> set A" "p \<notin> set ns" "x \<notin> set A" "x \<notin> set ns"
    and nxt: "\<And>a k. node_next T a k = (if a = p \<and> k = j then Some x else if a = x \<and> k = j then Some (hd0 ns)
      else node_next S a k)"
  shows "path T j (A @ p # x # ns)"
proof -
  have "path T j ns" if "ns \<noteq> []"
  proof -
    have "path S j ns" using path_suffix [OF path] that by (simp add: path_Cons)
    moreover have "path T j ns = path S j ns" by (rule path_cong) (use nxt px in auto)
    ultimately show ?thesis by simp
  qed
  then have "path T j (x # ns)" using nxt px by (auto simp: path_Cons)
  then have pp: "path T j (p # x # ns)" using nxt by simp
  show ?thesis by (rule path_replace [OF path _ pp]) (use nxt px in auto)
qed

text \<open>
  One level of the loop in \<open>insert\<close>: the two writes put the node \<open>x\<close> between its predecessor
  on level \<open>j\<close> and the successor of that.
\<close>

lemma link_step:
  assumes lk: "linked S (L @ x # G) (lv(x := j))" and dist: "distinct (sk_head S # L @ x # G)"
    and hd: "lv (sk_head S) = s_max_height" and j: "j < s_max_height"
    and nd: "sk_nodes S x = Some nd" "j < length (nd_nexts nd)"
  shows "\<exists>n S1 S2. noBarrierNext S (pred S lv L j) j = Some n \<and> noBarrierSetNext S x j n = Some S1
    \<and> setNext S1 (pred S lv L j) j x = Some S2 \<and> same_frame S S2
    \<and> linked S2 (L @ x # G) (lv(x := Suc j))
    \<and> n = hd0 (on_level lv j G)
    \<and> (\<forall>a k. node_next S1 a k = (if a = x \<and> k = j then Some n else node_next S a k))
    \<and> (\<forall>a k. node_next S2 a k = (if a = pred S lv L j \<and> k = j then Some x else node_next S1 a k))"
proof -
  let ?p = "pred S lv L j"
  define n where "n = hd0 (on_level lv j G)"
  have xs: "x \<notin> set (sk_head S # L)" "x \<notin> set G" using dist by auto
  note at = on_level_at [OF xs]
  obtain A where A: "on_level lv j (sk_head S # L) = A @ [?p]"
    and p: "set A \<subseteq> set (sk_head S # L)" "?p \<in> set (sk_head S # L)" "?p \<notin> set A"
    using pred_place [of j lv S L] hd j dist by auto
  have px: "?p \<noteq> x" "?p \<notin> set (on_level lv j G)" "x \<notin> set A" "x \<notin> set (on_level lv j G)"
    using p xs dist by auto
  have path_j: "path S j (A @ ?p # on_level lv j G)"
    using lk [unfolded linked_def, rule_format, OF j] unfolding at A by simp
  have next_p: "node_next S ?p j = Some n" unfolding n_def using path_next [OF path_suffix [OF path_j]] .
  obtain S1 where S1: "setNext S x j n = Some S1" "same_frame S S1"
    "\<forall>a k. node_next S1 a k = (if a = x \<and> k = j then Some n else node_next S a k)"
    using setNext_ok [OF nd] by blast
  obtain ndp where ndp: "sk_nodes S1 ?p = Some ndp" "j < length (nd_nexts ndp)"
    using node_next_node [of S1 ?p j n] S1(3) next_p px(1) by auto
  obtain S2 where S2: "setNext S1 ?p j x = Some S2" "same_frame S1 S2"
    "\<forall>a k. node_next S2 a k = (if a = ?p \<and> k = j then Some x else node_next S1 a k)"
    using setNext_ok [OF ndp] by blast
  have frame: "same_frame S S2" using S1(2) S2(2) by (rule same_frame_trans)
  have nxt: "node_next S2 a k = (if a = ?p \<and> k = j then Some x else if a = x \<and> k = j then Some n
      else node_next S a k)" for a k using S1(3) S2(3) by simp
  have "path S2 i (on_level (lv(x := Suc j)) i (sk_head S # L @ x # G))" if i: "i < s_max_height" for i
  proof (cases "i = j")
    case False
    have "on_level (lv(x := Suc j)) i (sk_head S # L @ x # G) = on_level (lv(x := j)) i (sk_head S # L @ x # G)"
      using False unfolding at by auto
    then show ?thesis using path_cong [of _ S2 i S] nxt False lk i by (simp add: linked_def)
  next
    case True
    have "path S2 j (A @ ?p # x # on_level lv j G)"
      by (rule path_link [OF path_j px(1) p(3) px(2-4)]) (simp add: nxt n_def)
    then show ?thesis unfolding True at A by simp
  qed
  then have "linked S2 (L @ x # G) (lv(x := Suc j))"
    unfolding linked_def same_frameD(1) [OF frame] by blast
  then show ?thesis using next_p S1 S2 frame n_def by (auto simp: noBarrierNext_def noBarrierSetNext_def)
qed

lemma pred_frame: "same_frame S T \<Longrightarrow> pred T lv L i = pred S lv L i"
  using same_frameD(1) [of S T] by (simp add: pred_def)

lemma link_loop_ok:
  assumes "linked S (L @ x # G) (lv(x := j))" "distinct (sk_head S # L @ x # G)"
    and "lv (sk_head S) = s_max_height" "height \<le> s_max_height" "j \<le> height"
    and "sk_nodes S x = Some nd" "height \<le> length (nd_nexts nd)"
    and "\<forall>i < height. load_prev prev i = Some (pred S lv L i)"
  shows "\<exists>T. link_loop S x prev j height = Some T \<and> same_frame S T
    \<and> linked T (L @ x # G) (lv(x := height))"
  using assms
proof (induction "height - j" arbitrary: S j nd)
  case 0
  then show ?case by (simp add: link_loop.simps [of S])
next
  case (Suc d)
  then have j: "j < height" by simp
  have "j < s_max_height" "j < length (nd_nexts nd)" using j Suc.prems by auto
  from link_step [OF Suc.prems(1-3) this(1) Suc.prems(6) this(2)]
  obtain n S1 S2 where st: "noBarrierNext S (pred S lv L j) j = Some n"
    "noBarrierSetNext S x j n = Some S1" "setNext S1 (pred S lv L j) j x = Some S2"
    "same_frame S S2" "linked S2 (L @ x # G) (lv(x := Suc j))"
    by blast
  have step: "link_loop S x prev j height = link_loop S2 x prev (Suc j) height"
    using j st Suc.prems(8) by (simp add: link_loop.simps [of S])
  note f = same_frameD [OF st(4)]
  obtain nd2 where nd2: "sk_nodes S2 x = Some nd2" "length (nd_nexts nd2) = length (nd_nexts nd)"
    using f(8) [of x] Suc.prems(6) by (auto simp: map_option_case split: option.splits)
  have "\<exists>T. link_loop S2 x prev (Suc j) height = Some T \<and> same_frame S2 T
      \<and> linked T (L @ x # G) (lv(x := height))"
    by (rule Suc.hyps(1) [OF _ st(5) _ _ _ _ nd2(1)])
      (use Suc.hyps(2) Suc.prems j f(1) nd2(2) pred_frame [OF st(4), of lv L] in auto)
  then show ?case using step same_frame_trans [OF st(4)] by auto
qed

lemma fill_prev_ok:
  assumes "height \<le> length p"
  shows "fill_prev p h i height =
    Some (map (\<lambda>k. if i \<le> k \<and> k < height then Some h else p ! k) [0..<length p])"
  using assms
proof (induction "height - i" arbitrary: p i)
  case 0
  then have "fill_prev p h i height = Some p" by (simp add: fill_prev.simps [of p])
  moreover have "map (\<lambda>k. if i \<le> k \<and> k < height then Some h else p ! k) [0..<length p] = p"
    using 0 by (intro nth_equalityI) auto
  ultimately show ?case by simp
next
  case (Suc d)
  then have i: "i < height" by simp
  have "fill_prev p h i height = fill_prev (p[i := Some h]) h (Suc i) height"
    using i Suc.prems by (simp add: fill_prev.simps [of p] store_prev_def)
  also have "\<dots> = Some (map (\<lambda>k. if Suc i \<le> k \<and> k < height then Some h else p[i := Some h] ! k)
      [0..<length (p[i := Some h])])"
    by (rule Suc.hyps(1)) (use Suc in auto)
  also have "\<dots> = Some (map (\<lambda>k. if i \<le> k \<and> k < height then Some h else p ! k) [0..<length p])"
    using i by (auto simp: nth_list_update intro!: map_cong)
  finally show ?case .
qed


section \<open>The invariant\<close>

definition height_of :: "'k skiplist \<Rightarrow> nat \<Rightarrow> nat" where
  "height_of S a = (case sk_nodes S a of Some nd \<Rightarrow> length (nd_nexts nd) | None \<Rightarrow> 0)"

text \<open>Every node lies in its own region of the arena, which others may use as well.\<close>

definition sk_mem :: "os \<Rightarrow> nat \<Rightarrow> arena \<Rightarrow> (nat \<rightharpoonup> 'k node) \<Rightarrow> bool" where
  "sk_mem os nsz A nodes \<longleftrightarrow> good_new os \<and> 8 \<le> nsz \<and> nsz \<le> 2 ^ 32
     \<and> (\<exists>R. arena_inv A R \<and> (\<forall>a nd. nodes a = Some nd \<longrightarrow>
          (a, nsz + 8 * (length (nd_nexts nd) - 1)) \<in> set R))"

definition sk_inv ::
    "os \<Rightarrow> nat \<Rightarrow> ('k \<Rightarrow> 'k \<Rightarrow> int) \<Rightarrow> ('k \<Rightarrow> bool) \<Rightarrow> 'k skiplist \<Rightarrow> nat list \<Rightarrow> bool" where
  "sk_inv os nsz cmp D S ns \<longleftrightarrow> shape cmp D S ns (height_of S)
     \<and> dom (sk_nodes S) = set (sk_head S # ns) \<and> random_ok (sk_rnd S)
     \<and> sk_mem os nsz (sk_arena S) (sk_nodes S)"

text \<open>The keys, in order.\<close>

definition keys_of :: "'k skiplist \<Rightarrow> nat list \<Rightarrow> 'k list" where
  "keys_of S ns = map (keyof S) ns"

lemma same_frame_height: "same_frame S T \<Longrightarrow> height_of T = height_of S"
proof
  fix a assume "same_frame S T"
  then show "height_of T a = height_of S a" using same_frameD(8) [of S T a]
    by (auto simp: height_of_def split: option.splits)
qed

lemma sk_mem_frame:
  assumes "same_frame S T" "sk_mem os nsz A (sk_nodes S)"
  shows "sk_mem os nsz A (sk_nodes T)"
proof -
  have "\<exists>nd'. sk_nodes S a = Some nd' \<and> length (nd_nexts nd') = length (nd_nexts nd)"
    if "sk_nodes T a = Some nd" for a nd
    using same_frameD(8) [OF assms(1), of a] that by (auto simp: map_option_case split: option.splits)
  then show ?thesis using assms(2) unfolding sk_mem_def by metis
qed

lemma shape_linked: "shape cmp D S ns lv \<Longrightarrow> linked S ns lv"
  unfolding linked_def shape_def by blast

lemma random_height_loop_ok:
  "random_ok rnd \<Longrightarrow> h \<le> 12 \<Longrightarrow> \<exists>h' rnd'. randomHeight_loop rnd h = Some (h', rnd') \<and> h \<le> h' \<and> h' \<le> 12 \<and> random_ok rnd'"
proof (induction "12 - h" arbitrary: rnd h)
  case 0
  then show ?case by (simp add: randomHeight_loop.simps [of rnd])
next
  case (Suc d)
  then have h: "h < 12" by simp
  obtain b rnd' where one: "oneIn rnd 4 = Some (b, rnd')" "random_ok rnd'"
    using oneIn_ok [OF Suc.prems(1), of 4] by auto
  show ?case
  proof (cases b)
    case True
    then have "randomHeight_loop rnd h = randomHeight_loop rnd' (Suc h)"
      using one h by (simp add: randomHeight_loop.simps [of rnd])
    then show ?thesis using Suc.hyps(1) [of "Suc h" rnd'] Suc.hyps(2) one(2) by fastforce
  next
    case False
    then have "randomHeight_loop rnd h = Some (h, rnd')" using one h by (simp add: randomHeight_loop.simps [of rnd])
    then show ?thesis using one(2) h by simp
  qed
qed

lemma randomHeight_ok:
  assumes "random_ok (sk_rnd S)"
  shows "\<exists>h rnd'. randomHeight S = Some (h, S\<lparr>sk_rnd := rnd'\<rparr>) \<and> 1 \<le> h \<and> h \<le> 12 \<and> random_ok rnd'"
  using random_height_loop_ok [OF assms, of 1] by (auto simp: randomHeight_def)

lemma newNode_ok:
  assumes mem: "sk_mem os nsz (sk_arena S) (sk_nodes S)" and h: "1 \<le> h" "h \<le> 12"
    and res: "newNode os nsz S key h = Some (x, T)"
  shows "x \<noteq> 0 \<and> x \<notin> dom (sk_nodes S) \<and> 8 dvd x
    \<and> T = S\<lparr>sk_arena := sk_arena T, sk_nodes := (sk_nodes S)(x \<mapsto> \<lparr>nd_key = key, nd_nexts = replicate h None\<rparr>)\<rparr>
    \<and> sk_mem os nsz (sk_arena T) (sk_nodes T)"
proof -
  let ?n = "nsz + 8 * (h - 1)"
  obtain A where A: "allocateAligned os (sk_arena S) ?n = Some (x, A)"
    and T: "T = S\<lparr>sk_arena := A, sk_nodes := (sk_nodes S)(x \<mapsto> \<lparr>nd_key = key, nd_nexts = replicate h None\<rparr>)\<rparr>"
    using res by (auto simp: newNode_def split: bind_splits)
  obtain R where R: "arena_inv (sk_arena S) R"
    "\<And>a nd. sk_nodes S a = Some nd \<Longrightarrow> (a, nsz + 8 * (length (nd_nexts nd) - 1)) \<in> set R"
    using mem unfolding sk_mem_def by blast
  have g: "good_new os" "8 \<le> nsz" "nsz \<le> 2 ^ 32" using mem by (simp_all add: sk_mem_def)
  then have n: "0 < ?n" "?n \<le> 2 ^ 64 - 8" using h by simp_all
  note ok = allocateAligned_ok [OF R(1) g(1) n A]
  have "x \<notin> dom (sk_nodes S)"
  proof
    assume "x \<in> dom (sk_nodes S)"
    then obtain nd where "sk_nodes S x = Some nd" by auto
    then have r: "(x, nsz + 8 * (length (nd_nexts nd) - 1)) \<in> set R" by (rule R(2))
    have "region_disj (x, ?n) (x, nsz + 8 * (length (nd_nexts nd) - 1))"
      using ok r unfolding arena_inv_def by auto
    then show False using g(2) by (auto simp: region_disj_def)
  qed
  moreover have "sk_mem os nsz (sk_arena T) (sk_nodes T)"
    unfolding sk_mem_def using g ok R(2) T by (intro conjI exI [of _ "(x, ?n) # R"]) auto
  ultimately show ?thesis using ok T by simp
qed

context key_order
begin

lemma sorted_split:
  assumes "shape cmp D S ns lv" "D k"
  defines "L \<equiv> takeWhile (\<lambda>a. cmp (keyof S a) k < 0) ns" and "G \<equiv> dropWhile (\<lambda>a. cmp (keyof S a) k < 0) ns"
  shows "ns = L @ G" "split_at cmp S k L G"
proof -
  show ns: "ns = L @ G" by (simp add: L_def G_def)
  have "0 \<le> cmp (keyof S a) k" if "a \<in> set G" for a
  proof (cases G)
    case (Cons g G')
    then have g: "0 \<le> cmp (keyof S g) k"
      using hd_dropWhile [of "\<lambda>a. cmp (keyof S a) k < 0" ns] by (simp add: G_def [symmetric] not_less)
    have D: "D (keyof S g)" "D (keyof S a)" using shapeD(9) [OF assms(1)] that Cons ns by auto
    show ?thesis
    proof (cases "a = g")
      case False
      then have "cmp (keyof S g) (keyof S a) < 0"
        using shapeD(10) [OF assms(1)] that unfolding ns Cons by (auto simp: sorted_wrt_append)
      then show ?thesis using cmp_trans [OF D(2) assms(2) D(1)] g cmp_flip [OF D] cmp_flip [OF D(1) assms(2)]
          cmp_le_less_trans [OF D(1,2) assms(2)] by fastforce
    qed (simp add: g)
  qed (use that in simp)
  moreover have "cmp (keyof S a) k < 0" if "a \<in> set L" for a
    using set_takeWhileD that unfolding L_def by metis
  ultimately show "split_at cmp S k L G" by (simp add: split_at_def)
qed

lemma findGE_ok:
  assumes sh: "shape cmp D S (L @ G) lv" and sp: "split_at cmp S k L G" and p: "\<And>p. prev = Some p \<Longrightarrow> s_max_height \<le> length p"
  shows "findGreateOrEqual cmp S k prev =
    Some (hd0 G, map_option (fill_pred S lv L (sk_max_height S)) prev)"
proof -
  note mh = shapeD(4-6) [OF sh]
  have "findGE_loop cmp S k (sk_head S) (sk_max_height S - 1) prev =
      Some (hd0 G, map_option (fill_pred S lv L (Suc (sk_max_height S - 1))) prev)"
    by (rule findGE_loop_ok [OF sh sp, of "[]"]) (use mh p in auto)
  then show ?thesis using mh by (simp add: findGreateOrEqual_def getMaxHeight_def)
qed

lemma findLT_ok:
  assumes sh: "shape cmp D S (L @ G) lv" and sp: "split_at cmp S k L G"
  shows "findLessThan cmp S k = Some (last (sk_head S # L))"
  unfolding findLessThan_def getMaxHeight_def
  by (rule findLT_loop_ok [OF sh sp, of "[]"]) (use shapeD(4-6) [OF sh] in auto)

lemma findLast_ok:
  assumes sh: "shape cmp D S ns lv"
  shows "findLast S = Some (last (sk_head S # ns))"
  unfolding findLast_def getMaxHeight_def
  by (rule findLast_loop_ok [OF sh, of "[]"]) (use shapeD(4-6) [OF sh] in auto)

end


section \<open>Insertion\<close>

lemma pred_above:
  assumes sh: "shape cmp D S (L @ G) lv" and i: "sk_max_height S \<le> i" "i < s_max_height"
  shows "pred S lv L i = sk_head S"
proof -
  have "on_level lv i L = []"
    using shapeD(8) [OF sh] i by (fastforce simp: filter_empty_conv)
  then show ?thesis using shapeD(6) [OF sh] i by (simp add: pred_def)
qed

text \<open>The array of predecessors that the linking loop uses is right on every level of the node.\<close>

lemma prevs_ok:
  assumes sh: "shape cmp D S (L @ G) lv" and h: "1 \<le> h" "h \<le> s_max_height"
    and p: "p = fill_pred S lv L (sk_max_height S) (replicate s_max_height None)"
  shows "\<exists>p'. (if h > sk_max_height S then fill_prev p (sk_head S) (sk_max_height S) h else Some p) = Some p'
    \<and> (\<forall>i < h. load_prev p' i = Some (pred S lv L i))"
proof (cases "h > sk_max_height S")
  case True
  have len: "length p = s_max_height" by (simp add: p)
  then have "fill_prev p (sk_head S) (sk_max_height S) h =
      Some (map (\<lambda>k. if sk_max_height S \<le> k \<and> k < h then Some (sk_head S) else p ! k) [0..<length p])"
    using h by (intro fill_prev_ok) simp
  then show ?thesis using True h len pred_above [OF sh] by (auto simp: load_prev_def p fill_pred_nth)
next
  case False
  then show ?thesis using h by (auto simp: load_prev_def p fill_pred_nth)
qed

lemma linked_new:
  assumes "linked S (L @ G) lv" "x \<notin> set (sk_head S # L @ G)"
    and "sk_head T = sk_head S" "\<And>a i. a \<noteq> x \<Longrightarrow> node_next T a i = node_next S a i"
  shows "linked T (L @ x # G) (lv(x := 0))"
  unfolding linked_def
proof (intro allI impI)
  fix i :: nat assume i: "i < s_max_height"
  have xs: "x \<notin> set (sk_head S # L)" "x \<notin> set G" using assms(2) by auto
  have "on_level (lv(x := 0)) i (sk_head S # L @ x # G) =
      on_level (lv(x := 0)) i (sk_head S # L) @ on_level (lv(x := 0)) i G" by simp
  also have "\<dots> = on_level lv i (sk_head S # L @ G)"
    unfolding on_level_upd [OF xs(1)] on_level_upd [OF xs(2)] by simp
  finally have eq: "on_level (lv(x := 0)) i (sk_head T # L @ x # G) = on_level lv i (sk_head S # L @ G)"
    unfolding assms(3) .
  have "path T i (on_level lv i (sk_head S # L @ G)) = path S i (on_level lv i (sk_head S # L @ G))"
  proof (rule path_cong, rule assms(4))
    fix a assume "a \<in> set (on_level lv i (sk_head S # L @ G))"
    then have "a \<in> set (sk_head S # L @ G)" by (metis filter_is_subset subsetD)
    then show "a \<noteq> x" using assms(2) by blast
  qed
  then show "path T i (on_level (lv(x := 0)) i (sk_head T # L @ x # G))"
    unfolding eq using assms(1) i by (simp add: linked_def)
qed

context key_order
begin

lemma sorted_insert:
  assumes sh: "shape cmp D S (L @ G) lv" and sp: "split_at cmp S k L G" and k: "D k"
    and ne: "\<forall>a \<in> set (L @ G). cmp k (keyof S a) \<noteq> 0"
    and keys: "f x = k" "\<And>a. a \<in> set (L @ G) \<Longrightarrow> f a = keyof S a"
  shows "sorted_wrt (\<lambda>a b. cmp (f a) (f b) < 0) (L @ x # G)"
proof -
  have "sorted_wrt (\<lambda>a b. cmp (f a) (f b) < 0) (L @ G)"
    using shapeD(10) [OF sh] by (rule sorted_wrt_mono_rel [rotated]) (simp add: keys)
  moreover have "cmp (f a) (f x) < 0" if "a \<in> set L" for a
    using sp that keys by (simp add: split_at_def)
  moreover have "cmp (f x) (f g) < 0" if "g \<in> set G" for g
  proof -
    have "D (keyof S g)" using shapeD(9) [OF sh, of g] that by simp
    moreover have "0 \<le> cmp (keyof S g) k" "cmp k (keyof S g) \<noteq> 0" using sp ne that by (auto simp: split_at_def)
    ultimately show ?thesis using cmp_flip [of k "keyof S g"] cmp_flip [of "keyof S g" k] cmp_zero [of k "keyof S g"] k keys that
      by force
  qed
  ultimately show ?thesis by (auto simp: sorted_wrt_append)
qed

text \<open>The new node, before it is linked: only the nodes and the arena differ.\<close>

lemma newNode_result:
  assumes mem: "sk_mem os nsz (sk_arena S) (sk_nodes S)" and h: "1 \<le> h" "h \<le> s_max_height"
    and new: "newNode os nsz S k h = Some (x, S2)"
  shows "sk_head S2 = sk_head S" "sk_max_height S2 = sk_max_height S" "sk_rnd S2 = sk_rnd S"
    "sk_nodes S2 = (sk_nodes S)(x \<mapsto> \<lparr>nd_key = k, nd_nexts = replicate h None\<rparr>)"
proof -
  have eq: "S2 = S\<lparr>sk_arena := sk_arena S2,
      sk_nodes := (sk_nodes S)(x \<mapsto> \<lparr>nd_key = k, nd_nexts = replicate h None\<rparr>)\<rparr>"
    using newNode_ok [OF mem h new] by blast
  show "sk_head S2 = sk_head S" "sk_max_height S2 = sk_max_height S" "sk_rnd S2 = sk_rnd S"
    "sk_nodes S2 = (sk_nodes S)(x \<mapsto> \<lparr>nd_key = k, nd_nexts = replicate h None\<rparr>)"
    using arg_cong [OF eq, of sk_head] arg_cong [OF eq, of sk_max_height] arg_cong [OF eq, of sk_rnd]
      arg_cong [OF eq, of sk_nodes] by simp_all
qed

lemma insert_linked:
  assumes inv: "sk_inv os nsz cmp D S (L @ G)" and sp: "split_at cmp S k L G" and k: "D k"
    and ne: "\<forall>a \<in> set (L @ G). cmp k (keyof S a) \<noteq> 0"
    and h: "1 \<le> h" "h \<le> s_max_height" and rnd: "random_ok rnd"
    and S1: "S1 = S\<lparr>sk_rnd := rnd, sk_max_height := max h (sk_max_height S)\<rparr>"
    and new: "newNode os nsz S1 k h = Some (x, S2)"
    and prev: "\<forall>i < h. load_prev prev i = Some (pred S (height_of S) L i)"
  shows "\<exists>T. link_loop S2 x prev 0 h = Some T \<and> x \<notin> set (sk_head S # L @ G)
    \<and> sk_inv os nsz cmp D T (L @ x # G) \<and> keyof T x = k
    \<and> (\<forall>a \<in> set (L @ G). keyof T a = keyof S a) \<and> sk_head T = sk_head S"
proof -
  let ?lv = "height_of S"
  have sh: "shape cmp D S (L @ G) ?lv" and dom: "dom (sk_nodes S) = set (sk_head S # L @ G)"
    and mem: "sk_mem os nsz (sk_arena S1) (sk_nodes S1)"
    using inv by (simp_all add: sk_inv_def S1)
  note nn = newNode_ok [OF mem h new]
  have x: "x \<noteq> 0" "x \<notin> set (sk_head S # L @ G)" using nn dom by (auto simp: S1)
  note S2 = newNode_result [OF mem h new, unfolded S1, simplified]
  have dist: "distinct (sk_head S2 # L @ x # G)" using shapeD(1) [OF sh] x S2(1) by auto
  have "linked S2 (L @ x # G) (?lv(x := 0))"
    by (rule linked_new [OF shape_linked [OF sh] x(2) S2(1)]) (simp add: node_next_def S2(4))
  then have "\<exists>T. link_loop S2 x prev 0 h = Some T \<and> same_frame S2 T \<and> linked T (L @ x # G) (?lv(x := h))"
    by (rule link_loop_ok [OF _ dist, where nd = "\<lparr>nd_key = k, nd_nexts = replicate h None\<rparr>"])
      (use shapeD(6) [OF sh] h prev S2 in \<open>auto simp: pred_def\<close>)
  then obtain T where T: "link_loop S2 x prev 0 h = Some T" "same_frame S2 T" "linked T (L @ x # G) (?lv(x := h))"
    by blast
  note f = same_frameD [OF T(2)]
  have hts: "height_of T = ?lv(x := h)"
    unfolding same_frame_height [OF T(2)] by (auto simp: height_of_def S2(4))
  have key_S2: "node_key S2 a = (if a = x then Some k else node_key S a)" for a
    by (simp add: node_key_def S2(4))
  have keys: "keyof T x = k" "\<And>a. a \<in> set (L @ G) \<Longrightarrow> keyof T a = keyof S a"
    using x(2) by (auto simp: f(5) keyof_def key_S2)
  have domT: "dom (sk_nodes T) = set (sk_head T # L @ x # G)"
    using dom f(1,7) S2(1,4) by auto
  have "sorted_wrt (\<lambda>a b. cmp (keyof T a) (keyof T b) < 0) (L @ x # G)"
    by (rule sorted_insert [OF sh sp k ne keys])
  moreover have "\<forall>a \<in> set (L @ x # G). 1 \<le> (?lv(x := h)) a \<and> (?lv(x := h)) a \<le> sk_max_height T \<and> D (keyof T a)"
    using shapeD(7-9) [OF sh] h k keys f(2) S2(2) by (auto simp: le_max_iff_disj)
  moreover have "0 \<notin> set (sk_head T # L @ x # G)" using shapeD(2) [OF sh] x(1) f(1) S2(1) by auto
  moreover have "1 \<le> sk_max_height T" "sk_max_height T \<le> s_max_height"
    using shapeD(4,5) [OF sh] f(2) S2(2) h by auto
  moreover have "(?lv(x := h)) (sk_head T) = s_max_height"
    using shapeD(6) [OF sh] x(2) f(1) S2(1) by auto
  ultimately have "shape cmp D T (L @ x # G) (?lv(x := h))"
    using dist domT T(3) f(1) unfolding shape_def linked_def by simp
  moreover have "sk_mem os nsz (sk_arena T) (sk_nodes T)"
    using sk_mem_frame [OF T(2)] nn f(4) by simp
  ultimately have "sk_inv os nsz cmp D T (L @ x # G)"
    using domT rnd S2(3) f(3) by (simp add: sk_inv_def hts)
  then show ?thesis using T(1) x(2) keys f(1) S2(1) by auto
qed

lemma skip_insert_ok:
  assumes inv: "sk_inv os nsz cmp D S (L @ G)" and sp: "split_at cmp S k L G" and k: "D k"
    and ne: "\<forall>a \<in> set (L @ G). cmp k (keyof S a) \<noteq> 0"
  shows "case skip_insert os nsz cmp S k of
      None \<Rightarrow> \<exists>h \<in> {1..12}. allocateAligned os (sk_arena S) (nsz + 8 * (h - 1)) = None
    | Some T \<Rightarrow> \<exists>x. x \<notin> set (sk_head S # L @ G) \<and> sk_inv os nsz cmp D T (L @ x # G) \<and> keyof T x = k
        \<and> (\<forall>a \<in> set (L @ G). keyof T a = keyof S a) \<and> sk_head T = sk_head S"
proof -
  let ?lv = "height_of S"
  have sh: "shape cmp D S (L @ G) ?lv" and rok: "random_ok (sk_rnd S)" using inv by (simp_all add: sk_inv_def)
  define p where "p = fill_pred S ?lv L (sk_max_height S) (replicate s_max_height None)"
  have find: "findGreateOrEqual cmp S k (Some (replicate s_max_height None)) = Some (hd0 G, Some p)"
    using findGE_ok [OF sh sp, of "Some (replicate s_max_height None)"] by (simp add: p_def)
  have assert: "(if hd0 G = 0 then Some () else do { k' \<leftarrow> node_key S (hd0 G); cassert (\<not> key_equal cmp k k') }) = Some ()"
  proof (cases G)
    case (Cons g G')
    then show ?thesis using shape_node_key [OF sh, of g] ne by (simp add: key_equal_def)
  qed simp
  obtain h rnd where h: "randomHeight S = Some (h, S\<lparr>sk_rnd := rnd\<rparr>)" "1 \<le> h" "h \<le> 12" "random_ok rnd"
    using randomHeight_ok [OF rok] by blast
  obtain p' where p': "(if h > sk_max_height S then fill_prev p (sk_head S) (sk_max_height S) h else Some p) = Some p'"
    "\<forall>i < h. load_prev p' i = Some (pred S ?lv L i)"
    using prevs_ok [OF sh h(2,3) p_def] by blast
  define S1 where "S1 = S\<lparr>sk_rnd := rnd, sk_max_height := max h (sk_max_height S)\<rparr>"
  have run: "skip_insert os nsz cmp S k = do { (x, S2) \<leftarrow> newNode os nsz S1 k h; link_loop S2 x p' 0 h }"
  proof (cases "h > sk_max_height S")
    case True
    then have "S\<lparr>sk_rnd := rnd\<rparr>\<lparr>sk_max_height := h\<rparr> = S1" by (simp add: S1_def)
    then show ?thesis unfolding skip_insert_def Let_def find
      using True assert h(1) p'(1) by (simp add: getMaxHeight_def)
  next
    case False
    then have "S\<lparr>sk_rnd := rnd\<rparr> = S1" "\<not> sk_max_height S1 < h" by (simp_all add: S1_def max_def)
    then show ?thesis unfolding skip_insert_def Let_def find
      using False assert h(1) p'(1) by (simp add: getMaxHeight_def)
  qed
  show ?thesis
  proof (cases "newNode os nsz S1 k h")
    case None
    then have "allocateAligned os (sk_arena S) (nsz + 8 * (h - 1)) = None"
      by (auto simp: newNode_def S1_def split: bind_splits)
    then show ?thesis using None run h(2,3) by auto
  next
    case (Some r)
    obtain x S2 where r: "r = (x, S2)" by force
    obtain T where "link_loop S2 x p' 0 h = Some T \<and> x \<notin> set (sk_head S # L @ G)
      \<and> sk_inv os nsz cmp D T (L @ x # G) \<and> keyof T x = k
      \<and> (\<forall>a \<in> set (L @ G). keyof T a = keyof S a) \<and> sk_head T = sk_head S"
      using insert_linked [OF inv sp k ne h(2,3,4) S1_def _ p'(2)] Some r by blast
    then show ?thesis using run Some r by auto
  qed
qed

lemma skip_insert_duplicate:
  assumes sh: "shape cmp D S (L @ G) lv" and sp: "split_at cmp S k L G" and k: "D k"
    and dup: "a \<in> set (L @ G)" "cmp k (keyof S a) = 0"
  shows "skip_insert os nsz cmp S k = None"
proof -
  have Da: "D (keyof S a)" using shapeD(9) [OF sh dup(1)] .
  have za: "cmp (keyof S a) k = 0" using cmp_zero [OF k Da] dup(2) by simp
  then have "a \<in> set G" using dup(1) sp by (auto simp: split_at_def)
  then obtain g G' where G: "G = g # G'" by (cases G) auto
  have Dg: "D (keyof S g)" using shapeD(9) [OF sh, of g] G by simp
  have ge: "0 \<le> cmp (keyof S g) k" using sp G by (simp add: split_at_def)
  have "cmp (keyof S g) (keyof S a) \<le> 0"
    using shapeD(10) [OF sh] \<open>a \<in> set G\<close> cmp_refl [OF Dg] unfolding G by (auto simp: sorted_wrt_append)
  then have "cmp (keyof S g) k \<le> 0" using cmp_trans [OF Dg Da k] za by simp
  then have "cmp k (keyof S g) = 0" using ge cmp_zero [OF Dg k] by simp
  then have "node_key S (hd0 G) = Some (keyof S g)" "hd0 G \<noteq> 0" "key_equal cmp k (keyof S g)"
    using shape_node_key [OF sh, of g] shape_nonzero [OF sh, of g] G by (simp_all add: key_equal_def)
  then show ?thesis using findGE_ok [OF sh sp, of "Some (replicate s_max_height None)"]
    by (simp add: skip_insert_def Let_def)
qed

end


section \<open>Construction\<close>

lemma init_head_ok:
  assumes "sk_nodes S (sk_head S) = Some nd" "length (nd_nexts nd) = s_max_height" "i \<le> s_max_height"
    and "\<forall>k < i. node_next S (sk_head S) k = Some 0"
  shows "\<exists>T. init_head S i = Some T \<and> same_frame S T
    \<and> (\<forall>k < s_max_height. node_next T (sk_head S) k = Some 0)"
  using assms
proof (induction "s_max_height - i" arbitrary: S i nd)
  case 0
  then show ?case by (simp add: init_head.simps [of S])
next
  case (Suc d)
  then have i: "i < s_max_height" by simp
  obtain T where T: "setNext S (sk_head S) i 0 = Some T" "same_frame S T"
    "\<forall>a k. node_next T a k = (if a = sk_head S \<and> k = i then Some 0 else node_next S a k)"
    using setNext_ok [OF Suc.prems(1), of i 0] Suc.prems(2) i by auto
  note f = same_frameD [OF T(2)]
  obtain nd' where nd': "sk_nodes T (sk_head T) = Some nd'" "length (nd_nexts nd') = s_max_height"
    using f(8) [of "sk_head S"] f(1) Suc.prems(1,2) by (auto simp: map_option_case split: option.splits)
  have "\<exists>U. init_head T (Suc i) = Some U \<and> same_frame T U
      \<and> (\<forall>k < s_max_height. node_next U (sk_head T) k = Some 0)"
    by (rule Suc.hyps(1) [OF _ nd'(1)]) (use Suc.hyps(2) Suc.prems nd' f(1) T(3) in \<open>auto simp: less_Suc_eq\<close>)
  moreover have "init_head S i = init_head T (Suc i)" using i T(1) by (simp add: init_head.simps [of S])
  ultimately show ?case using same_frame_trans [OF T(2)] f(1) by auto
qed

lemma SkipList_new_ok:
  assumes os: "good_new os" "8 \<le> nsz" "nsz \<le> 2 ^ 32" and A: "arena_inv A R"
  shows "case SkipList_new os nsz key0 A of
      None \<Rightarrow> allocateAligned os A (nsz + 88) = None
    | Some S \<Rightarrow> sk_inv os nsz cmp D S []
        \<and> allocateAligned os A (nsz + 88) = Some (sk_head S, sk_arena S)"
proof -
  define S0 :: "'a skiplist" where "S0 = \<lparr>sk_arena = A, sk_nodes = Map.empty, sk_head = 0, sk_max_height = 0,
       sk_rnd = \<lparr>rnd_seed = 0\<rparr>\<rparr>"
  have mem: "sk_mem os nsz (sk_arena S0) (sk_nodes S0)"
    using assms by (auto simp: sk_mem_def S0_def)
  show ?thesis
  proof (cases "newNode os nsz S0 key0 s_max_height")
    case None
    then have "SkipList_new os nsz key0 A = None" by (simp add: SkipList_new_def S0_def)
    moreover have "allocateAligned os A (nsz + 88) = None"
      using None by (auto simp: newNode_def S0_def split: bind_splits)
    ultimately show ?thesis by simp
  next
    case (Some r)
    obtain h S1 where r: "r = (h, S1)" by force
    define S2 where "S2 = S1\<lparr>sk_head := h, sk_max_height := 1, sk_rnd := Random_new 0xdeadbeef\<rparr>"
    have nn: "h \<noteq> 0 \<and> S1 = S0\<lparr>sk_arena := sk_arena S1,
        sk_nodes := (sk_nodes S0)(h \<mapsto> \<lparr>nd_key = key0, nd_nexts = replicate s_max_height None\<rparr>)\<rparr>
      \<and> sk_mem os nsz (sk_arena S1) (sk_nodes S1)"
      using newNode_ok [OF mem _ _ Some [unfolded r]] by simp
    have nodes: "sk_nodes S1 = [h \<mapsto> \<lparr>nd_key = key0, nd_nexts = replicate s_max_height None\<rparr>]"
      using nn arg_cong [of S1 _ sk_nodes] by (fastforce simp: S0_def)
    have S2: "sk_head S2 = h" "sk_max_height S2 = 1" "sk_rnd S2 = Random_new 0xdeadbeef"
      "sk_nodes S2 = [h \<mapsto> \<lparr>nd_key = key0, nd_nexts = replicate s_max_height None\<rparr>]"
      "sk_arena S2 = sk_arena S1" using nodes by (simp_all add: S2_def)
    have new: "SkipList_new os nsz key0 A = init_head S2 0"
      using Some r by (simp add: SkipList_new_def S0_def [symmetric] S2_def)
    obtain T where T: "init_head S2 0 = Some T" "same_frame S2 T"
      "\<forall>k < s_max_height. node_next T h k = Some 0"
      using init_head_ok [of S2 "\<lparr>nd_key = key0, nd_nexts = replicate s_max_height None\<rparr>" 0] S2 by auto
    note f = same_frameD [OF T(2)]
    have hts: "height_of T h = s_max_height"
      unfolding same_frame_height [OF T(2)] by (simp add: height_of_def S2)
    have dom: "dom (sk_nodes T) = {h}" using f(7) S2(4) by simp
    have "shape cmp D T [] (height_of T)"
      using nn dom f(1,2) S2(1,2) hts T(3) by (simp add: shape_def)
    moreover have "sk_mem os nsz (sk_arena T) (sk_nodes T)"
      using sk_mem_frame [OF T(2)] nn nodes S2(4,5) f(4) by metis
    ultimately have "sk_inv os nsz cmp D T []"
      using dom f(1,3) S2(1,3) Random_new_ok by (simp add: sk_inv_def)
    moreover have "allocateAligned os A (nsz + 88) = Some (sk_head T, sk_arena T)"
      using Some r f(1,4) S2(1,5) by (auto simp: newNode_def S0_def split: bind_splits)
    ultimately show ?thesis using new T(1) by simp
  qed
qed

end
