(* ===== verification/KV_SkipSet.thy ===== *)
theory KV_SkipSet
  imports KV_SkipInv KV_Format "HOL-Library.Multiset"
begin

text \<open>
  The skip list as an ordered container: each operation of the class against its meaning on
  the sorted list of keys, the iterator against positions in that list, and runs of
  insertions through the interface \<open>ordered_container\<close>.
\<close>

section \<open>Operations at a position\<close>

lemma path_nth:
  assumes "path S i xs" "n < length xs"
  shows "node_next S (xs ! n) i = Some (if Suc n < length xs then xs ! Suc n else 0)"
proof -
  have "path S i (xs ! n # drop (Suc n) xs)"
    using path_suffix [of S i "take n xs"] assms by (metis id_take_nth_drop)
  then have "node_next S (xs ! n) i = Some (hd0 (drop (Suc n) xs))" by (rule path_next)
  then show ?thesis by (cases "drop (Suc n) xs") (auto simp: drop_eq_Nil hd_drop_conv_nth [symmetric])
qed

text \<open>The iterator at a position of the list; a position past the end is the invalid iterator.\<close>

definition it_at :: "nat list \<Rightarrow> nat \<Rightarrow> iterator" where
  "it_at ns i = \<lparr>it_node = (if i < length ns then ns ! i else 0)\<rparr>"

lemma bottom_path:
  assumes "shape cmp D S ns lv"
  shows "path S 0 (sk_head S # ns)"
  using shapeD(11) [OF assms, of 0] shapeD(6) [OF assms] on_level_0 [OF assms, of ns] by simp

lemma node_at:
  assumes "shape cmp D S ns lv" "i < length ns"
  shows "ns ! i \<noteq> 0" "ns ! i \<noteq> sk_head S" "node_key S (ns ! i) = Some (keyof S (ns ! i))"
    "node_next S (ns ! i) 0 = Some (if Suc i < length ns then ns ! Suc i else 0)"
proof -
  have m: "ns ! i \<in> set ns" using assms(2) by simp
  show "ns ! i \<noteq> 0" using shape_nonzero [OF assms(1), of "ns ! i"] m by simp
  show "ns ! i \<noteq> sk_head S" using shapeD(1) [OF assms(1)] m by auto
  show "node_key S (ns ! i) = Some (keyof S (ns ! i))" using shape_node_key [OF assms(1), of "ns ! i"] m by simp
  show "node_next S (ns ! i) 0 = Some (if Suc i < length ns then ns ! Suc i else 0)"
    using path_nth [OF bottom_path [OF assms(1)], of "Suc i"] assms(2) by simp
qed

lemma hd0_dropWhile: "hd0 (dropWhile P ns) =
    (if length (takeWhile P ns) < length ns then ns ! length (takeWhile P ns) else 0)"
proof (cases "dropWhile P ns")
  case Nil
  then have "length (takeWhile P ns) = length ns" by (metis append_Nil2 takeWhile_dropWhile_id)
  then show ?thesis unfolding Nil by (simp del: takeWhile_eq_all_conv)
next
  case (Cons a as)
  then have "ns = takeWhile P ns @ a # as" by (metis takeWhile_dropWhile_id)
  then show ?thesis using Cons by (metis hd0_simps(2) length_append length_Cons less_add_Suc1 add_Suc_right nth_append_length)
qed

context key_order
begin

lemma take_before:
  assumes sh: "shape cmp D S ns lv" and i: "i < length ns"
  shows "takeWhile (\<lambda>a. cmp (keyof S a) (keyof S (ns ! i)) < 0) ns = take i ns"
proof -
  let ?k = "keyof S (ns ! i)"
  have "cmp (keyof S (ns ! j)) ?k < 0" if "j < i" for j
    using sorted_wrt_nth_less [OF shapeD(10) [OF sh] that i] .
  moreover have "\<not> cmp (keyof S (ns ! i)) ?k < 0"
    using cmp_refl [of ?k] shapeD(9) [OF sh] i by simp
  ultimately show ?thesis using i by (intro takeWhile_eq_take_P_nth) auto
qed

lemma insert_cases:
  assumes inv: "sk_inv os nsz cmp D S ns" and k: "D k"
  defines "L \<equiv> takeWhile (\<lambda>a. cmp (keyof S a) k < 0) ns" and "G \<equiv> dropWhile (\<lambda>a. cmp (keyof S a) k < 0) ns"
  shows "if \<exists>a \<in> set ns. cmp k (keyof S a) = 0 then skip_insert os nsz cmp S k = None
    else case skip_insert os nsz cmp S k of
      None \<Rightarrow> \<exists>h \<in> {1..12}. allocateAligned os (sk_arena S) (nsz + 8 * (h - 1)) = None
    | Some T \<Rightarrow> \<exists>x. x \<notin> set (sk_head S # ns) \<and> sk_inv os nsz cmp D T (L @ x # G) \<and> keyof T x = k
        \<and> (\<forall>a \<in> set ns. keyof T a = keyof S a) \<and> sk_head T = sk_head S"
proof -
  have sh: "shape cmp D S ns (height_of S)" using inv by (simp add: sk_inv_def)
  have ns: "ns = L @ G" and sp: "split_at cmp S k L G"
    using sorted_split [OF sh k] unfolding L_def G_def by blast+
  show ?thesis
  proof (cases "\<exists>a \<in> set ns. cmp k (keyof S a) = 0")
    case True
    then show ?thesis using skip_insert_duplicate [OF sh [unfolded ns] sp k] ns by auto
  next
    case False
    have "\<forall>a \<in> set (L @ G). cmp k (keyof S a) \<noteq> 0" using False ns by simp
    from skip_insert_ok [OF inv [unfolded ns] sp k this] show ?thesis
      using False unfolding ns [symmetric] by simp
  qed
qed

lemma contains_shape:
  assumes sh: "shape cmp D S ns lv" and k: "D k"
  shows "contains cmp S k = Some (\<exists>a \<in> set ns. cmp k (keyof S a) = 0)"
proof -
  obtain L G where ns: "ns = L @ G" and sp: "split_at cmp S k L G"
    using sorted_split [OF sh k] by blast
  have find: "findGreateOrEqual cmp S k None = Some (hd0 G, None)"
    using findGE_ok [OF sh [unfolded ns] sp, of None] by simp
  have L: "cmp k (keyof S a) \<noteq> 0" if "a \<in> set L" for a
    using sp that cmp_zero [of "keyof S a" k] shapeD(9) [OF sh] ns k by (force simp: split_at_def)
  show ?thesis
  proof (cases G)
    case Nil
    then show ?thesis using find L ns by (auto simp: contains_def)
  next
    case (Cons g G')
    have g: "D (keyof S g)" "node_key S g = Some (keyof S g)" "g \<noteq> 0"
      using shapeD(9) [OF sh] shape_node_key [OF sh, of g] shape_nonzero [OF sh, of g] ns Cons by auto
    have rest: "cmp k (keyof S a) \<noteq> 0" if "a \<in> set G'" for a
    proof -
      have "D (keyof S a)" "cmp (keyof S g) (keyof S a) < 0"
        using shapeD(9,10) [OF sh] that unfolding ns Cons by (auto simp: sorted_wrt_append)
      moreover have "cmp k (keyof S g) \<le> 0"
        using sp cmp_flip [OF k g(1)] Cons by (force simp: split_at_def)
      ultimately show ?thesis using cmp_le_less_trans [OF k g(1)] by fastforce
    qed
    show ?thesis using find g L rest ns Cons by (auto simp: contains_def key_equal_def)
  qed
qed

lemma contains_ok:
  "sk_inv os nsz cmp D S ns \<Longrightarrow> D k \<Longrightarrow> contains cmp S k = Some (\<exists>a \<in> set ns. cmp k (keyof S a) = 0)"
  using contains_shape [of S ns "height_of S" k] by (simp add: sk_inv_def)

end

section \<open>The interface of an ordered container\<close>

text \<open>A run of insertions.\<close>

primrec insert_run :: "('s \<Rightarrow> 'k \<Rightarrow> 's option) \<Rightarrow> 's \<Rightarrow> 'k list \<Rightarrow> 's option" where
  "insert_run ins s [] = Some s"
| "insert_run ins s (k # ks) = do { s \<leftarrow> ins s k; insert_run ins s ks }"

text \<open>
  \<open>rep s ks\<close>: the container \<open>s\<close> holds the keys \<open>ks\<close>, in order. An insertion that succeeds
  puts a new key in its place; a membership test is decided by the order.
\<close>

locale ordered_container = key_order cmp D
  for cmp :: "'k \<Rightarrow> 'k \<Rightarrow> int" and D :: "'k \<Rightarrow> bool" +
  fixes ins :: "'s \<Rightarrow> 'k \<Rightarrow> 's option"
    and mem :: "'s \<Rightarrow> 'k \<Rightarrow> bool option"
    and rep :: "'s \<Rightarrow> 'k list \<Rightarrow> bool"
  assumes rep_sorted: "rep s ks \<Longrightarrow> sorted_wrt (\<lambda>a b. cmp a b < 0) ks"
    and ins_ok: "rep s ks \<Longrightarrow> D k \<Longrightarrow> ins s k = Some s' \<Longrightarrow> (\<forall>x \<in> set ks. cmp k x \<noteq> 0)
      \<and> rep s' (takeWhile (\<lambda>x. cmp x k < 0) ks @ k # dropWhile (\<lambda>x. cmp x k < 0) ks)"
    and mem_ok: "rep s ks \<Longrightarrow> D k \<Longrightarrow> mem s k = Some (\<exists>x \<in> set ks. cmp k x = 0)"
begin

lemma run_rep:
  "rep s ks \<Longrightarrow> \<forall>k \<in> set new. D k \<Longrightarrow> insert_run ins s new = Some s' \<Longrightarrow>
   \<exists>ks'. rep s' ks' \<and> mset ks' = mset ks + mset new"
proof (induction new arbitrary: s ks)
  case (Cons k new)
  then obtain s1 where s1: "ins s k = Some s1" "insert_run ins s1 new = Some s'"
    by (auto split: bind_splits)
  let ?ks = "takeWhile (\<lambda>x. cmp x k < 0) ks @ k # dropWhile (\<lambda>x. cmp x k < 0) ks"
  have "rep s1 ?ks" using ins_ok [OF Cons.prems(1) _ s1(1)] Cons.prems(2) by simp
  moreover have "mset (takeWhile (\<lambda>x. cmp x k < 0) ks @ dropWhile (\<lambda>x. cmp x k < 0) ks) = mset ks"
    by simp
  then have "mset ?ks = mset ks + {#k#}" by (simp del: takeWhile_dropWhile_id)
  ultimately show ?case using Cons.IH [of s1 ?ks] s1(2) Cons.prems(2) by auto
qed auto

text \<open>After a run: exactly the keys inserted, sorted, and membership is membership in them.\<close>

lemma run_contents:
  assumes "rep s []" "\<forall>k \<in> set new. D k" "insert_run ins s new = Some s'"
  shows "\<exists>ks'. rep s' ks' \<and> mset ks' = mset new \<and> sorted_wrt (\<lambda>a b. cmp a b < 0) ks'
    \<and> (\<forall>k. D k \<longrightarrow> mem s' k = Some (\<exists>x \<in> set new. cmp k x = 0))"
proof -
  obtain ks' where ks': "rep s' ks'" "mset ks' = mset new" using run_rep [OF assms] by auto
  have "set ks' = set new" using ks'(2) by (rule mset_eq_setD)
  then show ?thesis using ks' rep_sorted [OF ks'(1)] mem_ok [OF ks'(1)] by (intro exI [of _ ks']) simp
qed

text \<open>The contents do not depend on the order of the insertions.\<close>

lemma sorted_unique:
  "sorted_wrt (\<lambda>a b. cmp a b < 0) xs \<Longrightarrow> sorted_wrt (\<lambda>a b. cmp a b < 0) ys \<Longrightarrow> mset xs = mset ys \<Longrightarrow>
   \<forall>x \<in> set xs. D x \<Longrightarrow> xs = ys"
proof (induction xs arbitrary: ys)
  case (Cons x xs)
  then obtain y ys' where ys: "ys = y # ys'" by (cases ys) auto
  have sets: "set (x # xs) = set (y # ys')" using Cons.prems(3) unfolding ys by (rule mset_eq_setD)
  have D: "D x" "D y" using Cons.prems(4) sets by auto
  have "x = y"
  proof (rule ccontr)
    assume "x \<noteq> y"
    then have "x \<in> set ys'" "y \<in> set xs" using sets by auto
    then have "cmp y x < 0" "cmp x y < 0" using Cons.prems(1,2) ys by auto
    then show False using cmp_flip [OF D] by simp
  qed
  then show ?case using Cons ys by simp
qed simp

lemma run_order_irrelevant:
  assumes "rep s []" "rep t []" "\<forall>k \<in> set new. D k" "mset new = mset new'"
    and "insert_run ins s new = Some s'" "insert_run ins t new' = Some t'"
  shows "\<exists>ks. rep s' ks \<and> rep t' ks"
proof -
  have D': "\<forall>k \<in> set new'. D k" using assms(3,4) by (metis mset_eq_setD)
  obtain ks where ks: "rep s' ks" "mset ks = mset new" using run_rep [OF assms(1,3,5)] by auto
  obtain ks' where ks': "rep t' ks'" "mset ks' = mset new'" using run_rep [OF assms(2) D' assms(6)] by auto
  have "ks = ks'"
    using sorted_unique [OF rep_sorted [OF ks(1)] rep_sorted [OF ks'(1)]] ks(2) ks'(2) assms(3,4)
    by (metis mset_eq_setD)
  then show ?thesis using ks(1) ks'(1) by blast
qed

end

definition skip_rep ::
    "os \<Rightarrow> nat \<Rightarrow> ('k \<Rightarrow> 'k \<Rightarrow> int) \<Rightarrow> ('k \<Rightarrow> bool) \<Rightarrow> 'k skiplist \<Rightarrow> 'k list \<Rightarrow> bool" where
  "skip_rep os nsz cmp D S ks \<longleftrightarrow> (\<exists>ns. sk_inv os nsz cmp D S ns \<and> ks = keys_of S ns)"

lemma takeWhile_keys: "takeWhile P (keys_of S ns) = keys_of S (takeWhile (\<lambda>a. P (keyof S a)) ns)"
  "dropWhile P (keys_of S ns) = keys_of S (dropWhile (\<lambda>a. P (keyof S a)) ns)"
  by (simp_all add: keys_of_def takeWhile_map dropWhile_map comp_def)

context key_order
begin

lemma skip_ins_ok:
  assumes "skip_rep os nsz cmp D S ks" "D k" "skip_insert os nsz cmp S k = Some T"
  shows "(\<forall>x \<in> set ks. cmp k x \<noteq> 0)
    \<and> skip_rep os nsz cmp D T (takeWhile (\<lambda>x. cmp x k < 0) ks @ k # dropWhile (\<lambda>x. cmp x k < 0) ks)"
proof -
  obtain ns where ns: "sk_inv os nsz cmp D S ns" "ks = keys_of S ns"
    using assms(1) by (auto simp: skip_rep_def)
  note ins = insert_cases [OF ns(1) assms(2), unfolded assms(3)]
  have new: "\<forall>a \<in> set ns. cmp k (keyof S a) \<noteq> 0" using ins by (auto split: if_splits)
  then obtain x where x: "sk_inv os nsz cmp D T (takeWhile (\<lambda>a. cmp (keyof S a) k < 0) ns @ x #
      dropWhile (\<lambda>a. cmp (keyof S a) k < 0) ns)" "keyof T x = k" "\<forall>a \<in> set ns. keyof T a = keyof S a"
    using ins by (auto split: if_splits)
  have "keys_of T (takeWhile P ns) = keys_of S (takeWhile P ns)"
    "keys_of T (dropWhile P ns) = keys_of S (dropWhile P ns)" for P
    using x(3) by (auto simp: keys_of_def dest: set_takeWhileD set_dropWhileD)
  then have "keys_of T (takeWhile (\<lambda>a. cmp (keyof S a) k < 0) ns @ x # dropWhile (\<lambda>a. cmp (keyof S a) k < 0) ns) =
      takeWhile (\<lambda>x. cmp x k < 0) ks @ k # dropWhile (\<lambda>x. cmp x k < 0) ks"
    using x(2) by (simp add: ns(2) takeWhile_keys) (simp add: keys_of_def)
  then have "skip_rep os nsz cmp D T (takeWhile (\<lambda>x. cmp x k < 0) ks @ k # dropWhile (\<lambda>x. cmp x k < 0) ks)"
    using x(1) unfolding skip_rep_def by metis
  moreover have "\<forall>x \<in> set ks. cmp k x \<noteq> 0" using new by (simp add: ns(2) keys_of_def)
  ultimately show ?thesis by blast
qed

end

sublocale key_order \<subseteq> skip: ordered_container cmp D "skip_insert os nsz cmp" "contains cmp"
  "skip_rep os nsz cmp D" for os nsz
proof
  fix S ks assume "skip_rep os nsz cmp D S ks"
  then obtain ns where "shape cmp D S ns (height_of S)" "ks = keys_of S ns"
    by (auto simp: skip_rep_def sk_inv_def)
  then show "sorted_wrt (\<lambda>a b. cmp a b < 0) ks"
    using shapeD(10) by (simp add: keys_of_def sorted_wrt_map)
next
  fix S ks k T assume "skip_rep os nsz cmp D S ks" "D k" "skip_insert os nsz cmp S k = Some T"
  then show "(\<forall>x \<in> set ks. cmp k x \<noteq> 0)
      \<and> skip_rep os nsz cmp D T (takeWhile (\<lambda>x. cmp x k < 0) ks @ k # dropWhile (\<lambda>x. cmp x k < 0) ks)"
    by (rule skip_ins_ok)
next
  fix S ks k assume "skip_rep os nsz cmp D S ks" "D k"
  then show "contains cmp S k = Some (\<exists>x \<in> set ks. cmp k x = 0)"
    using contains_ok by (auto simp: skip_rep_def keys_of_def)
qed

context key_order
begin

lemmas skip_run_contents = skip.run_contents
lemmas skip_run_order = skip.run_order_irrelevant

end

lemma find_takeWhile:
  "find (\<lambda>x. \<not> P x) xs =
    (if length (takeWhile P xs) < length xs then Some (xs ! length (takeWhile P xs)) else None)"
  by (induction xs) simp_all

lemma it_key_at:
  assumes "sk_inv os nsz cmp D S ns" "i < length ns"
  shows "it_valid (it_at ns i)" "it_key S (it_at ns i) = Some (keys_of S ns ! i)"
proof -
  have "shape cmp D S ns (height_of S)" using assms(1) by (simp add: sk_inv_def)
  note n = node_at [OF this assms(2)]
  show v: "it_valid (it_at ns i)" using assms(2) n(1) by (simp add: it_valid_def it_at_def)
  show "it_key S (it_at ns i) = Some (keys_of S ns ! i)"
    using assms(2) n(3) v by (simp add: it_key_def it_at_def keys_of_def)
qed

lemma it_first_ok:
  assumes "sk_inv os nsz cmp D S ns"
  shows "it_seekToFirst S it = Some (it_at ns 0)"
proof -
  have "shape cmp D S ns (height_of S)" using assms by (simp add: sk_inv_def)
  from path_next [OF bottom_path [OF this]] show ?thesis
    by (cases ns) (simp_all add: it_seekToFirst_def it_at_def)
qed

lemma it_next_at:
  assumes "sk_inv os nsz cmp D S ns" "i < length ns"
  shows "it_next S (it_at ns i) = Some (it_at ns (i + 1))"
proof -
  have "shape cmp D S ns (height_of S)" using assms(1) by (simp add: sk_inv_def)
  from node_at(4) [OF this assms(2)] show ?thesis
    using assms(2) it_key_at(1) [OF assms] by (simp add: it_next_def it_at_def)
qed

text \<open>On an invalid iterator \<open>key\<close>, \<open>next\<close> and \<open>prev\<close> stop in their assertion.\<close>

lemma it_invalid:
  "\<not> it_valid it \<Longrightarrow> it_key S it = None \<and> it_next S it = None \<and> it_prev cmp S it = None"
  by (simp add: it_key_def it_next_def it_prev_def)

context key_order
begin

lemma it_last_ok:
  assumes "sk_inv os nsz cmp D S ns"
  shows "it_seekToLast S it = Some (it_at ns (if ns = [] then 0 else length ns - 1))"
proof -
  have sh: "shape cmp D S ns (height_of S)" using assms by (simp add: sk_inv_def)
  show ?thesis using findLast_ok [OF sh] node_at(2) [OF sh, of "length ns - 1"]
    by (cases "ns = []") (auto simp: it_seekToLast_def it_at_def last_conv_nth Let_def)
qed

lemma it_prev_at:
  assumes inv: "sk_inv os nsz cmp D S ns" and i: "i < length ns"
  shows "it_prev cmp S (it_at ns i) = Some (if i = 0 then it_new else it_at ns (i - 1))"
proof -
  have sh: "shape cmp D S ns (height_of S)" using inv by (simp add: sk_inv_def)
  have Dk: "D (keyof S (ns ! i))" using shapeD(9) [OF sh] i by simp
  note split = sorted_split [OF sh Dk, unfolded take_before [OF sh i]]
  have "findLessThan cmp S (keyof S (ns ! i)) = Some (last (sk_head S # take i ns))"
    using findLT_ok [OF _ split(2)] sh split(1) by metis
  moreover have "last (sk_head S # take i ns) = (if i = 0 then sk_head S else ns ! (i - 1))"
    using i by (cases "ns = []") (simp_all add: last_conv_nth)
  ultimately show ?thesis
    using i node_at(3) [OF sh i] it_key_at(1) [OF inv i] node_at(2) [OF sh, of "i - 1"] less_imp_diff_less [OF i, of 1]
    by (simp add: it_prev_def it_at_def it_new_def Let_def)
qed

lemma it_seek_ok:
  assumes "sk_inv os nsz cmp D S ns" "D k"
  shows "it_seek cmp S it k = Some (it_at ns (length (takeWhile (\<lambda>x. cmp x k < 0) (keys_of S ns))))"
proof -
  have sh: "shape cmp D S ns (height_of S)" using assms(1) by (simp add: sk_inv_def)
  note split = sorted_split [OF sh assms(2)]
  have "shape cmp D S (takeWhile (\<lambda>a. cmp (keyof S a) k < 0) ns @ dropWhile (\<lambda>a. cmp (keyof S a) k < 0) ns)
      (height_of S)" using sh by simp
  from findGE_ok [OF this split(2), of None]
  show ?thesis by (simp add: it_seek_def takeWhile_keys hd0_dropWhile it_at_def) (simp add: keys_of_def)
qed

text \<open>The seek in terms of keys: the first stored key that is not before the target.\<close>

lemma it_seek_first:
  assumes "sk_inv os nsz cmp D S ns" "D k"
  shows "\<exists>it'. it_seek cmp S it k = Some it' \<and> (case find (\<lambda>x. 0 \<le> cmp x k) (keys_of S ns) of
      None \<Rightarrow> \<not> it_valid it' | Some x \<Rightarrow> it_valid it' \<and> it_key S it' = Some x)"
proof -
  let ?ks = "keys_of S ns"
  let ?i = "length (takeWhile (\<lambda>x. cmp x k < 0) ?ks)"
  have len: "length ?ks = length ns" by (simp add: keys_of_def)
  have "find (\<lambda>x. 0 \<le> cmp x k) ?ks = (if ?i < length ns then Some (?ks ! ?i) else None)"
    using find_takeWhile [of "\<lambda>x. cmp x k < 0" ?ks] by (simp only: not_less len)
  then show ?thesis
    using it_seek_ok [OF assms, of it] it_key_at [OF assms(1), of ?i]
    by (auto simp: it_at_def it_valid_def)
qed

end

text \<open>Every comparator that keeps its contract orders a skip list.\<close>

sublocale comparator_contract \<subseteq> keys: key_order ord dom
  by unfold_locales (rule ord_antisym ord_trans; assumption)+

text \<open>The comparator of the repository's own test, on unsigned numbers.\<close>

definition int_cmp :: "nat \<Rightarrow> nat \<Rightarrow> int" where
  "int_cmp a b = (if a < b then -1 else if a > b then 1 else 0)"

interpretation int_keys: key_order int_cmp "\<lambda>_. True"
  by unfold_locales (auto simp: int_cmp_def split: if_splits)


text \<open>The first node not before the key, and the predecessor on one level.\<close>

lemma hd0_dropWhile_first:
  "if \<forall>a \<in> set ns. cmp (keyof S a) k < 0 then hd0 (dropWhile (\<lambda>a. cmp (keyof S a) k < 0) ns) = 0
   else \<exists>i < length ns. hd0 (dropWhile (\<lambda>a. cmp (keyof S a) k < 0) ns) = ns ! i
     \<and> 0 \<le> cmp (keyof S (hd0 (dropWhile (\<lambda>a. cmp (keyof S a) k < 0) ns))) k
     \<and> (\<forall>j < i. cmp (keyof S (ns ! j)) k < (0 :: int))"
proof (cases "\<forall>a \<in> set ns. cmp (keyof S a) k < 0")
  case True
  then have "dropWhile (\<lambda>a. cmp (keyof S a) k < 0) ns = []" by (simp add: dropWhile_eq_Nil_conv)
  then have "hd0 (dropWhile (\<lambda>a. cmp (keyof S a) k < 0) ns) = 0" by (rule ssubst) simp
  then show ?thesis using True by simp
next
  case False
  let ?L = "takeWhile (\<lambda>a. cmp (keyof S a) k < 0) ns" and ?G = "dropWhile (\<lambda>a. cmp (keyof S a) k < 0) ns"
  have "?G \<noteq> []" using False by (simp add: dropWhile_eq_Nil_conv)
  then have "length ?L < length (?L @ ?G)" by (simp del: takeWhile_dropWhile_id)
  then have i: "length ?L < length ns" by simp
  then have "hd0 ?G = ns ! length ?L" by (simp add: hd0_dropWhile)
  moreover have "0 \<le> cmp (keyof S (ns ! length ?L)) k" using nth_length_takeWhile [OF i] by simp
  moreover have "cmp (keyof S (ns ! j)) k < 0" if "j < length ?L" for j
    using that takeWhile_nth [OF that] nth_mem [OF that] by (auto dest!: set_takeWhileD)
  ultimately show ?thesis using False i by auto
qed

lemma pred_on_level:
  assumes sh: "shape cmp D S (L @ G) lv" and sp: "split_at cmp S k L G" and l: "l < s_max_height"
  shows "\<exists>y. l < lv (pred S lv L l) \<and> (pred S lv L l = sk_head S \<or> pred S lv L l \<in> set L)
    \<and> node_next S (pred S lv L l) l = Some y \<and> (y = 0 \<or> y \<in> set G \<and> 0 \<le> cmp (keyof S y) k)"
proof -
  let ?q = "pred S lv L l"
  obtain A where A: "on_level lv l (sk_head S # L) = A @ [?q]"
    using pred_split shapeD(6) [OF sh] l by metis
  have "?q \<in> set (on_level lv l (sk_head S # L))" unfolding A by simp
  then have "?q \<in> {a \<in> set (sk_head S # L). l < lv a}" by (simp only: set_filter)
  then have q: "l < lv ?q" "?q = sk_head S \<or> ?q \<in> set L" by auto
  have "path S l (on_level lv l ((sk_head S # L) @ G))" using shapeD(11) [OF sh l] by simp
  then have "path S l (?q # on_level lv l G)" unfolding filter_append A using path_suffix by fastforce
  then have nxt: "node_next S ?q l = Some (hd0 (on_level lv l G))" by (rule path_next)
  have "hd0 (on_level lv l G) = 0 \<or> hd0 (on_level lv l G) \<in> set G \<and> 0 \<le> cmp (keyof S (hd0 (on_level lv l G))) k"
  proof (cases "on_level lv l G")
    case (Cons y ys)
    then have "y \<in> set (on_level lv l G)" by simp
    then have "y \<in> set G" by simp
    then show ?thesis using Cons sp by (auto simp: split_at_def)
  qed simp
  then show ?thesis using q nxt by blast
qed

section \<open>Properties\<close>

text \<open>A list with the one key 7, built by the code on the concrete allocator.\<close>

lemma allocateAligned_fresh:
  assumes "n \<le> 4000"
  shows "allocateAligned bump_new \<lparr>alloc_ptr = 32 + 8 * m, alloc_bytes_remaining = 4096 - 8 * m,
      blocks = [(32, 4096)], memory_usage = 4104\<rparr> n \<noteq> None"
proof -
  have "aligned_slop \<lparr>alloc_ptr = 32 + 8 * m, alloc_bytes_remaining = 4096 - 8 * m,
      blocks = [(32, 4096)], memory_usage = 4104\<rparr> = 0" by (simp add: aligned_slop_def)
  moreover have "8 dvd (32 + 8 * m)" "8 dvd (4144 :: nat)" by presburger+
  ultimately show ?thesis using assms
    by (simp add: allocateAligned_unfold allocateFallback_def allocateNewBlock_def bump_new_def
        kBlockSize_def Let_def)
qed

lemma empty_list_any:
  "\<exists>S. SkipList_new bump_new 16 key0 Arena_new = Some S \<and> sk_inv bump_new 16 cmp D S []
    \<and> (\<forall>h \<in> {1..12}. allocateAligned bump_new (sk_arena S) (16 + 8 * (h - 1)) \<noteq> None)"
proof -
  let ?A = "\<lparr>alloc_ptr = 32 + 8 * 13, alloc_bytes_remaining = 4096 - 8 * 13, blocks = [(32, 4096)],
    memory_usage = 4104\<rparr>"
  have al: "allocateAligned bump_new Arena_new (16 + 88) = Some (32, ?A)"
    by (simp add: allocateAligned_unfold aligned_slop_def allocateFallback_def allocateNewBlock_def
        bump_new_def Arena_new_def kBlockSize_def Let_def)
  have new: "case SkipList_new bump_new 16 key0 Arena_new of
      None \<Rightarrow> allocateAligned bump_new Arena_new (16 + 88) = None
    | Some S \<Rightarrow> sk_inv bump_new 16 cmp D S []
        \<and> allocateAligned bump_new Arena_new (16 + 88) = Some (sk_head S, sk_arena S)"
    by (rule SkipList_new_ok [OF good_bump_new _ _ arena_inv_new]) simp_all
  then obtain S where S: "SkipList_new bump_new 16 key0 Arena_new = Some S"
    "sk_inv bump_new 16 cmp D S []" "?A = sk_arena S"
    unfolding al by (auto split: option.splits)
  have "allocateAligned bump_new (sk_arena S) (16 + 8 * (h - 1)) \<noteq> None" if "h \<in> {1..12}" for h
    unfolding S(3) [symmetric] by (rule allocateAligned_fresh) (use that in auto)
  then show ?thesis using S by blast
qed

lemma empty_list:
  "\<exists>S. SkipList_new bump_new 16 (0::nat) Arena_new = Some S \<and> sk_inv bump_new 16 int_cmp (\<lambda>_. True) S []
    \<and> (\<forall>h \<in> {1..12}. allocateAligned bump_new (sk_arena S) (16 + 8 * (h - 1)) \<noteq> None)"
  by (rule empty_list_any)

lemma demo_list:
  "\<exists>S0 S x. SkipList_new bump_new 16 0 Arena_new = Some S0
    \<and> skip_insert bump_new 16 int_cmp S0 7 = Some S
    \<and> sk_inv bump_new 16 int_cmp (\<lambda>_. True) S [x] \<and> keyof S x = 7"
proof -
  obtain S0 where S0: "SkipList_new bump_new 16 0 Arena_new = Some S0"
    "sk_inv bump_new 16 int_cmp (\<lambda>_. True) S0 []"
    "\<forall>h \<in> {1..12}. allocateAligned bump_new (sk_arena S0) (16 + 8 * (h - 1)) \<noteq> None"
    using empty_list by blast
  have "case skip_insert bump_new 16 int_cmp S0 7 of
      None \<Rightarrow> \<exists>h \<in> {1..12}. allocateAligned bump_new (sk_arena S0) (16 + 8 * (h - 1)) = None
    | Some T \<Rightarrow> \<exists>x. sk_inv bump_new 16 int_cmp (\<lambda>_. True) T [x] \<and> keyof T x = 7"
    using int_keys.insert_cases [OF S0(2), of 7] by (auto split: option.splits)
  then show ?thesis using S0 by (auto split: option.splits)
qed

text \<open>
  C10 (src/database/skiplist.h, \<open>findGreateOrEqual\<close>). On every well-formed list and for every
  key the search returns, reads no link that was not written, and its result is the first
  node whose key is not before the key, or the null pointer if there is none. With an array,
  every level up to the list's height gets its predecessor: the head or a node before the
  key that takes part in the level and whose successor there is null or not before the key.
\<close>

theorem findGreateOrEqual_correct:
  assumes "key_order cmp D" "sk_inv os nsz cmp D S ns" "D k" "s_max_height \<le> length prev"
  shows "\<exists>x p. findGreateOrEqual cmp S k (Some prev) = Some (x, Some p)
    \<and> findGreateOrEqual cmp S k None = Some (x, None)
    \<and> (if \<forall>a \<in> set ns. cmp (keyof S a) k < 0 then x = 0
       else \<exists>i < length ns. x = ns ! i \<and> 0 \<le> cmp (keyof S x) k \<and> (\<forall>j < i. cmp (keyof S (ns ! j)) k < 0))
    \<and> (\<forall>l < sk_max_height S. \<exists>q y. p ! l = Some q \<and> l < height_of S q
        \<and> (q = sk_head S \<or> q \<in> set ns \<and> cmp (keyof S q) k < 0)
        \<and> node_next S q l = Some y \<and> (y = 0 \<or> y \<in> set ns \<and> 0 \<le> cmp (keyof S y) k))"
proof -
  have sh: "shape cmp D S ns (height_of S)" using assms(2) by (simp add: sk_inv_def)
  let ?L = "takeWhile (\<lambda>a. cmp (keyof S a) k < 0) ns" and ?G = "dropWhile (\<lambda>a. cmp (keyof S a) k < 0) ns"
  note split = key_order.sorted_split [OF assms(1) sh assms(3)]
  have sh': "shape cmp D S (?L @ ?G) (height_of S)" using sh by simp
  note find = key_order.findGE_ok [OF assms(1) sh' split(2)]
  define p where "p = fill_pred S (height_of S) ?L (sk_max_height S) prev"
  have "\<exists>q y. p ! l = Some q \<and> l < height_of S q
        \<and> (q = sk_head S \<or> q \<in> set ns \<and> cmp (keyof S q) k < 0)
        \<and> node_next S q l = Some y \<and> (y = 0 \<or> y \<in> set ns \<and> 0 \<le> cmp (keyof S y) k)"
    if l: "l < sk_max_height S" for l
  proof -
    have l12: "l < s_max_height" using l shapeD(5) [OF sh] by simp
    have "p ! l = Some (pred S (height_of S) ?L l)" using l l12 assms(4) by (simp add: p_def fill_pred_nth)
    then show ?thesis using pred_on_level [OF sh' split(2) l12]
      by (auto dest!: set_takeWhileD set_dropWhileD)
  qed
  then show ?thesis using find [of "Some prev"] find [of None] hd0_dropWhile_first [of ns cmp S k] assms(4)
    by (auto simp: p_def)
qed

theorem findGreateOrEqual_correct_witness:
  "\<exists>S ns x p. ns \<noteq> [] \<and> findGreateOrEqual int_cmp S 5 (Some (replicate 12 None)) = Some (x, Some p)
    \<and> x = hd ns \<and> keyof S x = 7"
proof -
  obtain S x where S: "sk_inv bump_new 16 int_cmp (\<lambda>_. True) S [x]" "keyof S x = 7"
    using demo_list by blast
  from findGreateOrEqual_correct [OF int_keys.key_order_axioms S(1) TrueI, of "replicate 12 None" 5]
  obtain y p where "findGreateOrEqual int_cmp S 5 (Some (replicate 12 None)) = Some (y, Some p)" "y = x"
    using S(2) by (auto simp: int_cmp_def)
  then show ?thesis using S(2) by (intro exI [of _ S] exI [of _ "[x]"]) auto
qed


text \<open>
  C7 (src/database/skiplist.h, \<open>insert\<close>). On a well-formed list: a key that compares equal to
  a stored one stops the program in the assertion; any other key is put in its place, all
  other keys keep theirs, and the result is a well-formed list (every level sorted and
  linked through, heights and memory right), unless the system has no memory for the node.
\<close>

theorem skip_insert_correct:
  assumes "key_order cmp D" "sk_inv os nsz cmp D S ns" "D k"
  shows "if \<exists>a \<in> set ns. cmp k (keyof S a) = 0 then skip_insert os nsz cmp S k = None
    else case skip_insert os nsz cmp S k of
      None \<Rightarrow> \<exists>h \<in> {1..12}. allocateAligned os (sk_arena S) (nsz + 8 * (h - 1)) = None
    | Some T \<Rightarrow> \<exists>ns'. sk_inv os nsz cmp D T ns'
        \<and> keys_of T ns' = takeWhile (\<lambda>x. cmp x k < 0) (keys_of S ns) @ k #
            dropWhile (\<lambda>x. cmp x k < 0) (keys_of S ns)
        \<and> set ns \<subseteq> set ns' \<and> sk_head T = sk_head S"
proof -
  let ?L = "takeWhile (\<lambda>a. cmp (keyof S a) k < 0) ns" and ?G = "dropWhile (\<lambda>a. cmp (keyof S a) k < 0) ns"
  have "keys_of T (?L @ x # ?G) = takeWhile (\<lambda>x. cmp x k < 0) (keys_of S ns) @ k #
      dropWhile (\<lambda>x. cmp x k < 0) (keys_of S ns)" "set ns \<subseteq> set (?L @ x # ?G)"
    if "keyof T x = k" "\<forall>a \<in> set ns. keyof T a = keyof S a" for T x
  proof -
    have "keys_of T ?L = keys_of S ?L" "keys_of T ?G = keys_of S ?G"
      using that(2) by (auto simp: keys_of_def dest: set_takeWhileD set_dropWhileD)
    then show "keys_of T (?L @ x # ?G) = takeWhile (\<lambda>x. cmp x k < 0) (keys_of S ns) @ k #
        dropWhile (\<lambda>x. cmp x k < 0) (keys_of S ns)"
      using that(1) by (simp add: takeWhile_keys) (simp add: keys_of_def)
    have "set (?L @ ?G) = set ns" by simp
    then show "set ns \<subseteq> set (?L @ x # ?G)" by (auto simp del: takeWhile_dropWhile_id)
  qed
  note new = this
  show ?thesis
  proof (cases "\<exists>a \<in> set ns. cmp k (keyof S a) = 0")
    case True
    then show ?thesis using key_order.insert_cases [OF assms] by simp
  next
    case False
    note ins = key_order.insert_cases [OF assms, unfolded if_not_P [OF False]]
    show ?thesis
    proof (cases "skip_insert os nsz cmp S k")
      case None
      then show ?thesis unfolding if_not_P [OF False] using ins by simp
    next
      case (Some T)
      then obtain x where "sk_inv os nsz cmp D T (?L @ x # ?G)" "keyof T x = k"
        "\<forall>a \<in> set ns. keyof T a = keyof S a" "sk_head T = sk_head S" using ins by auto
      then show ?thesis unfolding Some option.case if_not_P [OF False] using new by blast
    qed
  qed
qed

theorem skip_insert_correct_witness:
  "\<exists>S0 S. SkipList_new bump_new 16 0 Arena_new = Some S0 \<and> skip_insert bump_new 16 int_cmp S0 7 = Some S
    \<and> (\<exists>ns. sk_inv bump_new 16 int_cmp (\<lambda>_. True) S ns \<and> keys_of S ns = [7])
    \<and> skip_insert bump_new 16 int_cmp S 7 = None"
proof -
  obtain S0 where S0: "SkipList_new bump_new 16 0 Arena_new = Some S0"
    "sk_inv bump_new 16 int_cmp (\<lambda>_. True) S0 []"
    "\<forall>h \<in> {1..12}. allocateAligned bump_new (sk_arena S0) (16 + 8 * (h - 1)) \<noteq> None"
    using empty_list by blast
  from skip_insert_correct [OF int_keys.key_order_axioms S0(2) TrueI, of 7] S0(3)
  obtain S ns where S: "skip_insert bump_new 16 int_cmp S0 7 = Some S"
    "sk_inv bump_new 16 int_cmp (\<lambda>_. True) S ns" "keys_of S ns = [7]"
    by (auto simp: keys_of_def split: option.splits)
  then obtain x where x: "ns = [x]" "keyof S x = 7" by (auto simp: keys_of_def)
  then have "skip_insert bump_new 16 int_cmp S 7 = None"
    using skip_insert_correct [OF int_keys.key_order_axioms S(2) TrueI, of 7] by (simp add: int_cmp_def)
  then show ?thesis using S0(1) S by blast
qed

text \<open>
  On a well-formed list the function returns, and
  it returns whether a stored key compares equal.
\<close>

theorem contains_correct:
  assumes "key_order cmp D" "sk_inv os nsz cmp D S ns" "D k"
  shows "contains cmp S k = Some (\<exists>x \<in> set (keys_of S ns). cmp k x = 0)"
  using key_order.contains_ok [OF assms] by (simp add: keys_of_def)

theorem contains_correct_witness:
  "\<exists>S. contains int_cmp S 7 = Some True \<and> contains int_cmp S (8::nat) = Some False"
proof -
  obtain S x where S: "sk_inv bump_new 16 int_cmp (\<lambda>_. True) S [x]" "keyof S x = 7"
    using demo_list by blast
  from contains_correct [OF int_keys.key_order_axioms S(1) TrueI] S(2)
  show ?thesis by (intro exI [of _ S]) (simp add: keys_of_def int_cmp_def)
qed

text \<open>
  The class \<open>Iterator\<close>. On a well-formed list with the nodes
  \<open>ns\<close> in key order, positions of the iterator behave as positions in \<open>ns\<close>: the first and the
  last are where \<open>seekToFirst\<close> and \<open>seekToLast\<close> go, \<open>next\<close> and \<open>prev\<close> move by one and become
  invalid past either end, \<open>seek\<close> goes to the first key not before the target, and on an
  invalid iterator \<open>key\<close>, \<open>next\<close> and \<open>prev\<close> stop the program in their assertion.
\<close>

theorem iterator_correct:
  assumes "key_order cmp D" "sk_inv os nsz cmp D S ns"
  shows "it_seekToFirst S it = Some (it_at ns 0)
    \<and> it_seekToLast S it = Some (it_at ns (if ns = [] then 0 else length ns - 1))
    \<and> (\<forall>k. D k \<longrightarrow> it_seek cmp S it k =
        Some (it_at ns (length (takeWhile (\<lambda>x. cmp x k < 0) (keys_of S ns)))))
    \<and> (\<forall>i < length ns. it_valid (it_at ns i) \<and> it_key S (it_at ns i) = Some (keys_of S ns ! i)
      \<and> it_next S (it_at ns i) = Some (it_at ns (i + 1))
      \<and> it_prev cmp S (it_at ns i) = Some (if i = 0 then it_new else it_at ns (i - 1)))
    \<and> (\<forall>i \<ge> length ns. \<not> it_valid (it_at ns i) \<and> it_key S (it_at ns i) = None
      \<and> it_next S (it_at ns i) = None \<and> it_prev cmp S (it_at ns i) = None)"
proof (intro conjI allI impI)
  show "it_seekToFirst S it = Some (it_at ns 0)" by (rule it_first_ok [OF assms(2)])
  show "it_seekToLast S it = Some (it_at ns (if ns = [] then 0 else length ns - 1))"
    by (rule key_order.it_last_ok [OF assms])
  show "it_seek cmp S it k = Some (it_at ns (length (takeWhile (\<lambda>x. cmp x k < 0) (keys_of S ns))))" if "D k" for k
    by (rule key_order.it_seek_ok [OF assms that])
  fix i
  show "it_valid (it_at ns i)" "it_key S (it_at ns i) = Some (keys_of S ns ! i)"
    "it_next S (it_at ns i) = Some (it_at ns (i + 1))"
    "it_prev cmp S (it_at ns i) = Some (if i = 0 then it_new else it_at ns (i - 1))" if i: "i < length ns"
    by (rule it_key_at [OF assms(2) i] it_next_at [OF assms(2) i] key_order.it_prev_at [OF assms i])+
  show "\<not> it_valid (it_at ns i)" "it_key S (it_at ns i) = None"
    "it_next S (it_at ns i) = None" "it_prev cmp S (it_at ns i) = None" if "length ns \<le> i"
    using that by (simp_all add: it_valid_def it_at_def it_invalid)
qed

theorem iterator_correct_witness:
  "\<exists>S ns. ns \<noteq> [] \<and> it_seekToFirst S it_new = Some (it_at ns 0) \<and> it_key S (it_at ns 0) = Some (7 :: nat)
    \<and> it_next S (it_at ns 0) = Some (it_at ns 1) \<and> it_prev int_cmp S (it_at ns 0) = Some it_new"
proof -
  obtain S x where S: "sk_inv bump_new 16 int_cmp (\<lambda>_. True) S [x]" "keyof S x = 7"
    using demo_list by blast
  from iterator_correct [OF int_keys.key_order_axioms S(1), of it_new] S(2)
  show ?thesis by (intro exI [of _ S] exI [of _ "[x]"]) (simp add: keys_of_def)
qed

text \<open>
  A list built by the constructor and any run of insertions
  that succeed holds exactly the keys inserted, sorted and each once, whatever heights the
  random generator gave the nodes, and \<open>contains\<close> answers for every key whether an equal one
  was inserted.
\<close>

theorem skiplist_run_correct:
  assumes "key_order cmp D" "good_new os" "8 \<le> nsz" "nsz \<le> 2 ^ 32" "arena_inv A R"
    and "SkipList_new os nsz key0 A = Some S0" "\<forall>k \<in> set new. D k"
    and "insert_run (skip_insert os nsz cmp) S0 new = Some S"
  shows "\<exists>ns. sk_inv os nsz cmp D S ns \<and> mset (keys_of S ns) = mset new
    \<and> sorted_wrt (\<lambda>a b. cmp a b < 0) (keys_of S ns)
    \<and> (\<forall>k. D k \<longrightarrow> contains cmp S k = Some (\<exists>x \<in> set new. cmp k x = 0))"
proof -
  have "sk_inv os nsz cmp D S0 []" using SkipList_new_ok [OF assms(2-5), of cmp D key0] assms(6) by simp
  then have "skip_rep os nsz cmp D S0 []" unfolding skip_rep_def
    by (intro exI [of _ "[]"]) (simp add: keys_of_def)
  from key_order.skip_run_contents [OF assms(1) this assms(7,8)] show ?thesis
    unfolding skip_rep_def by auto
qed

theorem skiplist_run_correct_witness:
  "\<exists>S0 S. SkipList_new bump_new 16 0 Arena_new = Some S0
    \<and> insert_run (skip_insert bump_new 16 int_cmp) S0 [7] = Some S \<and> contains int_cmp S 7 = Some True"
proof -
  obtain S0 S where S: "SkipList_new bump_new 16 0 Arena_new = Some S0"
    "skip_insert bump_new 16 int_cmp S0 7 = Some S" using demo_list by blast
  then have run: "insert_run (skip_insert bump_new 16 int_cmp) S0 [7] = Some S" by simp
  from skiplist_run_correct [OF int_keys.key_order_axioms good_bump_new _ _ arena_inv_new S(1) _ run]
  show ?thesis using S(1) run by (auto simp: int_cmp_def)
qed

text \<open>
  From any valid state of the generator the
  function returns a height from 1 to 12, both of its assertions hold, and only the
  generator's state changes, to a valid one.
\<close>

theorem randomHeight_correct:
  assumes "random_ok (sk_rnd S)"
  shows "\<exists>h rnd. randomHeight S = Some (h, S\<lparr>sk_rnd := rnd\<rparr>) \<and> 1 \<le> h \<and> h \<le> 12 \<and> random_ok rnd"
  by (rule randomHeight_ok [OF assms])

theorem randomHeight_correct_witness:
  "\<exists>h rnd. randomHeight (\<lparr>sk_arena = Arena_new, sk_nodes = Map.empty, sk_head = 0, sk_max_height = 1,
      sk_rnd = Random_new 0xdeadbeef\<rparr> :: nat skiplist) = Some (h, \<lparr>sk_arena = Arena_new,
      sk_nodes = Map.empty, sk_head = 0, sk_max_height = 1, sk_rnd = rnd\<rparr>) \<and> 1 \<le> h \<and> h \<le> 12"
  using randomHeight_correct [of "\<lparr>sk_arena = Arena_new, sk_nodes = Map.empty, sk_head = 0,
    sk_max_height = 1, sk_rnd = Random_new 0xdeadbeef\<rparr> :: nat skiplist"] Random_new_ok by auto

end
