(* ===== verification/KV_SkipClient.thy ===== *)
theory KV_SkipClient
  imports KV_SkipSet
begin

text \<open>
  Programs over src/database/skiplist.h: any sequence of calls on a list and on any number of
  iterators over it, against a machine that has nothing but the sorted keys and, for each
  iterator, the key at which it stands. Insertions come between the moves of the iterators.
\<close>

section \<open>Calls\<close>

datatype 'k list_call =
    CallInsert 'k | CallContains 'k
  | ItNew nat | ItSeekToFirst nat | ItSeekToLast nat | ItSeek nat 'k
  | ItNext nat | ItPrev nat | ItValid nat | ItKey nat

datatype 'k answer = NoAnswer | Truth bool | TheKey 'k

record 'k client =
  cl_list :: "'k skiplist"
  cl_its :: "nat \<Rightarrow> iterator"

definition move_it :: "'k client \<Rightarrow> nat \<Rightarrow> iterator option \<Rightarrow> ('k answer \<times> 'k client) option" where
  "move_it c i r = map_option (\<lambda>it. (NoAnswer, c\<lparr>cl_its := (cl_its c)(i := it)\<rparr>)) r"

fun call_list ::
    "os \<Rightarrow> nat \<Rightarrow> ('k \<Rightarrow> 'k \<Rightarrow> int) \<Rightarrow> 'k list_call \<Rightarrow> 'k client \<Rightarrow> ('k answer \<times> 'k client) option" where
  "call_list os nsz cmp (CallInsert k) c =
     map_option (\<lambda>S. (NoAnswer, c\<lparr>cl_list := S\<rparr>)) (skip_insert os nsz cmp (cl_list c) k)"
| "call_list os nsz cmp (CallContains k) c = map_option (\<lambda>b. (Truth b, c)) (contains cmp (cl_list c) k)"
| "call_list os nsz cmp (ItNew i) c = move_it c i (Some it_new)"
| "call_list os nsz cmp (ItSeekToFirst i) c = move_it c i (it_seekToFirst (cl_list c) (cl_its c i))"
| "call_list os nsz cmp (ItSeekToLast i) c = move_it c i (it_seekToLast (cl_list c) (cl_its c i))"
| "call_list os nsz cmp (ItSeek i k) c = move_it c i (it_seek cmp (cl_list c) (cl_its c i) k)"
| "call_list os nsz cmp (ItNext i) c = move_it c i (it_next (cl_list c) (cl_its c i))"
| "call_list os nsz cmp (ItPrev i) c = move_it c i (it_prev cmp (cl_list c) (cl_its c i))"
| "call_list os nsz cmp (ItValid i) c = Some (Truth (it_valid (cl_its c i)), c)"
| "call_list os nsz cmp (ItKey i) c = map_option (\<lambda>k. (TheKey k, c)) (it_key (cl_list c) (cl_its c i))"

text \<open>A program, with the answers of its calls; None when one of them stops the program.\<close>

fun run_calls :: "('c \<Rightarrow> 's \<Rightarrow> ('a \<times> 's) option) \<Rightarrow> 'c list \<Rightarrow> 's \<Rightarrow> ('a list \<times> 's) option" where
  "run_calls f [] s = Some ([], s)"
| "run_calls f (c # cs) s = do {
     (a, s1) \<leftarrow> f c s;
     (as, s2) \<leftarrow> run_calls f cs s1;
     Some (a # as, s2) }"

section \<open>The abstract machine\<close>

record 'k cursors =
  cu_keys :: "'k list"
  cu_at :: "nat \<Rightarrow> 'k option"

definition put_at :: "'k cursors \<Rightarrow> nat \<Rightarrow> 'k option \<Rightarrow> 'k answer \<times> 'k cursors" where
  "put_at u i k = (NoAnswer, u\<lparr>cu_at := (cu_at u)(i := k)\<rparr>)"

text \<open>What the calls mean: the first and the last key, the first not before, the next after and the last before a key.\<close>

fun spec_call :: "('k \<Rightarrow> 'k \<Rightarrow> int) \<Rightarrow> 'k list_call \<Rightarrow> 'k cursors \<Rightarrow> 'k answer \<times> 'k cursors" where
  "spec_call cmp (CallInsert k) u = (NoAnswer, u\<lparr>cu_keys :=
     takeWhile (\<lambda>x. cmp x k < 0) (cu_keys u) @ k # dropWhile (\<lambda>x. cmp x k < 0) (cu_keys u)\<rparr>)"
| "spec_call cmp (CallContains k) u = (Truth (\<exists>x \<in> set (cu_keys u). cmp k x = 0), u)"
| "spec_call cmp (ItNew i) u = put_at u i None"
| "spec_call cmp (ItSeekToFirst i) u = put_at u i (find (\<lambda>_. True) (cu_keys u))"
| "spec_call cmp (ItSeekToLast i) u = put_at u i (find (\<lambda>_. True) (rev (cu_keys u)))"
| "spec_call cmp (ItSeek i k) u = put_at u i (find (\<lambda>x. 0 \<le> cmp x k) (cu_keys u))"
| "spec_call cmp (ItNext i) u = put_at u i (find (\<lambda>x. cmp (the (cu_at u i)) x < 0) (cu_keys u))"
| "spec_call cmp (ItPrev i) u = put_at u i (find (\<lambda>x. cmp x (the (cu_at u i)) < 0) (rev (cu_keys u)))"
| "spec_call cmp (ItValid i) u = (Truth (cu_at u i \<noteq> None), u)"
| "spec_call cmp (ItKey i) u = (TheKey (the (cu_at u i)), u)"

text \<open>The requirements in the comments: no key twice, and \<open>next\<close>, \<open>prev\<close> and \<open>key\<close> on valid iterators only.\<close>

fun legal_call :: "('k \<Rightarrow> 'k \<Rightarrow> int) \<Rightarrow> 'k list_call \<Rightarrow> 'k cursors \<Rightarrow> bool" where
  "legal_call cmp (CallInsert k) u = (\<forall>x \<in> set (cu_keys u). cmp k x \<noteq> 0)"
| "legal_call cmp (ItNext i) u = (cu_at u i \<noteq> None)"
| "legal_call cmp (ItPrev i) u = (cu_at u i \<noteq> None)"
| "legal_call cmp (ItKey i) u = (cu_at u i \<noteq> None)"
| "legal_call cmp _ u = True"

fun call_dom :: "('k \<Rightarrow> bool) \<Rightarrow> 'k list_call \<Rightarrow> bool" where
  "call_dom D (CallInsert k) = D k"
| "call_dom D (CallContains k) = D k"
| "call_dom D (ItSeek i k) = D k"
| "call_dom D _ = True"

fun spec_calls :: "('c \<Rightarrow> 't \<Rightarrow> 'a \<times> 't) \<Rightarrow> 'c list \<Rightarrow> 't \<Rightarrow> 'a list" where
  "spec_calls g [] t = []"
| "spec_calls g (c # cs) t = fst (g c t) # spec_calls g cs (snd (g c t))"

fun legal_calls :: "('c \<Rightarrow> 't \<Rightarrow> bool) \<Rightarrow> ('c \<Rightarrow> 't \<Rightarrow> 'a \<times> 't) \<Rightarrow> 'c list \<Rightarrow> 't \<Rightarrow> bool" where
  "legal_calls l g [] t = True"
| "legal_calls l g (c # cs) t = (l c t \<and> legal_calls l g cs (snd (g c t)))"

section \<open>Simulation\<close>

text \<open>
  The system may refuse memory to an insertion; \<open>stuck\<close> says that this has happened in a run.
\<close>

fun call_oom :: "os \<Rightarrow> nat \<Rightarrow> 'k list_call \<Rightarrow> 'k client \<Rightarrow> bool" where
  "call_oom os nsz (CallInsert k) c =
     (\<exists>h \<in> {1..12}. allocateAligned os (sk_arena (cl_list c)) (nsz + 8 * (h - 1)) = None)"
| "call_oom os nsz _ c = False"

definition stuck :: "('c \<Rightarrow> 's \<Rightarrow> ('a \<times> 's) option) \<Rightarrow> ('c \<Rightarrow> 's \<Rightarrow> bool) \<Rightarrow> 'c list \<Rightarrow> 's \<Rightarrow> bool" where
  "stuck f oom cs s \<longleftrightarrow> (\<exists>ds c es as s'. cs = ds @ c # es \<and> run_calls f ds s = Some (as, s') \<and> oom c s')"

lemma stuck_first: "oom c s \<Longrightarrow> stuck f oom (c # cs) s"
  unfolding stuck_def by (intro exI [of _ "[]"] exI [of _ c] exI [of _ cs]) simp

lemma stuck_later:
  assumes "f c s = Some (a, s1)" "stuck f oom cs s1"
  shows "stuck f oom (c # cs) s"
proof -
  obtain ds d es as s' where "cs = ds @ d # es" "run_calls f ds s1 = Some (as, s')" "oom d s'"
    using assms(2) unfolding stuck_def by blast
  then show ?thesis using assms(1) unfolding stuck_def
    by (intro exI [of _ "c # ds"] exI [of _ d] exI [of _ es] exI [of _ "a # as"] exI [of _ s']) simp
qed

text \<open>
  A simulation with answers: a legal call goes through, with the answer of the abstract
  machine, unless memory runs out; an illegal one stops the program.
\<close>

locale call_simulation =
  fixes f :: "'c \<Rightarrow> 's \<Rightarrow> ('a \<times> 's) option" and g :: "'c \<Rightarrow> 't \<Rightarrow> 'a \<times> 't"
    and l :: "'c \<Rightarrow> 't \<Rightarrow> bool" and ok :: "'c \<Rightarrow> bool" and oom :: "'c \<Rightarrow> 's \<Rightarrow> bool"
    and R :: "'s \<Rightarrow> 't \<Rightarrow> bool"
  assumes legal_step: "R s t \<Longrightarrow> ok c \<Longrightarrow> l c t \<Longrightarrow>
      f c s = None \<and> oom c s \<or> (\<exists>s'. f c s = Some (fst (g c t), s') \<and> R s' (snd (g c t)))"
    and illegal_step: "R s t \<Longrightarrow> ok c \<Longrightarrow> \<not> l c t \<Longrightarrow> f c s = None"
begin

lemma run_ok:
  "R s t \<Longrightarrow> \<forall>c \<in> set cs. ok c \<Longrightarrow> case run_calls f cs s of
      None \<Rightarrow> \<not> legal_calls l g cs t \<or> stuck f oom cs s
    | Some (as, s') \<Rightarrow> legal_calls l g cs t \<and> as = spec_calls g cs t \<and> (\<exists>t'. R s' t')"
proof (induction cs arbitrary: s t)
  case (Cons c cs)
  have ok: "ok c" "\<forall>c \<in> set cs. ok c" using Cons.prems(2) by simp_all
  show ?case
  proof (cases "l c t")
    case False
    then show ?thesis using illegal_step [OF Cons.prems(1) ok(1)] by simp
  next
    case legal: True
    consider "f c s = None" "oom c s" | s' where "f c s = Some (fst (g c t), s')" "R s' (snd (g c t))"
      using legal_step [OF Cons.prems(1) ok(1) legal] by (elim disjE conjE exE)
    then show ?thesis
    proof cases
      case 1
      then show ?thesis using stuck_first [of oom c s f cs] by simp
    next
      case (2 s')
      then show ?thesis using Cons.IH [OF 2(2) ok(2)] legal stuck_later [of f c s _ s' oom cs]
        by (cases "run_calls f cs s'") auto
    qed
  qed
qed auto

end

section \<open>The list against the sorted keys\<close>

definition it_rel :: "'k skiplist \<Rightarrow> nat list \<Rightarrow> iterator \<Rightarrow> 'k option \<Rightarrow> bool" where
  "it_rel S ns it k \<longleftrightarrow> it_node it = 0 \<and> k = None \<or> it_node it \<in> set ns \<and> k = Some (keyof S (it_node it))"

definition client_rel ::
    "os \<Rightarrow> nat \<Rightarrow> ('k \<Rightarrow> 'k \<Rightarrow> int) \<Rightarrow> ('k \<Rightarrow> bool) \<Rightarrow> 'k client \<Rightarrow> 'k cursors \<Rightarrow> bool" where
  "client_rel os nsz cmp D c u \<longleftrightarrow> (\<exists>ns. sk_inv os nsz cmp D (cl_list c) ns
     \<and> cu_keys u = keys_of (cl_list c) ns \<and> (\<forall>i. it_rel (cl_list c) ns (cl_its c i) (cu_at u i)))"

text \<open>The key at a position; past the end there is none.\<close>

definition key_at :: "'k list \<Rightarrow> nat \<Rightarrow> 'k option" where
  "key_at ks i = (if i < length ks then Some (ks ! i) else None)"

lemma it_rel_at: "it_rel S ns (it_at ns i) (key_at (keys_of S ns) i)"
  by (simp add: it_rel_def it_at_def key_at_def keys_of_def)

lemma it_rel_new [simp]: "it_rel S ns it_new None"
  by (simp add: it_rel_def it_new_def)

lemma it_rel_valid:
  assumes "0 \<notin> set ns" "it_rel S ns it k"
  shows "it_valid it \<longleftrightarrow> k \<noteq> None"
  using assms by (cases "it_node it = 0") (auto simp: it_rel_def it_valid_def)

lemma it_rel_Some:
  assumes "it_rel S ns it (Some k)"
  obtains i where "i < length ns" "it = it_at ns i" "k = keys_of S ns ! i"
proof -
  obtain i where i: "i < length ns" "ns ! i = it_node it" "k = keyof S (it_node it)"
    using assms by (auto simp: it_rel_def in_set_conv_nth)
  then have "it = it_at ns i" by (simp add: it_at_def)
  then show thesis using that [OF i(1)] i by (simp add: keys_of_def)
qed

lemma find_True: "find (\<lambda>_. True) ks = key_at ks 0" "find (\<lambda>_. True) (rev ks) = key_at ks (length ks - 1)"
proof -
  show "find (\<lambda>_. True) ks = key_at ks 0" by (cases ks) (simp_all add: key_at_def)
  show "find (\<lambda>_. True) (rev ks) = key_at ks (length ks - 1)"
    by (cases ks rule: rev_cases) (simp_all add: key_at_def)
qed

lemma find_from: "find (\<lambda>x. 0 \<le> cmp x k) ks = key_at ks (length (takeWhile (\<lambda>x. cmp x k < (0 :: int)) ks))"
  using find_takeWhile [of "\<lambda>x. cmp x k < 0" ks] by (simp only: not_less key_at_def)

context key_order
begin

lemma sorted_index:
  assumes "sorted_wrt (\<lambda>a b. cmp a b < 0) ks" "\<forall>k \<in> set ks. D k" "i < length ks" "j < length ks"
  shows "cmp (ks ! i) (ks ! j) < 0 \<longleftrightarrow> i < j"
proof (cases i j rule: linorder_cases)
  case less
  then show ?thesis using sorted_wrt_nth_less [OF assms(1) less assms(4)] by simp
next
  case equal
  then show ?thesis using cmp_refl [of "ks ! j"] assms(2,4) by simp
next
  case greater
  then show ?thesis using sorted_wrt_nth_less [OF assms(1) greater assms(3)] cmp_flip [of "ks ! i" "ks ! j"] assms by simp
qed

lemma find_after:
  assumes "sorted_wrt (\<lambda>a b. cmp a b < 0) ks" "\<forall>k \<in> set ks. D k" "i < length ks"
  shows "find (\<lambda>x. cmp (ks ! i) x < 0) ks = key_at ks (i + 1)"
proof (cases "i + 1 < length ks")
  case True
  then show ?thesis using sorted_index [OF assms(1,2)] unfolding key_at_def find_Some_iff if_P [OF True]
    by (intro exI [of _ "i + 1"]) auto
next
  case False
  then show ?thesis using sorted_index [OF assms(1,2,3)] by (auto simp: key_at_def find_None_iff in_set_conv_nth)
qed

lemma find_before:
  assumes "sorted_wrt (\<lambda>a b. cmp a b < 0) ks" "\<forall>k \<in> set ks. D k" "i < length ks"
  shows "find (\<lambda>x. cmp x (ks ! i) < 0) (rev ks) = (if i = 0 then None else key_at ks (i - 1))"
proof (cases "i = 0")
  case True
  then show ?thesis using sorted_index [OF assms(1,2) _ assms(3)] by (auto simp: find_None_iff in_set_conv_nth)
next
  case False
  have "find (\<lambda>x. cmp x (ks ! i) < 0) (rev ks) = Some (ks ! (i - 1))"
    using sorted_index [OF assms(1,2) _ assms(3)] assms(3) False unfolding find_Some_iff
    by (intro exI [of _ "length ks - i"]) (auto simp: rev_nth)
  then show ?thesis using assms(3) False by (simp add: key_at_def)
qed

end

text \<open>Each call is a step of the simulation.\<close>

lemma client_relI:
  "sk_inv os nsz cmp D (cl_list c) ns \<Longrightarrow> cu_keys u = keys_of (cl_list c) ns \<Longrightarrow>
   (\<And>i. it_rel (cl_list c) ns (cl_its c i) (cu_at u i)) \<Longrightarrow> client_rel os nsz cmp D c u"
  unfolding client_rel_def by blast

lemma move_rel:
  assumes "sk_inv os nsz cmp D (cl_list c) ns" "cu_keys u = keys_of (cl_list c) ns"
    and "\<And>i. it_rel (cl_list c) ns (cl_its c i) (cu_at u i)" "\<exists>it. r = Some it \<and> it_rel (cl_list c) ns it k"
  shows "\<exists>c'. move_it c i r = Some (fst (put_at u i k), c') \<and> client_rel os nsz cmp D c' (snd (put_at u i k))"
proof -
  obtain it where it: "r = Some it" "it_rel (cl_list c) ns it k" using assms(4) by blast
  have "client_rel os nsz cmp D (c\<lparr>cl_its := (cl_its c)(i := it)\<rparr>) (u\<lparr>cu_at := (cu_at u)(i := k)\<rparr>)"
    by (rule client_relI [of _ _ _ _ _ ns]) (use assms(1-3) it(2) in auto)
  then show ?thesis using it(1) by (simp add: move_it_def put_at_def)
qed

lemma length_keys_of [simp]: "length (keys_of S ns) = length ns"
  by (simp add: keys_of_def)

context key_order
begin

lemma keys_sorted:
  assumes "sk_inv os nsz cmp D S ns"
  shows "sorted_wrt (\<lambda>a b. cmp a b < 0) (keys_of S ns)" "\<forall>k \<in> set (keys_of S ns). D k" "0 \<notin> set ns"
proof -
  have sh: "shape cmp D S ns (height_of S)" using assms by (simp add: sk_inv_def)
  show "sorted_wrt (\<lambda>a b. cmp a b < 0) (keys_of S ns)" using shapeD(10) [OF sh] by (simp add: keys_of_def sorted_wrt_map)
  show "\<forall>k \<in> set (keys_of S ns). D k" using shapeD(9) [OF sh] by (auto simp: keys_of_def)
  show "0 \<notin> set ns" using shape_nonzero [OF sh] by auto
qed

lemma it_first_rel:
  assumes "sk_inv os nsz cmp D S ns"
  shows "\<exists>it'. it_seekToFirst S it = Some it' \<and> it_rel S ns it' (find (\<lambda>_. True) (keys_of S ns))"
  using it_first_ok [OF assms, of it] it_rel_at [of S ns 0] unfolding find_True(1) by blast

lemma it_last_rel:
  assumes "sk_inv os nsz cmp D S ns"
  shows "\<exists>it'. it_seekToLast S it = Some it' \<and> it_rel S ns it' (find (\<lambda>_. True) (rev (keys_of S ns)))"
  unfolding find_True(2) length_keys_of
  using it_last_ok [OF assms, of it] it_rel_at [of S ns "length ns - 1"] by (cases "ns = []") auto

lemma it_seek_rel:
  assumes "sk_inv os nsz cmp D S ns" "D k"
  shows "\<exists>it'. it_seek cmp S it k = Some it' \<and> it_rel S ns it' (find (\<lambda>x. 0 \<le> cmp x k) (keys_of S ns))"
  using it_seek_ok [OF assms, of it] it_rel_at [of S ns] by (simp add: find_from)

lemma it_next_rel:
  assumes "sk_inv os nsz cmp D S ns" "it_rel S ns it (Some k)"
  shows "\<exists>it'. it_next S it = Some it' \<and> it_rel S ns it' (find (\<lambda>x. cmp k x < 0) (keys_of S ns))"
proof -
  obtain i where i: "i < length ns" "it = it_at ns i" "k = keys_of S ns ! i" using it_rel_Some [OF assms(2)] by metis
  then show ?thesis using it_next_at [OF assms(1) i(1)] find_after [OF keys_sorted(1,2) [OF assms(1)], of i]
      it_rel_at [of S ns "i + 1"] by simp
qed

lemma it_prev_rel:
  assumes "sk_inv os nsz cmp D S ns" "it_rel S ns it (Some k)"
  shows "\<exists>it'. it_prev cmp S it = Some it' \<and> it_rel S ns it' (find (\<lambda>x. cmp x k < 0) (rev (keys_of S ns)))"
proof -
  obtain i where i: "i < length ns" "it = it_at ns i" "k = keys_of S ns ! i" using it_rel_Some [OF assms(2)] by metis
  then show ?thesis using it_prev_at [OF assms(1) i(1)] find_before [OF keys_sorted(1,2) [OF assms(1)], of i]
      it_rel_at [of S ns "i - 1"] by simp
qed

text \<open>After an insertion the iterators stand where they stood: at the same nodes, with the same keys.\<close>

lemma insert_rel:
  assumes inv: "sk_inv os nsz cmp D S ns" and k: "D k" and new: "\<forall>x \<in> set (keys_of S ns). cmp k x \<noteq> 0"
    and T: "skip_insert os nsz cmp S k = Some T"
  shows "\<exists>ns'. sk_inv os nsz cmp D T ns'
    \<and> keys_of T ns' = takeWhile (\<lambda>x. cmp x k < 0) (keys_of S ns) @ k # dropWhile (\<lambda>x. cmp x k < 0) (keys_of S ns)
    \<and> (\<forall>it j. it_rel S ns it j \<longrightarrow> it_rel T ns' it j)"
proof -
  let ?L = "takeWhile (\<lambda>a. cmp (keyof S a) k < 0) ns" and ?G = "dropWhile (\<lambda>a. cmp (keyof S a) k < 0) ns"
  have "\<not> (\<exists>a \<in> set ns. cmp k (keyof S a) = 0)" using new by (simp add: keys_of_def)
  then obtain x where x: "sk_inv os nsz cmp D T (?L @ x # ?G)" "keyof T x = k" "\<forall>a \<in> set ns. keyof T a = keyof S a"
    using insert_cases [OF inv k] T by auto
  have sub: "set ?L \<subseteq> set ns" "set ?G \<subseteq> set ns" by (auto dest: set_takeWhileD set_dropWhileD)
  then have "keys_of T ?L = keys_of S ?L" "keys_of T ?G = keys_of S ?G" using x(3) by (auto simp: keys_of_def)
  then have "keys_of T (?L @ x # ?G) =
      takeWhile (\<lambda>x. cmp x k < 0) (keys_of S ns) @ k # dropWhile (\<lambda>x. cmp x k < 0) (keys_of S ns)"
    using x(2) by (simp add: takeWhile_keys) (simp add: keys_of_def)
  moreover have "set ns = set ?L \<union> set ?G" by (metis set_append takeWhile_dropWhile_id)
  then have "set ns \<subseteq> set (?L @ x # ?G)" by (simp only: set_append list.set) blast
  then have "it_rel T (?L @ x # ?G) it j" if "it_rel S ns it j" for it j
    using that x(3) by (auto simp: it_rel_def)
  ultimately show ?thesis using x(1) by blast
qed

lemma call_legal:
  assumes rel: "client_rel os nsz cmp D c u" and D: "call_dom D q" and legal: "legal_call cmp q u"
  shows "call_list os nsz cmp q c = None \<and> call_oom os nsz q c
    \<or> (\<exists>c'. call_list os nsz cmp q c = Some (fst (spec_call cmp q u), c')
        \<and> client_rel os nsz cmp D c' (snd (spec_call cmp q u)))"
proof -
  let ?S = "cl_list c"
  obtain ns where inv: "sk_inv os nsz cmp D ?S ns" and ks: "cu_keys u = keys_of ?S ns"
    and its: "\<And>i. it_rel ?S ns (cl_its c i) (cu_at u i)" using rel by (auto simp: client_rel_def)
  note move = move_rel [OF inv ks its] and valid = it_rel_valid [OF keys_sorted(3) [OF inv] its]
  have key: "cu_at u i = Some k \<Longrightarrow> it_key ?S (cl_its c i) = Some k" for i k
    using it_rel_Some [of ?S ns "cl_its c i" k] its [of i] it_key_at(2) [OF inv] by metis
  show ?thesis
  proof (cases q)
    case (CallInsert k)
    then have k: "D k" "\<forall>x \<in> set (keys_of ?S ns). cmp k x \<noteq> 0" using D legal ks by simp_all
    show ?thesis
    proof (cases "skip_insert os nsz cmp ?S k")
      case None
      have "\<not> (\<exists>a \<in> set ns. cmp k (keyof ?S a) = 0)" using k(2) by (simp add: keys_of_def)
      then show ?thesis using insert_cases [OF inv k(1)] None CallInsert by simp
    next
      case (Some T)
      then obtain ns' where ns': "sk_inv os nsz cmp D T ns'" "keys_of T ns' =
          takeWhile (\<lambda>x. cmp x k < 0) (keys_of ?S ns) @ k # dropWhile (\<lambda>x. cmp x k < 0) (keys_of ?S ns)"
        "\<And>it j. it_rel ?S ns it j \<Longrightarrow> it_rel T ns' it j" using insert_rel [OF inv k] by metis
      have "client_rel os nsz cmp D (c\<lparr>cl_list := T\<rparr>) (snd (spec_call cmp q u))"
        by (rule client_relI [of _ _ _ _ _ ns']) (use ns' its in \<open>simp_all add: CallInsert ks\<close>)
      then show ?thesis using Some CallInsert by simp
    qed
  next
    case (CallContains k)
    then show ?thesis using contains_ok [OF inv, of k] D ks rel by (simp add: keys_of_def)
  next
    case (ItNew i)
    then show ?thesis using move [of "Some it_new"] by simp
  next
    case (ItSeekToFirst i)
    then show ?thesis using move it_first_rel [OF inv] by (simp add: ks)
  next
    case (ItSeekToLast i)
    then show ?thesis using move it_last_rel [OF inv] by (simp add: ks)
  next
    case (ItSeek i k)
    then show ?thesis using move it_seek_rel [OF inv, of k] D by (simp add: ks)
  next
    case (ItNext i)
    then show ?thesis using move it_next_rel [OF inv] its [of i] legal by (auto simp: ks)
  next
    case (ItPrev i)
    then show ?thesis using move it_prev_rel [OF inv] its [of i] legal by (auto simp: ks)
  next
    case (ItValid i)
    then show ?thesis using valid rel by simp
  next
    case (ItKey i)
    then show ?thesis using key legal rel by auto
  qed
qed

lemma call_illegal:
  assumes rel: "client_rel os nsz cmp D c u" and D: "call_dom D q" and illegal: "\<not> legal_call cmp q u"
  shows "call_list os nsz cmp q c = None"
proof -
  let ?S = "cl_list c"
  obtain ns where inv: "sk_inv os nsz cmp D ?S ns" and ks: "cu_keys u = keys_of ?S ns"
    and its: "\<And>i. it_rel ?S ns (cl_its c i) (cu_at u i)" using rel by (auto simp: client_rel_def)
  have dead: "\<not> it_valid (cl_its c i)" if "cu_at u i = None" for i
    using it_rel_valid [OF keys_sorted(3) [OF inv] its] that by simp
  show ?thesis
  proof (cases q)
    case (CallInsert k)
    then have "\<exists>a \<in> set ns. cmp k (keyof ?S a) = 0" using illegal ks by (auto simp: keys_of_def)
    then show ?thesis using insert_cases [OF inv, of k] D CallInsert by simp
  qed (use illegal dead it_invalid in \<open>auto simp: move_it_def\<close>)
qed

end

sublocale key_order \<subseteq> calls: call_simulation "call_list os nsz cmp" "spec_call cmp" "legal_call cmp" "call_dom D"
  "call_oom os nsz" "client_rel os nsz cmp D" for os nsz
  by unfold_locales (rule call_legal call_illegal; assumption)+

context key_order
begin

lemmas list_run_ok = calls.run_ok

end

section \<open>The memory of the nodes\<close>

text \<open>The bytes of a node: \<open>sizeof(Node)\<close>, which has room for one link at its end, and the links above it.\<close>

definition node_bytes :: "nat \<Rightarrow> 'k skiplist \<Rightarrow> nat \<Rightarrow> nat" where
  "node_bytes nsz S a = nsz + 8 * (height_of S a - 1)"

lemma sorted_wrt_distinct_pair:
  assumes "sorted_wrt P xs" "\<And>x y. P x y \<Longrightarrow> P y x" "x \<in> set xs" "y \<in> set xs" "x \<noteq> y"
  shows "P x y"
  using assms by (induction xs) auto

lemma sum_list_subset:
  fixes f :: "'a \<Rightarrow> nat"
  assumes "distinct xs" "set xs \<subseteq> set ys"
  shows "sum_list (map f xs) \<le> sum_list (map f ys)"
proof -
  have "sum_list (map f xs) = sum f (set xs)" using assms(1) by (simp add: sum_list_distinct_conv_sum_set)
  also have "\<dots> \<le> sum f (set ys)" by (rule sum_mono2) (use assms(2) in auto)
  also have "\<dots> \<le> sum_list (map f ys)" by (induction ys) (auto simp: sum.insert_if)
  finally show ?thesis .
qed

lemma nodes_memory:
  assumes inv: "sk_inv os nsz cmp D S ns"
  shows "(\<forall>a \<in> set (sk_head S # ns). (\<exists>b \<in> set (blocks (sk_arena S)). region_in (a, node_bytes nsz S a) b)
      \<and> (\<forall>i < height_of S a. region_in (a + (nsz - 8) + 8 * i, 8) (a, node_bytes nsz S a)))
    \<and> (\<forall>a \<in> set (sk_head S # ns). \<forall>b \<in> set (sk_head S # ns). a \<noteq> b \<longrightarrow>
        region_disj (a, node_bytes nsz S a) (b, node_bytes nsz S b))
    \<and> sum_list (map (node_bytes nsz S) (sk_head S # ns)) \<le> bytes_in (blocks (sk_arena S))"
proof -
  let ?A = "sk_arena S" and ?ns = "sk_head S # ns" and ?r = "\<lambda>a. (a, node_bytes nsz S a)"
  have dist: "distinct ?ns" using inv shapeD(1) by (fastforce simp: sk_inv_def)
  obtain R where R: "arena_inv ?A R" "8 \<le> nsz"
    "\<And>a nd. sk_nodes S a = Some nd \<Longrightarrow> (a, nsz + 8 * (length (nd_nexts nd) - 1)) \<in> set R"
    using inv by (auto simp: sk_inv_def sk_mem_def)
  have mem: "?r a \<in> set R" if "a \<in> set ?ns" for a
  proof -
    have "a \<in> dom (sk_nodes S)" using inv that by (simp add: sk_inv_def)
    then obtain nd where "sk_nodes S a = Some nd" by blast
    from R(3) [OF this] this show ?thesis by (simp add: node_bytes_def height_of_def)
  qed
  have "region_disj (?r a) (?r b)" if "a \<in> set ?ns" "b \<in> set ?ns" "a \<noteq> b" for a b
    by (rule sorted_wrt_distinct_pair [of region_disj R])
      (use R(1) mem that iffD1 [OF region_disj_sym] in \<open>auto simp: arena_inv_def\<close>)
  moreover have "\<exists>b \<in> set (blocks ?A). region_in (?r a) b" if "a \<in> set ?ns" for a
    using R(1) mem [OF that] unfolding arena_inv_def by blast
  moreover have "region_in (a + (nsz - 8) + 8 * i, 8) (?r a)" if "i < height_of S a" for a i
    unfolding region_in_def node_bytes_def fst_conv snd_conv using that R(2) by arith
  moreover have "sum_list (map (node_bytes nsz S) ?ns) \<le> bytes_in (blocks ?A)"
  proof -
    have "sum_list (map (node_bytes nsz S) ?ns) = sum_list (map snd (map ?r ?ns))" by (simp add: comp_def)
    also have "\<dots> \<le> bytes_in R" unfolding bytes_in_def
      by (rule sum_list_subset) (use dist mem in \<open>auto simp: distinct_map inj_on_def\<close>)
    also have "\<dots> \<le> bytes_in (blocks ?A)" using R(1) by (simp add: arena_inv_def)
    finally show ?thesis .
  qed
  ultimately show ?thesis by blast
qed

section \<open>Properties\<close>

text \<open>A list that was just built, and iterators that were just constructed on it.\<close>

definition client_init :: "'k skiplist \<Rightarrow> 'k client" where
  "client_init S = \<lparr>cl_list = S, cl_its = \<lambda>_. it_new\<rparr>"

definition cursors_init :: "'k cursors" where
  "cursors_init = \<lparr>cu_keys = [], cu_at = \<lambda>_. None\<rparr>"

lemma client_rel_init:
  assumes "good_new os" "8 \<le> nsz" "nsz \<le> 2 ^ 32" "arena_inv A R" "SkipList_new os nsz key0 A = Some S0"
  shows "client_rel os nsz cmp D (client_init S0) cursors_init"
proof -
  have "sk_inv os nsz cmp D S0 []" using SkipList_new_ok [OF assms(1-4), of cmp D key0] assms(5) by simp
  then show ?thesis
    by (intro client_relI [of _ _ _ _ _ "[]"]) (simp_all add: client_init_def cursors_init_def keys_of_def)
qed

text \<open>A small program: one insertion, and an iterator that finds the key and walks past the end.\<close>

definition demo_calls :: "nat list_call list" where
  "demo_calls = [ItNew 0, ItSeek 0 3, ItKey 0, ItNext 0, ItValid 0, CallContains 7]"

lemma not_stuck: "(\<And>c s. c \<in> set cs \<Longrightarrow> \<not> oom c s) \<Longrightarrow> \<not> stuck f oom cs s"
  by (auto simp: stuck_def)

lemma demo_program:
  obtains S0 as c where "SkipList_new bump_new 16 0 Arena_new = Some S0"
    "run_calls (call_list bump_new 16 int_cmp) (CallInsert 7 # demo_calls) (client_init S0) = Some (as, c)"
proof -
  obtain S0 S where S: "SkipList_new bump_new 16 0 Arena_new = Some S0"
    "skip_insert bump_new 16 int_cmp S0 7 = Some S" using demo_list by blast
  let ?f = "call_list bump_new 16 int_cmp" and ?u = "snd (spec_call int_cmp (CallInsert 7) cursors_init)"
  have rel: "client_rel bump_new 16 int_cmp (\<lambda>_. True) (client_init S0) cursors_init"
    by (rule client_rel_init [OF good_bump_new _ _ arena_inv_new S(1)]) simp_all
  have "client_rel bump_new 16 int_cmp (\<lambda>_. True) (client_init S0\<lparr>cl_list := S\<rparr>) ?u"
    using int_keys.call_legal [OF rel, of "CallInsert 7"] S(2) by (simp add: client_init_def cursors_init_def)
  moreover have "\<forall>q \<in> set demo_calls. call_dom (\<lambda>_. True) q" by (simp add: demo_calls_def)
  moreover have "legal_calls (legal_call int_cmp) (spec_call int_cmp) demo_calls ?u"
    by (simp add: demo_calls_def cursors_init_def put_at_def int_cmp_def)
  moreover have "\<not> stuck ?f (call_oom bump_new 16) demo_calls c" for c
    by (rule not_stuck) (auto simp: demo_calls_def)
  ultimately obtain as c where "run_calls ?f demo_calls (client_init S0\<lparr>cl_list := S\<rparr>) = Some (as, c)"
    using int_keys.list_run_ok [of bump_new 16 "client_init S0\<lparr>cl_list := S\<rparr>" ?u demo_calls]
    by (auto split: option.splits)
  then show thesis using that [OF S(1)] S(2) by (simp add: client_init_def)
qed

text \<open>
  C4 (src/database/skiplist.h). Programs that keep the requirements in the comments do not go
  wrong. Take a list just built and any program over it: insertions, membership tests and the
  operations of any number of iterators, in any order. If it inserts no key that compares equal to one in
  the list and calls \<open>next\<close>, \<open>prev\<close> and \<open>key\<close> on valid iterators only, then it does not stop, be it in
  an assertion, at a link that was never written or at a null pointer, unless the system
  refuses memory to one of its insertions. And whatever state a program reaches is well-formed:
  the list keeps its invariant, and every iterator is null or at a node of the list.
\<close>

theorem list_programs_safe:
  assumes "key_order cmp D" "good_new os" "8 \<le> nsz" "nsz \<le> 2 ^ 32" "arena_inv A R"
    and "SkipList_new os nsz key0 A = Some S0" "\<forall>q \<in> set prog. call_dom D q"
  shows "case run_calls (call_list os nsz cmp) prog (client_init S0) of
      None \<Rightarrow> \<not> legal_calls (legal_call cmp) (spec_call cmp) prog cursors_init
        \<or> stuck (call_list os nsz cmp) (call_oom os nsz) prog (client_init S0)
    | Some (_, c) \<Rightarrow> \<exists>ns. sk_inv os nsz cmp D (cl_list c) ns
        \<and> (\<forall>i. it_node (cl_its c i) = 0 \<or> it_node (cl_its c i) \<in> set ns)"
  using key_order.list_run_ok [OF assms(1) client_rel_init [OF assms(2-6)] assms(7)]
  by (auto simp: client_rel_def it_rel_def split: option.splits)

theorem list_programs_safe_witness:
  "\<exists>S0 as c ns. SkipList_new bump_new 16 0 Arena_new = Some S0
    \<and> run_calls (call_list bump_new 16 int_cmp) (CallInsert 7 # demo_calls) (client_init S0) = Some (as, c)
    \<and> sk_inv bump_new 16 int_cmp (\<lambda>_. True) (cl_list c) ns \<and> (it_node (cl_its c 0) = 0 \<or> it_node (cl_its c 0) \<in> set ns)"
proof -
  obtain S0 as c where S: "SkipList_new bump_new 16 0 Arena_new = Some S0"
    "run_calls (call_list bump_new 16 int_cmp) (CallInsert 7 # demo_calls) (client_init S0) = Some (as, c)"
    using demo_program by metis
  from list_programs_safe [OF int_keys.key_order_axioms good_bump_new _ _ arena_inv_new S(1), of "CallInsert 7 # demo_calls"]
  show ?thesis using S by (auto simp: demo_calls_def)
qed

text \<open>
  C3 (src/database/skiplist.h). Programs of insertions, membership tests and moves
  of any number of iterators over a list that was just built get the answers of the abstract
  machine, which has a sorted list of keys and a key for each iterator: whenever a program
  runs to its end, it was legal, \<open>contains\<close>, \<open>valid\<close> and \<open>key\<close> have returned what the machine
  says, and the iterators have moved over the keys as it moves them, also over keys that were
  inserted after the iterator was placed.
\<close>

theorem list_programs_correct:
  assumes "key_order cmp D" "good_new os" "8 \<le> nsz" "nsz \<le> 2 ^ 32" "arena_inv A R"
    and "SkipList_new os nsz key0 A = Some S0" "\<forall>q \<in> set prog. call_dom D q"
    and "run_calls (call_list os nsz cmp) prog (client_init S0) = Some (answers, c)"
  shows "legal_calls (legal_call cmp) (spec_call cmp) prog cursors_init
    \<and> answers = spec_calls (spec_call cmp) prog cursors_init"
  using key_order.list_run_ok [OF assms(1) client_rel_init [OF assms(2-6)] assms(7)] assms(8) by simp

theorem list_programs_correct_witness:
  "\<exists>S0 c. SkipList_new bump_new 16 0 Arena_new = Some S0
    \<and> run_calls (call_list bump_new 16 int_cmp) (CallInsert 7 # demo_calls) (client_init S0) =
      Some ([NoAnswer, NoAnswer, NoAnswer, TheKey 7, NoAnswer, Truth False, Truth True], c)"
proof -
  obtain S0 as c where S: "SkipList_new bump_new 16 0 Arena_new = Some S0"
    "run_calls (call_list bump_new 16 int_cmp) (CallInsert 7 # demo_calls) (client_init S0) = Some (as, c)"
    using demo_program by metis
  have "as = spec_calls (spec_call int_cmp) (CallInsert 7 # demo_calls) cursors_init"
    using list_programs_correct [OF int_keys.key_order_axioms good_bump_new _ _ arena_inv_new S(1) _ S(2)]
    by (simp add: demo_calls_def)
  also have "\<dots> = [NoAnswer, NoAnswer, NoAnswer, TheKey 7, NoAnswer, Truth False, Truth True]"
    by (simp add: demo_calls_def cursors_init_def put_at_def int_cmp_def)
  finally show ?thesis using S by blast
qed

text \<open>
  C19 (src/database/skiplist.h, \<open>newNode\<close>, with src/util/arena.h and arena.cc). The nodes of a list
  that a program has built lie in memory that is theirs. Each has \<open>sizeof(Node)\<close> bytes and a
  pointer for each level above the first, inside one block of the arena; each link that its
  height allows is a word inside them, also those past the declared array of one link; the
  bytes of different nodes do not overlap; and together they are no more than the blocks of
  the arena, whose sizes \<open>memoryUsage\<close> counts with a pointer for each.
\<close>

theorem list_memory_safe:
  assumes "key_order cmp D" "good_new os" "8 \<le> nsz" "nsz \<le> 2 ^ 32" "arena_inv A R"
    and "SkipList_new os nsz key0 A = Some S0" "\<forall>q \<in> set prog. call_dom D q"
    and "run_calls (call_list os nsz cmp) prog (client_init S0) = Some (answers, c)"
  shows "\<exists>ns. dom (sk_nodes (cl_list c)) = set ns \<and> distinct ns
    \<and> (\<forall>a \<in> set ns. (\<exists>b \<in> set (blocks (sk_arena (cl_list c))). region_in (a, node_bytes nsz (cl_list c) a) b)
      \<and> (\<forall>i < height_of (cl_list c) a. region_in (a + (nsz - 8) + 8 * i, 8) (a, node_bytes nsz (cl_list c) a)))
    \<and> (\<forall>a \<in> set ns. \<forall>b \<in> set ns. a \<noteq> b \<longrightarrow>
        region_disj (a, node_bytes nsz (cl_list c) a) (b, node_bytes nsz (cl_list c) b))
    \<and> sum_list (map (node_bytes nsz (cl_list c)) ns) \<le> bytes_in (blocks (sk_arena (cl_list c)))
    \<and> memoryUsage (sk_arena (cl_list c)) =
        (bytes_in (blocks (sk_arena (cl_list c))) + 8 * length (blocks (sk_arena (cl_list c)))) mod 2 ^ 64"
proof -
  obtain ns where inv: "sk_inv os nsz cmp D (cl_list c) ns"
    using key_order.list_run_ok [OF assms(1) client_rel_init [OF assms(2-6)] assms(7)] assms(8)
    by (auto simp: client_rel_def)
  obtain R' where R: "arena_inv (sk_arena (cl_list c)) R'" using inv by (auto simp: sk_inv_def sk_mem_def)
  have "(\<Sum>b \<leftarrow> xs. snd b + 8) = bytes_in xs + 8 * length xs" for xs :: "region list"
    by (induction xs) (simp_all add: bytes_in_def)
  then have "memoryUsage (sk_arena (cl_list c)) =
      (bytes_in (blocks (sk_arena (cl_list c))) + 8 * length (blocks (sk_arena (cl_list c)))) mod 2 ^ 64"
    using R by (simp add: arena_inv_def memoryUsage_def)
  moreover have "distinct (sk_head (cl_list c) # ns)" "dom (sk_nodes (cl_list c)) = set (sk_head (cl_list c) # ns)"
    using inv shapeD(1) unfolding sk_inv_def by blast+
  ultimately show ?thesis using nodes_memory [OF inv] by blast
qed

theorem list_memory_safe_witness:
  "\<exists>S0 as c. SkipList_new bump_new 16 0 Arena_new = Some S0
    \<and> run_calls (call_list bump_new 16 int_cmp) (CallInsert 7 # demo_calls) (client_init S0) = Some (as, c)
    \<and> (\<forall>a \<in> dom (sk_nodes (cl_list c)). \<exists>b \<in> set (blocks (sk_arena (cl_list c))).
        region_in (a, node_bytes 16 (cl_list c) a) b)"
proof -
  obtain S0 as c where S: "SkipList_new bump_new 16 0 Arena_new = Some S0"
    "run_calls (call_list bump_new 16 int_cmp) (CallInsert 7 # demo_calls) (client_init S0) = Some (as, c)"
    using demo_program by metis
  have "\<forall>q \<in> set (CallInsert 7 # demo_calls). call_dom (\<lambda>_. True) q" by (simp add: demo_calls_def)
  from list_memory_safe [OF int_keys.key_order_axioms good_bump_new _ _ arena_inv_new S(1) this S(2)]
  show ?thesis using S by auto
qed

end
