(* ===== verification/KV_SkipSearch.thy ===== *)
theory KV_SkipSearch
  imports KV_SkipSet
begin

text \<open>
  The three searches of src/database/skiplist.h, \<open>findGreateOrEqual\<close> (without an array),
  \<open>findLessThan\<close> and \<open>findLast\<close>, as sequences of iterations of their loops. An iteration loads
  one link and reads keys that never change, so that it is the step in which a search can be
  interleaved with other threads. The iteration is tied to the loops of the theory
  KV_SkipList, and it is correct on any list of the right shape, also on one that an
  insertion is changing.
\<close>

section \<open>One iteration\<close>

datatype 'k search =
    GreaterOrEqual 'k          \<comment> \<open>\<open>findGreateOrEqual(key, nullptr)\<close>\<close>
  | LessThan 'k                \<comment> \<open>\<open>findLessThan(key)\<close>\<close>
  | LastNode                   \<comment> \<open>\<open>findLast()\<close>\<close>

text \<open>The assertion at the head of the loop of \<open>findLessThan\<close>.\<close>

fun search_assert :: "('k \<Rightarrow> 'k \<Rightarrow> int) \<Rightarrow> 'k skiplist \<Rightarrow> 'k search \<Rightarrow> nat \<Rightarrow> unit option" where
  "search_assert cmp S (LessThan key) x =
     (if x = sk_head S then Some () else do { k \<leftarrow> node_key S x; cassert (cmp k key < 0) })"
| "search_assert cmp S _ x = Some ()"

text \<open>Whether the search goes on at \<open>nxt\<close>, on the same level.\<close>

fun search_after :: "('k \<Rightarrow> 'k \<Rightarrow> int) \<Rightarrow> 'k skiplist \<Rightarrow> 'k search \<Rightarrow> nat \<Rightarrow> bool option" where
  "search_after cmp S (GreaterOrEqual key) nxt = keyIsAfterNode cmp S key nxt"
| "search_after cmp S (LessThan key) nxt =
     (if nxt = 0 then Some False else do { k \<leftarrow> node_key S nxt; Some (\<not> cmp k key \<ge> 0) })"
| "search_after cmp S LastNode nxt = Some (nxt \<noteq> 0)"

fun search_result :: "'k search \<Rightarrow> nat \<Rightarrow> nat \<Rightarrow> nat" where
  "search_result (GreaterOrEqual key) x nxt = nxt"
| "search_result _ x nxt = x"

text \<open>The body of the loop: \<open>Inl\<close> continues, \<open>Inr\<close> returns.\<close>

definition search_iter ::
    "('k \<Rightarrow> 'k \<Rightarrow> int) \<Rightarrow> 'k skiplist \<Rightarrow> 'k search \<Rightarrow> nat \<Rightarrow> nat \<Rightarrow> (nat \<times> nat + nat) option" where
  "search_iter cmp S q x level = do {
     _ \<leftarrow> search_assert cmp S q x;
     nxt \<leftarrow> node_next S x level;
     after \<leftarrow> search_after cmp S q nxt;
     Some (if after then Inl (nxt, level)
           else if level = 0 then Inr (search_result q x nxt) else Inl (x, level - 1)) }"

lemma findGE_loop_iter:
  "findGE_loop cmp S key x level None = (case search_iter cmp S (GreaterOrEqual key) x level of
      None \<Rightarrow> None
    | Some (Inl (x', level')) \<Rightarrow> findGE_loop cmp S key x' level' None
    | Some (Inr r) \<Rightarrow> Some (r, None))"
  by (subst findGE_loop.simps) (auto simp: search_iter_def split: bind_splits)

lemma findLT_loop_iter:
  "findLT_loop cmp S key x level = (case search_iter cmp S (LessThan key) x level of
      None \<Rightarrow> None
    | Some (Inl (x', level')) \<Rightarrow> findLT_loop cmp S key x' level'
    | Some (Inr r) \<Rightarrow> Some r)"
  by (subst findLT_loop.simps) (auto simp: search_iter_def cassert_def split: bind_splits)

lemma findLast_loop_iter:
  "findLast_loop S x level = (case search_iter cmp S LastNode x level of
      None \<Rightarrow> None
    | Some (Inl (x', level')) \<Rightarrow> findLast_loop S x' level'
    | Some (Inr r) \<Rightarrow> Some r)"
  by (subst findLast_loop.simps) (auto simp: search_iter_def split: bind_splits)

text \<open>The whole search, on a list that does not change.\<close>

fun search_run :: "('k \<Rightarrow> 'k \<Rightarrow> int) \<Rightarrow> 'k skiplist \<Rightarrow> 'k search \<Rightarrow> nat option" where
  "search_run cmp S (GreaterOrEqual key) = map_option fst (findGreateOrEqual cmp S key None)"
| "search_run cmp S (LessThan key) = findLessThan cmp S key"
| "search_run cmp S LastNode = findLast S"

section \<open>An iteration on a list of the right shape\<close>

fun search_ok :: "('k \<Rightarrow> bool) \<Rightarrow> 'k search \<Rightarrow> bool" where
  "search_ok D (GreaterOrEqual key) = D key"
| "search_ok D (LessThan key) = D key"
| "search_ok D LastNode = True"

text \<open>The nodes that a search goes past.\<close>

fun passed :: "('k \<Rightarrow> 'k \<Rightarrow> int) \<Rightarrow> 'k skiplist \<Rightarrow> 'k search \<Rightarrow> nat \<Rightarrow> bool" where
  "passed cmp S (GreaterOrEqual key) a = (cmp (keyof S a) key < 0)"
| "passed cmp S (LessThan key) a = (cmp (keyof S a) key < 0)"
| "passed cmp S LastNode a = True"

definition on_way ::
    "('k \<Rightarrow> 'k \<Rightarrow> int) \<Rightarrow> ('k \<Rightarrow> bool) \<Rightarrow> 'k skiplist \<Rightarrow> nat list \<Rightarrow> (nat \<Rightarrow> nat) \<Rightarrow> 'k search \<Rightarrow> nat \<Rightarrow> nat \<Rightarrow> bool" where
  "on_way cmp D S ns lv q x l \<longleftrightarrow> search_ok D q \<and> l < s_max_height \<and> l < lv x
     \<and> (x = sk_head S \<or> x \<in> set ns \<and> passed cmp S q x)"

text \<open>Where the iterator stands when the search \<open>q\<close> of its operation has returned \<open>r\<close>.\<close>

fun iter_pos :: "'k skiplist \<Rightarrow> 'k search \<Rightarrow> nat \<Rightarrow> nat" where
  "iter_pos S (GreaterOrEqual key) r = r"
| "iter_pos S _ r = (if r = sk_head S then 0 else r)"

lemma passed_cong: "keyof T a = keyof S a \<Longrightarrow> passed cmp T q a = passed cmp S q a"
  by (cases q) simp_all

lemma on_way_start:
  assumes "shape cmp D S ns lv" "search_ok D q" "1 \<le> h" "h \<le> s_max_height"
  shows "on_way cmp D S ns lv q (sk_head S) (h - 1)"
  using assms shapeD(6) [OF assms(1)] by (auto simp: on_way_def)

context key_order
begin

text \<open>The split of the nodes by a search, and what each of the parts answers.\<close>

lemma search_parts:
  assumes sh: "shape cmp D S ns lv" and q: "search_ok D q"
  obtains L G where "ns = L @ G" "\<And>a. a \<in> set ns \<Longrightarrow> passed cmp S q a \<longleftrightarrow> a \<in> set L"
    "\<And>a. a \<in> set L \<Longrightarrow> search_assert cmp S q a = Some () \<and> search_after cmp S q a = Some True"
    "\<And>i. search_after cmp S q (hd0 (on_level lv i G)) = Some False"
    "search_run cmp S q = Some (search_result q (last (sk_head S # L)) (hd0 G))"
proof (cases "q = LastNode")
  case True
  then show thesis
    using that [of ns "[]"] findLast_ok [OF sh] shape_nonzero [OF sh] by auto
next
  case False
  then obtain k where q': "q = GreaterOrEqual k \<or> q = LessThan k" by (cases q) auto
  then have k: "D k" using q by auto
  let ?L = "takeWhile (\<lambda>a. cmp (keyof S a) k < 0) ns" and ?G = "dropWhile (\<lambda>a. cmp (keyof S a) k < 0) ns"
  have ns: "ns = ?L @ ?G" and sp: "split_at cmp S k ?L ?G" using sorted_split [OF sh k] by blast+
  have sh': "shape cmp D S (?L @ ?G) lv" using sh by simp
  show thesis
  proof (rule that [OF ns])
    show "passed cmp S q a \<longleftrightarrow> a \<in> set ?L" if "a \<in> set ns" for a
    proof -
      have "a \<in> set ?L \<or> a \<in> set ?G" using that ns by (metis Un_iff set_append)
      then show ?thesis using sp q' by (force simp: split_at_def)
    qed
    show "search_assert cmp S q a = Some () \<and> search_after cmp S q a = Some True" if "a \<in> set ?L" for a
    proof -
      have "a \<in> set ns" "cmp (keyof S a) k < 0" using that set_takeWhileD by fastforce+
      then show ?thesis using q' shape_node_key [OF sh, of a] shape_nonzero [OF sh, of a]
        by (auto simp: keyIsAfterNode_def)
    qed
    show "search_after cmp S q (hd0 (on_level lv i ?G)) = Some False" for i
      using hd0_G [OF sh' sp, of i] q' by (auto simp: keyIsAfterNode_def)
    show "search_run cmp S q = Some (search_result q (last (sk_head S # ?L)) (hd0 ?G))"
      using q' findGE_ok [OF sh' sp, of None] findLT_ok [OF sh' sp] by auto
  qed
qed

text \<open>
  An iteration never aborts; the search moves on in key order or down, or it returns what
  the whole search returns on the list as it is at that moment.
\<close>

lemma search_iter_ok:
  assumes sh: "shape cmp D S ns lv" and w: "on_way cmp D S ns lv q x l"
  shows "case search_iter cmp S q x l of
      None \<Rightarrow> False
    | Some (Inl (x', l')) \<Rightarrow> on_way cmp D S ns lv q x' l'
        \<and> (l' < l \<and> x' = x \<or> l' = l \<and> x' \<in> set ns \<and> (x = sk_head S \<or> cmp (keyof S x) (keyof S x') < 0))
    | Some (Inr y) \<Rightarrow> search_run cmp S q = Some y \<and> (iter_pos S q y = 0 \<or> iter_pos S q y \<in> set ns)"
proof -
  have q: "search_ok D q" "l < s_max_height" "l < lv x" and x: "x = sk_head S \<or> x \<in> set ns \<and> passed cmp S q x"
    using w by (auto simp: on_way_def)
  obtain L G where ns: "ns = L @ G" and pass: "\<And>a. a \<in> set ns \<Longrightarrow> passed cmp S q a \<longleftrightarrow> a \<in> set L"
    and left: "\<And>a. a \<in> set L \<Longrightarrow> search_assert cmp S q a = Some () \<and> search_after cmp S q a = Some True"
    and right: "\<And>i. search_after cmp S q (hd0 (on_level lv i G)) = Some False"
    and run: "search_run cmp S q = Some (search_result q (last (sk_head S # L)) (hd0 G))"
    using search_parts [OF sh q(1)] by metis
  have "x \<in> set (sk_head S # L)" using x pass by auto
  then obtain pre rest where split: "sk_head S # L = pre @ x # rest" by (metis split_list)
  have as: "search_assert cmp S q x = Some ()"
  proof (cases "x = sk_head S")
    case True
    then show ?thesis by (cases q) simp_all
  next
    case False
    then show ?thesis using left [of x] \<open>x \<in> set (sk_head S # L)\<close> by simp
  qed
  from sh [unfolded ns] split q(3,2) show ?thesis
  proof (cases rule: search_step)
    case (Move y r1 r2)
    have it: "search_iter cmp S q x l = Some (Inl (y, l))"
      using Move(3,4) left [of y] as by (simp add: search_iter_def)
    have "x = sk_head S \<or> cmp (keyof S x) (keyof S y) < 0"
    proof (cases pre)
      case Nil
      then show ?thesis using split by simp
    next
      case (Cons h pre')
      then have "ns = pre' @ x # rest @ G" using split ns by simp
      then show ?thesis using shapeD(10) [OF sh] Move(1) by (auto simp: sorted_wrt_append)
    qed
    then show ?thesis using it Move(2,3) q pass [of y] ns by (auto simp: on_way_def)
  next
    case Down
    have it: "search_iter cmp S q x l = Some (if l = 0 then Inr (search_result q x (hd0 (on_level lv l G))) else Inl (x, l - 1))"
      using Down(2) right [of l] as by (simp add: search_iter_def)
    show ?thesis
    proof (cases "l = 0")
      case True
      have "x = last (sk_head S # L)" using split Down(4) True by simp
      moreover have "on_level lv l G = G" using on_level_0 [OF sh, of G] ns True by auto
      moreover have "hd0 G = 0 \<or> hd0 G \<in> set ns" using ns by (cases G) auto
      ultimately show ?thesis using it True run x by (cases q) auto
    next
      case False
      then show ?thesis using it q x by (auto simp: on_way_def)
    qed
  qed
qed

end

section \<open>How far a search is from its end\<close>

text \<open>The nodes that lie ahead of a search; a move to the right leaves one behind.\<close>

definition ahead :: "('k \<Rightarrow> 'k \<Rightarrow> int) \<Rightarrow> 'k skiplist \<Rightarrow> nat list \<Rightarrow> nat \<Rightarrow> nat set" where
  "ahead cmp S ns x = {a \<in> set ns. x = sk_head S \<or> cmp (keyof S x) (keyof S a) < 0}"

lemma card_ahead: "card (ahead cmp S ns x) \<le> length ns"
  using card_mono [of "set ns" "ahead cmp S ns x"] card_length [of ns] by (simp add: ahead_def)

context key_order
begin

lemma ahead_decreases:
  assumes sh: "shape cmp D S ns lv" and x: "x = sk_head S \<or> x \<in> set ns"
    and y: "y \<in> set ns" "x = sk_head S \<or> cmp (keyof S x) (keyof S y) < 0"
  shows "card (ahead cmp S ns y) < card (ahead cmp S ns x)"
proof -
  have nh: "y \<noteq> sk_head S" using shapeD(1) [OF sh] y(1) by auto
  note Dx = shapeD(9) [OF sh]
  have "y \<notin> ahead cmp S ns y" using nh cmp_refl [OF Dx [OF y(1)]] by (simp add: ahead_def)
  moreover have "y \<in> ahead cmp S ns x" using y by (simp add: ahead_def)
  moreover have "a \<in> ahead cmp S ns x" if "a \<in> ahead cmp S ns y" for a
  proof (cases "x = sk_head S")
    case False
    then have "x \<in> set ns" "cmp (keyof S x) (keyof S y) < 0" using x y(2) by simp_all
    moreover have "a \<in> set ns" "cmp (keyof S y) (keyof S a) < 0" using that nh by (auto simp: ahead_def)
    ultimately show ?thesis using cmp_less_le_trans [OF Dx Dx Dx, of x y a] y(1) by (simp add: ahead_def)
  qed (use that in \<open>simp add: ahead_def\<close>)
  ultimately have "ahead cmp S ns y \<subset> ahead cmp S ns x" by blast
  then show ?thesis by (rule psubset_card_mono [rotated]) (simp add: ahead_def)
qed

end

section \<open>The bottom level\<close>

text \<open>
  One link of the bottom level, the load of the iterator's \<open>next\<close>: it leads to the first node
  whose key is after the key of the node, so that no stored key is skipped.
\<close>

lemma next_reachable:
  assumes sh: "shape cmp D S ns lv" and x: "x \<in> set (sk_head S # ns)" "l < lv x" "l < s_max_height"
  shows "\<exists>y. node_next S x l = Some y \<and> (y = 0 \<or> y \<in> set ns)"
proof -
  have sh': "shape cmp D S (ns @ []) lv" using sh by simp
  obtain pre rest where "sk_head S # ns = pre @ x # rest" using x(1) by (metis split_list)
  from sh' this x(2,3) show ?thesis by (cases rule: search_step) auto
qed

context key_order
begin

lemma bottom_next:
  assumes sh: "shape cmp D S ns lv" and x: "x = sk_head S \<or> x \<in> set ns"
  obtains y where "node_next S x 0 = Some y" "y = 0 \<or> y \<in> set ns"
    "\<And>a. a \<in> set ns \<Longrightarrow> x = sk_head S \<or> cmp (keyof S x) (keyof S a) < 0 \<Longrightarrow>
       y \<noteq> 0 \<and> cmp (keyof S y) (keyof S a) \<le> 0"
    "y \<noteq> 0 \<Longrightarrow> x = sk_head S \<or> cmp (keyof S x) (keyof S y) < 0"
proof -
  obtain pre post where split: "sk_head S # ns = pre @ x # post" using x by (metis list.set_intros split_list)
  have "on_level lv 0 (sk_head S # ns) = sk_head S # ns" using on_level_0 [OF sh order_refl] shapeD(6) [OF sh] by simp
  then have path: "path S 0 (pre @ x # post)" using shapeD(11) [OF sh, of 0] split by (metis zero_less_numeral)
  have nxt: "node_next S x 0 = Some (hd0 post)" using path_next [OF path_suffix [OF path]] .
  have sub: "set post \<subseteq> set ns" using split by (cases pre) auto
  have sorted: "sorted_wrt (\<lambda>a b. cmp (keyof S a) (keyof S b) < 0) post"
    "x \<noteq> sk_head S \<Longrightarrow> \<forall>a \<in> set post. cmp (keyof S x) (keyof S a) < 0"
    "x \<noteq> sk_head S \<Longrightarrow> \<forall>a \<in> set (tl pre). cmp (keyof S a) (keyof S x) < 0"
    using split shapeD(10) [OF sh] by (cases pre; auto simp: sorted_wrt_append)+
  have "a \<in> set post" if a: "a \<in> set ns" "x = sk_head S \<or> cmp (keyof S x) (keyof S a) < 0" for a
  proof (cases pre)
    case Nil
    then show ?thesis using split a(1) by simp
  next
    case (Cons h pre')
    then have nx: "x \<noteq> sk_head S" using split shapeD(1) [OF sh] by auto
    have ns: "ns = pre' @ x # post" using split Cons by simp
    have "D (keyof S a)" "D (keyof S x)" using shapeD(9) [OF sh] a(1) ns by auto
    then have "a \<notin> set pre'" "a \<noteq> x"
      using sorted(3) [OF nx] a(2) nx Cons cmp_flip cmp_refl by force+
    then show ?thesis using a(1) ns by auto
  qed
  moreover have "hd0 post \<noteq> 0 \<and> cmp (keyof S (hd0 post)) (keyof S a) \<le> 0" if a: "a \<in> set post" for a
  proof (cases post)
    case (Cons p ps)
    have "p \<in> set ns" using sub Cons by simp
    then show ?thesis using sorted(1) a Cons shape_nonzero [OF sh, of p] cmp_refl [OF shapeD(9) [OF sh, of p]]
      by auto
  qed (use a in simp)
  moreover have "hd0 post = 0 \<or> hd0 post \<in> set post" by (cases post) auto
  ultimately show thesis using that [OF nxt] sub sorted(2) by blast
qed

end

section \<open>What a search may not miss\<close>

text \<open>
  The node \<open>r\<close> that a search returns is, seen from its key, at least as near as \<open>j\<close>: \<open>seek\<close>
  returns no key after \<open>j\<close> when \<open>j\<close> is not before the target, \<open>prev\<close> and \<open>seekToLast\<close> none before
  \<open>j\<close> when \<open>j\<close> is before the key where they start.
\<close>

fun not_past :: "('k \<Rightarrow> 'k \<Rightarrow> int) \<Rightarrow> 'k skiplist \<Rightarrow> 'k search \<Rightarrow> 'k \<Rightarrow> nat \<Rightarrow> bool" where
  "not_past cmp S (GreaterOrEqual k) j r = (cmp k j \<le> 0 \<longrightarrow>
     r \<noteq> 0 \<and> (\<exists>k'. node_key S r = Some k' \<and> cmp k k' \<le> 0 \<and> cmp k' j \<le> 0))"
| "not_past cmp S (LessThan k) j r = (cmp j k < 0 \<longrightarrow>
     r \<noteq> sk_head S \<and> (\<exists>k'. node_key S r = Some k' \<and> cmp j k' \<le> 0 \<and> cmp k' k < 0))"
| "not_past cmp S LastNode j r = (r \<noteq> sk_head S \<and> (\<exists>k'. node_key S r = Some k' \<and> cmp j k' \<le> 0))"

context key_order
begin

lemma before_last:
  assumes sh: "shape cmp D S (L @ G) lv" and a: "a \<in> set L"
  shows "last (sk_head S # L) \<in> set L" "cmp (keyof S a) (keyof S (last (sk_head S # L))) \<le> 0"
proof -
  obtain L' b where L: "L = L' @ [b]" using a by (cases L rule: rev_cases) auto
  then show "last (sk_head S # L) \<in> set L" by simp
  show "cmp (keyof S a) (keyof S (last (sk_head S # L))) \<le> 0"
    using shapeD(10) [OF sh] a cmp_refl [OF shapeD(9) [OF sh, of b]] unfolding L by (auto simp: sorted_wrt_append)
qed

lemma after_first:
  assumes sh: "shape cmp D S (L @ G) lv" and a: "a \<in> set G"
  shows "hd0 G \<in> set G" "cmp (keyof S (hd0 G)) (keyof S a) \<le> 0"
proof -
  obtain g G' where G: "G = g # G'" using a by (cases G) auto
  then show "hd0 G \<in> set G" by simp
  show "cmp (keyof S (hd0 G)) (keyof S a) \<le> 0"
    using shapeD(10) [OF sh] a cmp_refl [OF shapeD(9) [OF sh, of g]] unfolding G by (auto simp: sorted_wrt_append)
qed

lemma search_not_past:
  assumes sh: "shape cmp D S ns lv" and q: "search_ok D q" and run: "search_run cmp S q = Some r"
    and j: "D j" "a \<in> set ns" "cmp j (keyof S a) = 0"
  shows "not_past cmp S q j r"
proof -
  obtain L G where ns: "ns = L @ G" and pass: "\<And>a. a \<in> set ns \<Longrightarrow> passed cmp S q a \<longleftrightarrow> a \<in> set L"
    and "search_run cmp S q = Some (search_result q (last (sk_head S # L)) (hd0 G))"
    using search_parts [OF sh q] by metis
  then have r: "r = search_result q (last (sk_head S # L)) (hd0 G)" using run by simp
  note sh' = sh [unfolded ns]
  have Da: "D (keyof S a)" using shapeD(9) [OF sh j(2)] .
  have za: "cmp (keyof S a) j = 0" using cmp_zero [OF j(1) Da] j(3) by simp
  have node: "b \<in> set ns \<Longrightarrow> b \<noteq> 0 \<and> b \<noteq> sk_head S \<and> node_key S b = Some (keyof S b) \<and> D (keyof S b)" for b
    using shape_nonzero [OF sh, of b] shape_node_key [OF sh, of b] shapeD(9) [OF sh, of b] shapeD(1) [OF sh] by auto
  have last: "r \<in> set ns \<and> cmp j (keyof S r) \<le> 0 \<and> passed cmp S q r" if "a \<in> set L" "r = last (sk_head S # L)"
    using before_last [OF sh' that(1)] that(2) ns pass cmp_trans [OF j(1) Da _ _ before_last(2) [OF sh' that(1)]] j(3) node
    by auto
  show ?thesis
  proof (cases q)
    case (GreaterOrEqual k)
    then have k: "D k" using q by simp
    show ?thesis
    proof (cases "cmp k j \<le> 0")
      case True
      then have "cmp k (keyof S a) \<le> 0" using cmp_trans [OF k j(1) Da] j(3) by simp
      then have "a \<in> set G" using pass [OF j(2)] j(2) ns GreaterOrEqual cmp_flip [OF k Da] by auto
      note f = after_first [OF sh' this]
      have r: "r = hd0 G" "r \<in> set ns" using r GreaterOrEqual f(1) ns by auto
      have "distinct ns" using shapeD(1) [OF sh] by simp
      then have "r \<notin> set L" using f(1) r(1) ns by auto
      then have "cmp k (keyof S r) \<le> 0" using pass [OF r(2)] GreaterOrEqual cmp_flip [OF k] node [OF r(2)] by auto
      moreover have "cmp (keyof S r) j \<le> 0" using cmp_trans [OF _ Da j(1), of "keyof S r"] f(2) za node [OF r(2)] r(1) by simp
      ultimately show ?thesis using GreaterOrEqual node [OF r(2)] by simp
    qed (use GreaterOrEqual in simp)
  next
    case (LessThan k)
    then have k: "D k" using q by simp
    show ?thesis
    proof (cases "cmp j k < 0")
      case True
      then have "cmp (keyof S a) k < 0" using cmp_le_less_trans [OF Da j(1) k] za by simp
      then show ?thesis using last r pass [OF j(2)] LessThan node by auto
    qed (use LessThan in simp)
  next
    case LastNode
    then show ?thesis using last r pass [OF j(2)] node by auto
  qed
qed

end

section \<open>Scans\<close>

text \<open>
  A scan starts with \<open>seekToFirst\<close>, or with \<open>seek\<close> for a key \<open>k0\<close>, and goes on with \<open>next\<close> as
  long as the iterator is valid. It has met the nodes \<open>ys\<close> and stands at \<open>x\<close>: the nodes are in
  key order, none is before the start, and each of the keys \<open>K\<close> was met or lies ahead.
\<close>

fun not_before :: "('k \<Rightarrow> 'k \<Rightarrow> int) \<Rightarrow> 'k option \<Rightarrow> 'k \<Rightarrow> bool" where
  "not_before cmp None k = True"
| "not_before cmp (Some k0) k = (cmp k0 k \<le> 0)"

definition scan_ok ::
    "('k \<Rightarrow> 'k \<Rightarrow> int) \<Rightarrow> 'k skiplist \<Rightarrow> nat list \<Rightarrow> 'k option \<Rightarrow> ('k \<Rightarrow> bool) \<Rightarrow> nat list \<Rightarrow> nat \<Rightarrow> bool" where
  "scan_ok cmp S ns st K ys x \<longleftrightarrow> set ys \<subseteq> set ns \<and> (x = 0 \<or> ys \<noteq> [] \<and> x = last ys)
     \<and> sorted_wrt (\<lambda>a b. cmp (keyof S a) (keyof S b) < 0) ys
     \<and> (\<forall>y \<in> set ys. not_before cmp st (keyof S y))
     \<and> (\<forall>k. K k \<longrightarrow> (\<exists>y \<in> set ys. cmp k (keyof S y) = 0) \<or> x \<noteq> 0 \<and> cmp (keyof S x) k < 0)"

abbreviation met :: "nat list \<Rightarrow> nat \<Rightarrow> nat list" where
  "met ys y \<equiv> (if y = 0 then ys else ys @ [y])"

lemma scan_ok_cong:
  assumes "scan_ok cmp S ns st K ys x" "set ns \<subseteq> set ns'" "\<And>a. a \<in> set ns \<Longrightarrow> keyof T a = keyof S a"
  shows "scan_ok cmp T ns' st K ys x"
proof -
  have eq: "keyof T y = keyof S y" if "y \<in> set ys" for y using assms(1,3) that by (auto simp: scan_ok_def)
  have "sorted_wrt (\<lambda>a b. cmp (keyof T a) (keyof T b) < 0) ys"
    using assms(1) eq by (auto simp: scan_ok_def elim!: sorted_wrt_mono_rel [rotated])
  moreover have "keyof T x = keyof S x" if "x \<noteq> 0" using assms(1) that eq by (auto simp: scan_ok_def)
  moreover have "set ys \<subseteq> set ns'" using assms(1,2) by (auto simp: scan_ok_def)
  ultimately show ?thesis using assms(1) eq unfolding scan_ok_def by metis
qed

context key_order
begin

lemma scan_meets:
  assumes sh: "shape cmp D S ns lv" and k: "D k" "a \<in> set ns" "cmp k (keyof S a) = 0"
    and y: "y \<in> set ns" "cmp (keyof S y) (keyof S a) \<le> 0"
  shows "cmp k (keyof S y) = 0 \<or> cmp (keyof S y) k < 0"
proof -
  note D = shapeD(9) [OF sh y(1)] shapeD(9) [OF sh k(2)]
  have "cmp (keyof S a) k \<le> 0" using cmp_zero [OF k(1) D(2)] k(3) by simp
  then have "cmp (keyof S y) k \<le> 0" using cmp_trans [OF D k(1) y(2)] by simp
  then show ?thesis using cmp_zero [OF k(1) D(1)] by linarith
qed

lemma scan_ok_first:
  assumes sh: "shape cmp D S ns lv" and y: "node_next S (sk_head S) 0 = Some y"
    and K: "\<And>k. K k \<Longrightarrow> D k \<and> (\<exists>a \<in> set ns. cmp k (keyof S a) = 0)"
  shows "scan_ok cmp S ns None K (met [] y) y"
proof -
  obtain y' where b: "node_next S (sk_head S) 0 = Some y'" "y' = 0 \<or> y' \<in> set ns"
    "\<And>a. a \<in> set ns \<Longrightarrow> y' \<noteq> 0 \<and> cmp (keyof S y') (keyof S a) \<le> 0"
    using bottom_next [OF sh disjI1 [OF refl]] by metis
  have eq: "y' = y" using b(1) y by simp
  have "y \<noteq> 0 \<and> (cmp k (keyof S y) = 0 \<or> cmp (keyof S y) k < 0)" if Kk: "K k" for k
  proof -
    obtain a where a: "D k" "a \<in> set ns" "cmp k (keyof S a) = 0" using K [OF Kk] by blast
    then show ?thesis using scan_meets [OF sh a, of y] b(2,3) eq by auto
  qed
  then show ?thesis using b(2) eq by (auto simp: scan_ok_def)
qed

lemma scan_ok_seek:
  assumes sh: "shape cmp D S ns lv" and k0: "D k0" and y: "search_run cmp S (GreaterOrEqual k0) = Some y"
    and K: "\<And>k. K k \<Longrightarrow> D k \<and> (\<exists>a \<in> set ns. cmp k (keyof S a) = 0) \<and> not_before cmp (Some k0) k"
  shows "scan_ok cmp S ns (Some k0) K (met [] y) y"
proof -
  obtain L G where ns: "ns = L @ G" and sp: "split_at cmp S k0 L G" using sorted_split [OF sh k0] by blast
  have y: "y = hd0 G" using findGE_ok [OF sh [unfolded ns] sp, of None] y by simp
  have "y \<noteq> 0 \<and> (cmp k (keyof S y) = 0 \<or> cmp (keyof S y) k < 0)" if Kk: "K k" for k
  proof -
    obtain a where a: "D k" "a \<in> set ns" "cmp k (keyof S a) = 0" "cmp k0 k \<le> 0" using K [OF Kk] by auto
    have Da: "D (keyof S a)" using shapeD(9) [OF sh a(2)] .
    have "cmp k0 (keyof S a) \<le> 0" using cmp_trans [OF k0 a(1) Da a(4)] a(3) by simp
    then have "a \<in> set G" using a(2) ns sp cmp_flip [OF k0 Da] by (force simp: split_at_def)
    then obtain g G' where G: "G = g # G'" by (cases G) auto
    have g: "g \<in> set ns" "g \<noteq> 0" using shape_nonzero [OF sh, of g] ns G by simp_all
    have "cmp (keyof S g) (keyof S a) \<le> 0" using shapeD(10) [OF sh] \<open>a \<in> set G\<close> cmp_refl [OF shapeD(9) [OF sh g(1)]]
      unfolding ns G by (auto simp: sorted_wrt_append)
    then show ?thesis using scan_meets [OF sh a(1-3) g(1)] y G g(2) by simp
  qed
  moreover have "cmp k0 (keyof S y) \<le> 0" "y \<in> set ns" if "y \<noteq> 0"
  proof -
    have "y \<in> set G" using that y by (cases G) auto
    then show "y \<in> set ns" "cmp k0 (keyof S y) \<le> 0"
      using ns sp cmp_flip [OF k0 shapeD(9) [OF sh, of y]] by (force simp: split_at_def)+
  qed
  ultimately show ?thesis by (auto simp: scan_ok_def)
qed

lemma scan_ok_next:
  assumes sh: "shape cmp D S ns lv" and ok: "scan_ok cmp S ns st K ys x" and x: "x \<noteq> 0"
    and st: "\<And>k0. st = Some k0 \<Longrightarrow> D k0"
    and y: "node_next S x 0 = Some y"
    and K: "\<And>k. K k \<Longrightarrow> D k \<and> (\<exists>a \<in> set ns. cmp k (keyof S a) = 0)"
  shows "scan_ok cmp S ns st K (met ys y) y"
proof -
  have ys: "ys = butlast ys @ [x]" and sorted: "sorted_wrt (\<lambda>a b. cmp (keyof S a) (keyof S b) < 0) ys"
    and sub: "set ys \<subseteq> set ns" using ok x by (auto simp: scan_ok_def)
  have xn: "x \<in> set ns" using ok x by (auto simp: scan_ok_def)
  have nh: "x \<noteq> sk_head S" using xn shapeD(1) [OF sh] by auto
  obtain y' where b: "node_next S x 0 = Some y'" "y' = 0 \<or> y' \<in> set ns"
    "\<And>a. a \<in> set ns \<Longrightarrow> cmp (keyof S x) (keyof S a) < 0 \<Longrightarrow> y' \<noteq> 0 \<and> cmp (keyof S y') (keyof S a) \<le> 0"
    "y' \<noteq> 0 \<Longrightarrow> cmp (keyof S x) (keyof S y') < 0"
    using bottom_next [OF sh disjI2 [OF xn]] nh by metis
  have eq: "y' = y" using b(1) y by simp
  have "sorted_wrt (\<lambda>a b. cmp (keyof S a) (keyof S b) < 0) (butlast ys @ [x])" using sorted ys by metis
  then have upto: "cmp (keyof S z) (keyof S x) \<le> 0" if "z \<in> set ys" for z
    using that cmp_refl [OF shapeD(9) [OF sh xn]] by (subst (asm) ys) (auto simp: sorted_wrt_append)
  have "cmp (keyof S z) (keyof S y) < 0" if z: "z \<in> set ys" "y \<noteq> 0" for z
  proof -
    have "y \<in> set ns" "cmp (keyof S x) (keyof S y) < 0" using b(2,4) eq z(2) by auto
    then show ?thesis using cmp_le_less_trans [OF _ _ _ upto [OF z(1)]] shapeD(9) [OF sh] sub z(1) xn by blast
  qed
  then have "sorted_wrt (\<lambda>a b. cmp (keyof S a) (keyof S b) < 0) (met ys y)"
    using sorted by (simp add: sorted_wrt_append)
  moreover have "(\<exists>z \<in> set (met ys y). cmp k (keyof S z) = 0) \<or> y \<noteq> 0 \<and> cmp (keyof S y) k < 0"
    if Kk: "K k" for k
  proof (cases "\<exists>z \<in> set ys. cmp k (keyof S z) = 0")
    case False
    then have lt: "cmp (keyof S x) k < 0" using ok Kk by (auto simp: scan_ok_def)
    obtain a where a: "D k" "a \<in> set ns" "cmp k (keyof S a) = 0" using K [OF Kk] by blast
    have "cmp (keyof S x) (keyof S a) < 0"
      using cmp_less_le_trans [OF shapeD(9) [OF sh xn] a(1) shapeD(9) [OF sh a(2)] lt] a(3) by simp
    from b(3) [OF a(2) this] show ?thesis using scan_meets [OF sh a, of y] b(2) eq by auto
  qed auto
  moreover have "not_before cmp st (keyof S y)" if "y \<noteq> 0"
  proof (cases st)
    case (Some k0)
    have y: "y \<in> set ns" "cmp (keyof S x) (keyof S y) \<le> 0" using b(2,4) eq that by auto
    have "cmp k0 (keyof S x) \<le> 0" using ok x Some by (auto simp: scan_ok_def)
    then show ?thesis using cmp_trans [OF st [OF Some] shapeD(9) [OF sh xn] shapeD(9) [OF sh y(1)] _ y(2)] Some by simp
  qed simp
  ultimately show ?thesis using sub b(2) eq ok unfolding scan_ok_def by auto
qed

end

end
