(* ===== verification/KV_SkipConc.thy ===== *)
theory KV_SkipConc
  imports KV_SkipSearch
begin

text \<open>
  The skip list of src/database/skiplist.h under one writer and any number of readers, the
  use that its atomic links are for: \<open>insert\<close> publishes the new node level by level, from
  the bottom, while readers seek, scan and look keys up without a lock.

  Every access of a reader to a shared link, and every write of the writer to a shared link
  or to \<open>max_height_\<close>, is one step of its own, and the steps of all threads interleave freely.
  Here a step sees the last value written; the theory KV_SkipMem drops this and lets loads
  return older values. The search of the writer itself is one step, since only the writer
  writes.
\<close>

section \<open>Threads and steps\<close>

datatype 'k writer =
    WIdle
  | WNew 'k prevs nat          \<comment> \<open>searched, height drawn\<close>
  | WAlloc 'k prevs nat        \<comment> \<open>\<open>max_height_\<close> raised if need be\<close>
  | WLink nat prevs nat nat    \<comment> \<open>node, predecessors, levels linked, height\<close>
  | WMid nat prevs nat nat     \<comment> \<open>own link of the level set, node not yet published on it\<close>

datatype 'k reader =
    RAt nat                    \<comment> \<open>no operation under way, the iterator stands here (0: invalid)\<close>
  | RRun "'k search" nat nat   \<comment> \<open>search, current node, level\<close>

primrec at_rest :: "'k reader \<Rightarrow> bool" where
  "at_rest (RAt x) = True"
| "at_rest (RRun q x l) = False"

lemma at_rest_iff: "at_rest r \<longleftrightarrow> (\<exists>x. r = RAt x)"
  by (cases r) simp_all

abbreviation RIdle :: "'k reader" where
  "RIdle \<equiv> RAt 0"

text \<open>The steps of \<open>insert\<close>: one for each of its accesses to memory that readers share.\<close>

inductive insert_step ::
    "os \<Rightarrow> nat \<Rightarrow> ('k \<Rightarrow> 'k \<Rightarrow> int) \<Rightarrow> ('k \<Rightarrow> bool)
      \<Rightarrow> 'k skiplist \<Rightarrow> 'k writer \<Rightarrow> 'k skiplist \<Rightarrow> 'k writer \<Rightarrow> bool"
  for os :: os and nsz :: nat and cmp :: "'k \<Rightarrow> 'k \<Rightarrow> int" and D :: "'k \<Rightarrow> bool"
where
  w_find: "D key \<Longrightarrow>
     findGreateOrEqual cmp S key (Some (replicate s_max_height None)) = Some (x, Some prev) \<Longrightarrow>
     x = 0 \<or> (\<exists>k. node_key S x = Some k \<and> \<not> key_equal cmp key k) \<Longrightarrow>
     randomHeight S = Some (h, T) \<Longrightarrow>
     insert_step os nsz cmp D S WIdle T (WNew key prev h)"
| w_raise: "h > getMaxHeight S \<Longrightarrow>
     fill_prev prev (sk_head S) (getMaxHeight S) h = Some prev' \<Longrightarrow>
     insert_step os nsz cmp D S (WNew key prev h) (S\<lparr>sk_max_height := h\<rparr>) (WAlloc key prev' h)"
| w_keep: "\<not> h > getMaxHeight S \<Longrightarrow>
     insert_step os nsz cmp D S (WNew key prev h) S (WAlloc key prev h)"
| w_alloc: "newNode os nsz S key h = Some (x, T) \<Longrightarrow>
     insert_step os nsz cmp D S (WAlloc key prev h) T (WLink x prev 0 h)"
| w_next: "j < h \<Longrightarrow> load_prev prev j = Some p \<Longrightarrow>
     noBarrierNext S p j = Some n \<Longrightarrow> noBarrierSetNext S x j n = Some T \<Longrightarrow>
     insert_step os nsz cmp D S (WLink x prev j h) T (WMid x prev j h)"
| w_publish: "load_prev prev j = Some p \<Longrightarrow> setNext S p j x = Some T \<Longrightarrow>
     insert_step os nsz cmp D S (WMid x prev j h) T (WLink x prev (j + 1) h)"
| w_done: "insert_step os nsz cmp D S (WLink x prev h h) S WIdle"

record 'k conc =
  cs :: "'k skiplist"
  cw :: "'k writer"
  cr :: "nat \<Rightarrow> 'k reader"

inductive conc_step ::
    "os \<Rightarrow> nat \<Rightarrow> ('k \<Rightarrow> 'k \<Rightarrow> int) \<Rightarrow> ('k \<Rightarrow> bool) \<Rightarrow> 'k conc \<Rightarrow> 'k conc \<Rightarrow> bool"
  for os :: os and nsz :: nat and cmp :: "'k \<Rightarrow> 'k \<Rightarrow> int" and D :: "'k \<Rightarrow> bool"
where
  c_write: "insert_step os nsz cmp D (cs C) (cw C) S w \<Longrightarrow>
     conc_step os nsz cmp D C (C\<lparr>cs := S, cw := w\<rparr>)"
| r_start: "at_rest (cr C i) \<Longrightarrow> search_ok D q \<Longrightarrow>
     conc_step os nsz cmp D C
       (C\<lparr>cr := (cr C)(i := RRun q (sk_head (cs C)) (getMaxHeight (cs C) - 1))\<rparr>)"
| r_move: "cr C i = RRun q x level \<Longrightarrow> search_iter cmp (cs C) q x level = Some (Inl (x', level')) \<Longrightarrow>
     conc_step os nsz cmp D C (C\<lparr>cr := (cr C)(i := RRun q x' level')\<rparr>)"
| r_done: "cr C i = RRun q x level \<Longrightarrow> search_iter cmp (cs C) q x level = Some (Inr r) \<Longrightarrow>
     conc_step os nsz cmp D C (C\<lparr>cr := (cr C)(i := RAt (iter_pos (cs C) q r))\<rparr>)"
| r_next: "cr C i = RAt x \<Longrightarrow> x \<noteq> 0 \<Longrightarrow> node_next (cs C) x 0 = Some y \<Longrightarrow>
     conc_step os nsz cmp D C (C\<lparr>cr := (cr C)(i := RAt y)\<rparr>)"
| r_first: "at_rest (cr C i) \<Longrightarrow> node_next (cs C) (sk_head (cs C)) 0 = Some y \<Longrightarrow>
     conc_step os nsz cmp D C (C\<lparr>cr := (cr C)(i := RAt y)\<rparr>)"

text \<open>
  A reader that starts one of the three searches is any of the operations \<open>contains\<close>,
  \<open>seek\<close>, \<open>prev\<close> (whose search is for the key of its node) and \<open>seekToLast\<close>; \<open>next\<close> and
  \<open>seekToFirst\<close> are one load each.
\<close>

section \<open>The invariant\<close>

text \<open>What a reader knows: its iterator stands at a node of the list; a search stands at the
  head or at a node before its key, on one of the levels that the node is linked on.\<close>

fun reader_ok ::
    "('k \<Rightarrow> 'k \<Rightarrow> int) \<Rightarrow> ('k \<Rightarrow> bool) \<Rightarrow> 'k skiplist \<Rightarrow> nat list \<Rightarrow> (nat \<Rightarrow> nat) \<Rightarrow> 'k reader \<Rightarrow> bool" where
  "reader_ok cmp D S ns lv (RRun q x l) = on_way cmp D S ns lv q x l"
| "reader_ok cmp D S ns lv (RAt x) = (x = 0 \<or> x \<in> set ns)"

definition place_for ::
    "('k \<Rightarrow> 'k \<Rightarrow> int) \<Rightarrow> 'k skiplist \<Rightarrow> 'k \<Rightarrow> nat list \<Rightarrow> nat list \<Rightarrow> bool" where
  "place_for cmp S k L G \<longleftrightarrow> split_at cmp S k L G \<and> (\<forall>a \<in> set (L @ G). cmp k (keyof S a) \<noteq> 0)"

text \<open>A node \<open>x\<close> of height \<open>h\<close> that is linked on the levels below \<open>j\<close>.\<close>

definition linking ::
    "('k \<Rightarrow> 'k \<Rightarrow> int) \<Rightarrow> ('k \<Rightarrow> bool) \<Rightarrow> 'k skiplist \<Rightarrow> nat list \<Rightarrow> nat list \<Rightarrow> nat \<Rightarrow> prevs \<Rightarrow> nat \<Rightarrow> nat \<Rightarrow> bool" where
  "linking cmp D S L G x prev j h \<longleftrightarrow>
     x \<notin> set (sk_head S # L @ G) \<and> x \<noteq> 0 \<and> D (keyof S x)
   \<and> dom (sk_nodes S) = set (sk_head S # L @ x # G)
   \<and> place_for cmp S (keyof S x) L G \<and> height_of S x = h \<and> j \<le> h \<and> 1 \<le> h
   \<and> h \<le> sk_max_height S
   \<and> (\<forall>i < h. load_prev prev i = Some (pred S (height_of S) L i))"

fun writer_ok ::
    "('k \<Rightarrow> 'k \<Rightarrow> int) \<Rightarrow> ('k \<Rightarrow> bool) \<Rightarrow> 'k skiplist \<Rightarrow> nat list \<Rightarrow> (nat \<Rightarrow> nat) \<Rightarrow> 'k writer \<Rightarrow> bool" where
  "writer_ok cmp D S ns lv WIdle = (dom (sk_nodes S) = set (sk_head S # ns) \<and> lv = height_of S)"
| "writer_ok cmp D S ns lv (WNew k prev h) = (dom (sk_nodes S) = set (sk_head S # ns) \<and> lv = height_of S
     \<and> D k \<and> 1 \<le> h \<and> h \<le> s_max_height \<and> (\<exists>L G. ns = L @ G \<and> place_for cmp S k L G
       \<and> prev = fill_pred S (height_of S) L (sk_max_height S) (replicate s_max_height None)))"
| "writer_ok cmp D S ns lv (WAlloc k prev h) = (dom (sk_nodes S) = set (sk_head S # ns) \<and> lv = height_of S
     \<and> D k \<and> 1 \<le> h \<and> h \<le> sk_max_height S \<and> (\<exists>L G. ns = L @ G \<and> place_for cmp S k L G
       \<and> (\<forall>i < h. load_prev prev i = Some (pred S (height_of S) L i))))"
| "writer_ok cmp D S ns lv (WLink x prev j h) = (lv = (height_of S)(x := j)
     \<and> (\<exists>L G. ns = (if j = 0 then L @ G else L @ x # G) \<and> linking cmp D S L G x prev j h))"
| "writer_ok cmp D S ns lv (WMid x prev j h) = (lv = (height_of S)(x := j)
     \<and> (\<exists>L G. ns = (if j = 0 then L @ G else L @ x # G) \<and> linking cmp D S L G x prev j h
       \<and> j < h \<and> node_next S x j = Some (hd0 (on_level lv j G))))"

definition list_inv ::
    "os \<Rightarrow> nat \<Rightarrow> ('k \<Rightarrow> 'k \<Rightarrow> int) \<Rightarrow> ('k \<Rightarrow> bool) \<Rightarrow> 'k skiplist \<Rightarrow> 'k writer \<Rightarrow> nat list \<Rightarrow> (nat \<Rightarrow> nat) \<Rightarrow> bool" where
  "list_inv os nsz cmp D S w ns lv \<longleftrightarrow> shape cmp D S ns lv
     \<and> random_ok (sk_rnd S) \<and> sk_mem os nsz (sk_arena S) (sk_nodes S) \<and> writer_ok cmp D S ns lv w"

lemma list_invD:
  assumes "list_inv os nsz cmp D S w ns lv"
  shows "shape cmp D S ns lv" "random_ok (sk_rnd S)" "sk_mem os nsz (sk_arena S) (sk_nodes S)"
    "writer_ok cmp D S ns lv w"
  using assms by (simp_all only: list_inv_def)

definition conc_inv ::
    "os \<Rightarrow> nat \<Rightarrow> ('k \<Rightarrow> 'k \<Rightarrow> int) \<Rightarrow> ('k \<Rightarrow> bool) \<Rightarrow> 'k conc \<Rightarrow> nat list \<Rightarrow> (nat \<Rightarrow> nat) \<Rightarrow> bool" where
  "conc_inv os nsz cmp D C ns lv \<longleftrightarrow> list_inv os nsz cmp D (cs C) (cw C) ns lv
     \<and> (\<forall>i. reader_ok cmp D (cs C) ns lv (cr C i))"

section \<open>Steps keep the invariant\<close>

text \<open>The list grows: no node disappears, changes its key or loses a level.\<close>

definition grows ::
    "'k skiplist \<Rightarrow> nat list \<Rightarrow> (nat \<Rightarrow> nat) \<Rightarrow> 'k skiplist \<Rightarrow> nat list \<Rightarrow> (nat \<Rightarrow> nat) \<Rightarrow> bool" where
  "grows S ns lv T ns' lv' \<longleftrightarrow> set ns \<subseteq> set ns' \<and> (\<forall>a \<in> set ns. keyof T a = keyof S a)
     \<and> sk_head T = sk_head S \<and> (\<forall>a \<in> set (sk_head S # ns). lv a \<le> lv' a)"

lemma grows_refl: "grows S ns lv S ns lv"
  by (simp add: grows_def)

lemma grows_trans:
  assumes "grows S ns lv T ns' lv'" "grows T ns' lv' U ns'' lv''"
  shows "grows S ns lv U ns'' lv''"
proof -
  have "lv a \<le> lv'' a" if a: "a \<in> set (sk_head S # ns)" for a
  proof -
    have "lv a \<le> lv' a" "a \<in> set (sk_head T # ns')" using assms(1) a by (auto simp: grows_def)
    then show ?thesis using assms(2) unfolding grows_def by (metis order_trans)
  qed
  then show ?thesis using assms by (auto simp: grows_def subset_iff)
qed

lemma reader_ok_mono:
  assumes "reader_ok cmp D S ns lv r" "grows S ns lv T ns' lv'"
  shows "reader_ok cmp D T ns' lv' r"
proof (cases r)
  case (RRun q x l)
  then have w: "on_way cmp D S ns lv q x l" using assms(1) by simp
  then have "x \<in> set (sk_head S # ns)" by (auto simp: on_way_def)
  then have "lv x \<le> lv' x" using assms(2) unfolding grows_def by blast
  then show ?thesis
    using w RRun assms(2) passed_cong [of T x S cmp q] by (auto simp: on_way_def grows_def)
qed (use assms in \<open>auto simp: grows_def\<close>)

lemma shape_mono:
  assumes sh: "shape cmp D S ns lv"
    and "sk_head T = sk_head S" "sk_max_height S \<le> sk_max_height T" "sk_max_height T \<le> s_max_height"
    and eq: "\<And>a. a \<in> set (sk_head S # ns) \<Longrightarrow> lv' a = lv a \<and> keyof T a = keyof S a
      \<and> (\<forall>i < lv a. node_next T a i = node_next S a i)"
    and "set (sk_head S # ns) \<subseteq> dom (sk_nodes T)"
  shows "shape cmp D T ns lv'"
proof -
  have lev: "on_level lv' i (sk_head S # ns) = on_level lv i (sk_head S # ns)" for i
    by (rule filter_cong) (use eq in auto)
  have "path T i (on_level lv' i (sk_head T # ns))" if "i < s_max_height" for i
  proof -
    have "path T i (on_level lv i (sk_head S # ns)) = path S i (on_level lv i (sk_head S # ns))"
    proof (rule path_cong)
      fix a assume "a \<in> set (on_level lv i (sk_head S # ns))"
      then have "a \<in> {a \<in> set (sk_head S # ns). i < lv a}" by (simp only: set_filter)
      then show "node_next T a i = node_next S a i" using eq by blast
    qed
    then show ?thesis using shapeD(11) [OF sh that] unfolding assms(2) lev by simp
  qed
  moreover have "sorted_wrt (\<lambda>a b. cmp (keyof T a) (keyof T b) < 0) ns"
    using shapeD(10) [OF sh] by (rule sorted_wrt_mono_rel [rotated]) (use eq in simp)
  ultimately show ?thesis
    using shapeD(1-9) [OF sh] assms(2-4,6) eq unfolding shape_def by (auto intro: order_trans)
qed

lemma split_at_cong: "(\<And>a. a \<in> set (L @ G) \<Longrightarrow> keyof T a = keyof S a) \<Longrightarrow> split_at cmp T k L G = split_at cmp S k L G"
  by (auto simp: split_at_def)

lemma place_for_cong: "(\<And>a. a \<in> set (L @ G) \<Longrightarrow> keyof T a = keyof S a) \<Longrightarrow> place_for cmp T k L G = place_for cmp S k L G"
  using split_at_cong [of L G T S cmp k] by (auto simp: place_for_def)

lemma noBarrierSetNext_same: "node_next S x j = Some n \<Longrightarrow> noBarrierSetNext S x j n = Some S"
proof -
  assume a: "node_next S x j = Some n"
  then obtain nd where nd: "sk_nodes S x = Some nd" "j < length (nd_nexts nd)" "nd_nexts nd ! j = Some n"
    by (auto simp: node_next_def split: bind_splits if_splits)
  then have "nd\<lparr>nd_nexts := (nd_nexts nd)[j := Some n]\<rparr> = nd" by (simp add: list_update_same_conv)
  then have "(sk_nodes S)(x \<mapsto> nd\<lparr>nd_nexts := (nd_nexts nd)[j := Some n]\<rparr>) = sk_nodes S"
    using nd(1) by auto
  then show ?thesis using nd by (simp add: noBarrierSetNext_def setNext_def)
qed

lemma linking_frame:
  assumes "linking cmp D S L G x prev j h" "same_frame S T" "j' \<le> h"
  shows "linking cmp D T L G x prev j' h"
proof -
  note f = same_frameD [OF assms(2)]
  show ?thesis
    using assms(1,3) f place_for_cong [of L G T S cmp "keyof S x"] same_frame_height [OF assms(2)]
      pred_frame [OF assms(2)]
    unfolding linking_def by simp
qed

lemma linking_dist: "shape cmp D S ns lv \<Longrightarrow> linking cmp D S L G x prev j h \<Longrightarrow>
  ns = (if j = 0 then L @ G else L @ x # G) \<Longrightarrow> distinct (sk_head S # L @ x # G)"
  using shapeD(1) [of cmp D S ns lv] by (auto simp: linking_def split: if_splits)

lemma linking_linked:
  assumes sh: "shape cmp D S ns lv" and lk: "linking cmp D S L G x prev j h"
    and ns: "ns = (if j = 0 then L @ G else L @ x # G)" and lv: "lv = (height_of S)(x := j)"
  shows "linked S (L @ x # G) ((height_of S)(x := j))"
proof (cases "j = 0")
  case True
  have x: "x \<notin> set (sk_head S # L @ G)" using lk by (simp add: linking_def)
  have "linked S (L @ G) lv" using shape_linked [OF sh] ns True by simp
  from linked_new [OF this x refl refl] show ?thesis using lv True by simp
next
  case False
  then show ?thesis using shape_linked [OF sh] ns lv by simp
qed

context key_order
begin

text \<open>The writer asserts that the key is not in the list: it looks only at the first key that is not smaller.\<close>

lemma no_equal_key:
  assumes sh: "shape cmp D S (L @ G) lv" and sp: "split_at cmp S k L G" and k: "D k"
    and x: "hd0 G = 0 \<or> (\<exists>k'. node_key S (hd0 G) = Some k' \<and> \<not> key_equal cmp k k')"
    and a: "a \<in> set (L @ G)"
  shows "cmp k (keyof S a) \<noteq> 0"
proof
  assume z: "cmp k (keyof S a) = 0"
  have Da: "D (keyof S a)" using shapeD(9) [OF sh] a by simp
  have za: "cmp (keyof S a) k = 0" using cmp_zero [OF k Da] z by simp
  then have "a \<in> set G" using a sp by (auto simp: split_at_def)
  then obtain g G' where G: "G = g # G'" by (cases G) auto
  have Dg: "D (keyof S g)" using shapeD(9) [OF sh, of g] G by simp
  have "cmp (keyof S g) (keyof S a) \<le> 0"
    using shapeD(10) [OF sh] \<open>a \<in> set G\<close> cmp_refl [OF Dg] unfolding G by (auto simp: sorted_wrt_append)
  then have "cmp (keyof S g) k \<le> 0" using cmp_trans [OF Dg Da k] za by simp
  then have "cmp k (keyof S g) = 0" using sp cmp_zero [OF Dg k] G by (force simp: split_at_def)
  then show False using x G shape_node_key [OF sh, of g] shape_nonzero [OF sh, of g] by (auto simp: key_equal_def)
qed

lemma inv_find:
  assumes inv: "list_inv os nsz cmp D S WIdle ns lv" and k: "D k"
    and f: "findGreateOrEqual cmp S k (Some (replicate s_max_height None)) = Some (x, Some prev)"
    and x: "x = 0 \<or> (\<exists>k'. node_key S x = Some k' \<and> \<not> key_equal cmp k k')"
    and h: "randomHeight S = Some (h, T)"
  shows "list_inv os nsz cmp D T (WNew k prev h) ns lv \<and> grows S ns lv T ns lv"
proof -
  have sh: "shape cmp D S ns lv" and rok: "random_ok (sk_rnd S)" and lv: "lv = height_of S"
    and dm: "dom (sk_nodes S) = set (sk_head S # ns)"
    using inv by (auto simp: list_inv_def)
  obtain h' rnd where "randomHeight S = Some (h', S\<lparr>sk_rnd := rnd\<rparr>)" "1 \<le> h'" "h' \<le> 12" "random_ok rnd"
    using randomHeight_ok [OF rok] by blast
  then have T: "T = S\<lparr>sk_rnd := rnd\<rparr>" and hh: "1 \<le> h" "h \<le> 12" "random_ok rnd" using h by auto
  obtain L G where ns: "ns = L @ G" and sp: "split_at cmp S k L G" using sorted_split [OF sh k] by blast
  have find: "x = hd0 G" "prev = fill_pred S lv L (sk_max_height S) (replicate s_max_height None)"
    using findGE_ok [OF sh [unfolded ns] sp, of "Some (replicate s_max_height None)"] f by auto
  have ne: "\<forall>a \<in> set (L @ G). cmp k (keyof S a) \<noteq> 0"
    using no_equal_key [OF sh [unfolded ns] sp k x [unfolded find(1)]] by blast
  have same: "node_next T a i = node_next S a i" "keyof T a = keyof S a" "height_of T = height_of S"
    "node_key T a = node_key S a" for a i
    by (auto simp: T node_next_def keyof_def node_key_def height_of_def)
  have sel: "sk_head T = sk_head S" "sk_nodes T = sk_nodes S" "sk_max_height T = sk_max_height S"
    "sk_arena T = sk_arena S" "sk_rnd T = rnd" by (simp_all add: T)
  have g: "grows S ns lv T ns lv" by (simp add: grows_def same sel)
  have "shape cmp D T ns lv"
    by (rule shape_mono [OF sh]) (use sel same dm shapeD(5) [OF sh] in auto)
  moreover have "place_for cmp T k L G" using sp ne by (simp add: place_for_def split_at_def same)
  moreover have "pred T = pred S" by (intro ext) (simp add: pred_def sel)
  then have "prev = fill_pred T (height_of T) L (sk_max_height T) (replicate s_max_height None)"
    using find(2) lv same(3) sel by (simp add: fill_pred_def)
  ultimately have "writer_ok cmp D T ns lv (WNew k prev h)"
    using dm sel same(3) lv k hh ns by auto
  then show ?thesis
    using inv g \<open>shape cmp D T ns lv\<close> hh(3) sel by (simp add: list_inv_def)
qed

lemma inv_raise:
  assumes inv: "list_inv os nsz cmp D S (WNew k prev h) ns lv"
    and step: "if h > getMaxHeight S
      then fill_prev prev (sk_head S) (getMaxHeight S) h = Some prev' \<and> T = S\<lparr>sk_max_height := h\<rparr>
      else prev' = prev \<and> T = S"
  shows "list_inv os nsz cmp D T (WAlloc k prev' h) ns lv \<and> grows S ns lv T ns lv"
proof -
  obtain L G where ns: "ns = L @ G" and pl: "place_for cmp S k L G"
    and prev: "prev = fill_pred S (height_of S) L (sk_max_height S) (replicate s_max_height None)"
    and k: "D k" and h: "1 \<le> h" "h \<le> s_max_height" and lv: "lv = height_of S"
    and dm: "dom (sk_nodes S) = set (sk_head S # ns)"
    using inv by (auto simp: list_inv_def)
  note sh = list_invD(1) [OF inv]
  obtain p' where p': "(if h > sk_max_height S then fill_prev prev (sk_head S) (sk_max_height S) h else Some prev) = Some p'"
    "\<forall>i < h. load_prev p' i = Some (pred S lv L i)"
    using prevs_ok [OF sh [unfolded ns] h prev [folded lv]] by blast
  have prev': "prev' = p'" using p'(1) step by (auto simp: getMaxHeight_def split: if_splits)
  have T: "T = S\<lparr>sk_max_height := max h (sk_max_height S)\<rparr>"
    using step by (auto simp: getMaxHeight_def max_def split: if_splits)
  have same: "node_next T a i = node_next S a i" "keyof T a = keyof S a" "height_of T = height_of S" for a i
    by (auto simp: T node_next_def keyof_def node_key_def height_of_def)
  have sel: "sk_head T = sk_head S" "sk_nodes T = sk_nodes S" "sk_max_height T = max h (sk_max_height S)"
    "sk_arena T = sk_arena S" "sk_rnd T = sk_rnd S" unfolding T by simp_all
  have g: "grows S ns lv T ns lv" by (simp add: grows_def same sel)
  have shS: "shape cmp D T ns lv"
    by (rule shape_mono [OF sh]) (use sel same dm h shapeD(5) [OF sh] in auto)
  have "place_for cmp T k L G" using pl by (simp add: place_for_def split_at_def same)
  moreover have "pred T = pred S" by (intro ext) (simp add: pred_def sel)
  ultimately have "writer_ok cmp D T ns lv (WAlloc k prev' h)"
    using dm sel same(3) lv k h ns p'(2) prev' by auto
  then show ?thesis using inv g shS sel by (simp add: list_inv_def)
qed

lemma inv_alloc:
  assumes inv: "list_inv os nsz cmp D S (WAlloc k prev h) ns lv"
    and new: "newNode os nsz S k h = Some (x, T)"
  shows "list_inv os nsz cmp D T (WLink x prev 0 h) ns (lv(x := 0))
    \<and> grows S ns lv T ns (lv(x := 0))"
proof -
  obtain L G where ns: "ns = L @ G" and pl: "place_for cmp S k L G"
    and prev: "\<forall>i < h. load_prev prev i = Some (pred S (height_of S) L i)"
    and k: "D k" and h: "1 \<le> h" "h \<le> sk_max_height S" and lv: "lv = height_of S"
    and dm: "dom (sk_nodes S) = set (sk_head S # ns)"
    using inv by (auto simp: list_inv_def)
  have sh: "shape cmp D S ns lv" and mem: "sk_mem os nsz (sk_arena S) (sk_nodes S)"
    using list_invD [OF inv] by simp_all
  have h12: "h \<le> 12" using h shapeD(5) [OF sh] by simp
  note nn = newNode_ok [OF mem h(1) h12 new]
  have x: "x \<noteq> 0" "x \<notin> set (sk_head S # L @ G)" using nn dm ns by auto
  have eq: "T = S\<lparr>sk_arena := sk_arena T,
      sk_nodes := (sk_nodes S)(x \<mapsto> \<lparr>nd_key = k, nd_nexts = replicate h None\<rparr>)\<rparr>" using nn by blast
  have sel: "sk_head T = sk_head S" "sk_max_height T = sk_max_height S" "sk_rnd T = sk_rnd S"
    "sk_nodes T = (sk_nodes S)(x \<mapsto> \<lparr>nd_key = k, nd_nexts = replicate h None\<rparr>)"
    using arg_cong [OF eq, of sk_head] arg_cong [OF eq, of sk_max_height] arg_cong [OF eq, of sk_rnd]
      arg_cong [OF eq, of sk_nodes] by simp_all
  have hts: "height_of T = (height_of S)(x := h)" by (auto simp: height_of_def sel(4))
  have keys: "keyof T x = k" "\<And>a. a \<noteq> x \<Longrightarrow> keyof T a = keyof S a"
    by (simp_all add: keyof_def node_key_def sel(4))
  have nxt: "\<And>a i. a \<noteq> x \<Longrightarrow> node_next T a i = node_next S a i" by (simp add: node_next_def sel(4))
  have xs: "\<And>a. a \<in> set (sk_head S # ns) \<Longrightarrow> a \<noteq> x" using x(2) ns by auto
  have g: "grows S ns lv T ns (lv(x := 0))" using xs keys(2) sel(1) by (auto simp: grows_def)
  have shS: "shape cmp D T ns (lv(x := 0))"
    by (rule shape_mono [OF sh]) (use sel dm shapeD(5) [OF sh] xs keys(2) nxt in auto)
  have "pred T (height_of T) L i = pred S (height_of S) L i" for i
  proof -
    have "x \<notin> set (sk_head S # L)" using x(2) by simp
    then show ?thesis unfolding pred_def sel(1) hts by (subst on_level_upd) auto
  qed
  then have "linking cmp D T L G x prev 0 h"
    using x k dm pl h prev keys sel hts place_for_cong [of L G T S cmp k] ns xs
    unfolding linking_def by auto
  then have "writer_ok cmp D T ns (lv(x := 0)) (WLink x prev 0 h)" using ns lv hts by auto
  moreover have "sk_mem os nsz (sk_arena T) (sk_nodes T)" using nn by blast
  moreover have "random_ok (sk_rnd T)" using inv sel(3) by (simp add: list_inv_def)
  ultimately show ?thesis using g shS unfolding list_inv_def by (simp del: writer_ok.simps)
qed

lemma inv_next:
  assumes inv: "list_inv os nsz cmp D S (WLink x prev j h) ns lv" and jh: "j < h"
    and st: "load_prev prev j = Some p" "noBarrierNext S p j = Some n"
      "noBarrierSetNext S x j n = Some T"
  shows "list_inv os nsz cmp D T (WMid x prev j h) ns lv \<and> grows S ns lv T ns lv"
proof -
  obtain L G where ns: "ns = (if j = 0 then L @ G else L @ x # G)" and lk: "linking cmp D S L G x prev j h"
    and lv: "lv = (height_of S)(x := j)" using inv by (auto simp: list_inv_def)
  note sh = list_invD(1) [OF inv]
  have h12: "h \<le> s_max_height" using lk shapeD(5) [OF sh] by (auto simp: linking_def)
  have xh: "x \<notin> set (sk_head S # L @ G)" using lk by (simp add: linking_def)
  obtain nd where nd: "sk_nodes S x = Some nd" "length (nd_nexts nd) = h"
    using lk by (auto simp: linking_def height_of_def split: option.splits)
  have hd: "height_of S (sk_head S) = s_max_height" using shapeD(6) [OF sh] lv xh by auto
  have p: "p = pred S (height_of S) L j" using lk jh st(1) by (auto simp: linking_def)
  from link_step [OF linking_linked [OF sh lk ns lv] linking_dist [OF sh lk ns] hd _ nd(1)] jh h12 nd(2) st p
  have T: "n = hd0 (on_level (height_of S) j G)"
    "\<forall>a k. node_next T a k = (if a = x \<and> k = j then Some n else node_next S a k)"
    by auto
  have fr: "same_frame S T"
    using setNext_ok [OF nd(1), of j n] st(3) jh nd(2) by (auto simp: noBarrierSetNext_def)
  note f = same_frameD [OF fr]
  have g: "grows S ns lv T ns lv" by (simp add: grows_def f)
  have lvx: "lv x = j" by (simp add: lv)
  have shS: "shape cmp D T ns lv"
    by (rule shape_mono [OF sh f(1)])
      (use f T(2) lvx shapeD(3,5) [OF sh] in auto)
  have "on_level lv j G = on_level (height_of S) j G"
    unfolding lv by (rule on_level_upd) (use xh in simp)
  then have "node_next T x j = Some (hd0 (on_level lv j G))" using T by simp
  then have "writer_ok cmp D T ns lv (WMid x prev j h)"
    unfolding writer_ok.simps same_frame_height [OF fr]
    by (intro conjI exI [of _ L] exI [of _ G]) (use lv ns linking_frame [OF lk fr] jh in simp_all)
  moreover have "random_ok (sk_rnd T)" "sk_mem os nsz (sk_arena T) (sk_nodes T)"
    using inv f sk_mem_frame [OF fr] by (simp_all add: list_inv_def)
  ultimately show ?thesis using g shS unfolding list_inv_def by (simp del: writer_ok.simps)
qed


text \<open>
  The list in which the new node is published on level \<open>j\<close>, and only its links differ, has the
  right shape: on the bottom level it takes the place that the search found for it.
\<close>

lemma publish_shape:
  assumes inv: "list_inv os nsz cmp D S (WMid x prev j h) ns lv" and lk: "linking cmp D S L G x prev j h"
    and ns: "ns = (if j = 0 then L @ G else L @ x # G)" and lv: "lv = (height_of S)(x := j)" and jh: "j < h"
    and fr: "same_frame S T" and lkd: "linked T (L @ x # G) ((height_of S)(x := Suc j))"
  shows "shape cmp D T (L @ x # G) (lv(x := Suc j))"
proof -
  note sh = list_invD(1) [OF inv] and f = same_frameD [OF fr]
  have xh: "x \<notin> set (sk_head S # L @ G)" "x \<noteq> 0" "D (keyof S x)" "h \<le> sk_max_height S"
    using lk by (auto simp: linking_def)
  have sub: "set (L @ G) \<subseteq> set ns" unfolding ns by auto
  have old: "1 \<le> height_of S a" "height_of S a \<le> sk_max_height S" "D (keyof S a)" if "a \<in> set (L @ G)" for a
  proof -
    have "a \<in> set ns" "lv a = height_of S a" using that sub xh(1) lv by auto
    then show "1 \<le> height_of S a" "height_of S a \<le> sk_max_height S" "D (keyof S a)"
      using shapeD(7-9) [OF sh, of a] by simp_all
  qed
  have sorted: "sorted_wrt (\<lambda>a b. cmp (keyof T a) (keyof T b) < 0) (L @ x # G)"
  proof (cases "j = 0")
    case True
    have pl: "split_at cmp S (keyof S x) L G" "\<forall>a \<in> set (L @ G). cmp (keyof S x) (keyof S a) \<noteq> 0"
      using lk by (simp_all add: linking_def place_for_def)
    show ?thesis
      by (rule sorted_insert [of S L G lv "keyof S x"]) (use sh ns True pl xh(3) f(6) in auto)
  next
    case False
    then show ?thesis using shapeD(10) [OF sh] ns by (simp add: f(6))
  qed
  have "\<forall>a \<in> set (L @ x # G). 1 \<le> ((height_of S)(x := Suc j)) a
      \<and> ((height_of S)(x := Suc j)) a \<le> sk_max_height T \<and> D (keyof T a)"
    using old xh(1,3,4) f(2,6) jh by auto
  moreover have "0 \<notin> set (sk_head T # L @ x # G)"
    using shape_nonzero [OF sh] sub xh(2) f(1) by force
  moreover have "set (sk_head T # L @ x # G) \<subseteq> dom (sk_nodes T)" using lk f(1,7) by (simp add: linking_def)
  moreover have "((height_of S)(x := Suc j)) (sk_head T) = s_max_height" using shapeD(6) [OF sh] lv xh(1) f(1) by auto
  ultimately show ?thesis
    using linking_dist [OF sh lk ns] f(1,2) shapeD(4,5) [OF sh] sorted lkd unfolding shape_def linked_def lv by simp
qed

lemma inv_publish:
  assumes inv: "list_inv os nsz cmp D S (WMid x prev j h) ns lv"
    and st: "load_prev prev j = Some p" "setNext S p j x = Some T"
  shows "\<exists>ns'. list_inv os nsz cmp D T (WLink x prev (j + 1) h) ns' (lv(x := Suc j))
    \<and> grows S ns lv T ns' (lv(x := Suc j))"
proof -
  obtain L G where ns: "ns = (if j = 0 then L @ G else L @ x # G)" and lk: "linking cmp D S L G x prev j h"
    and lv: "lv = (height_of S)(x := j)" and jh: "j < h"
    and nx: "node_next S x j = Some (hd0 (on_level lv j G))" using inv by (auto simp: list_inv_def)
  note sh = list_invD(1) [OF inv]
  have h: "1 \<le> h" "h \<le> sk_max_height S" "h \<le> s_max_height" using lk shapeD(5) [OF sh] by (auto simp: linking_def)
  have xh: "x \<notin> set (sk_head S # L @ G)" "x \<noteq> 0" "D (keyof S x)" using lk by (auto simp: linking_def)
  obtain nd where nd: "sk_nodes S x = Some nd" "length (nd_nexts nd) = h"
    using lk by (auto simp: linking_def height_of_def split: option.splits)
  have hd: "height_of S (sk_head S) = s_max_height" using shapeD(6) [OF sh] lv xh by auto
  have p: "p = pred S (height_of S) L j" using lk jh st(1) by (auto simp: linking_def)
  note dist = linking_dist [OF sh lk ns]
  have lvG: "on_level lv j G = on_level (height_of S) j G"
    unfolding lv by (rule on_level_upd) (use xh in simp)
  have same: "noBarrierSetNext S x j (hd0 (on_level (height_of S) j G)) = Some S"
    using noBarrierSetNext_same [OF nx] lvG by simp
  from link_step [OF linking_linked [OF sh lk ns lv] dist hd _ nd(1)] jh h(3) nd(2) st(2) p same
  have fr: "same_frame S T" and lkd: "linked T (L @ x # G) ((height_of S)(x := Suc j))" by auto
  note f = same_frameD [OF fr]
  have shS: "shape cmp D T (L @ x # G) (lv(x := Suc j))" by (rule publish_shape [OF inv lk ns lv jh fr lkd])
  have g: "grows S ns lv T (L @ x # G) (lv(x := Suc j))" using ns f(1,6) lv by (auto simp: grows_def)
  have "writer_ok cmp D T (L @ x # G) (lv(x := Suc j)) (WLink x prev (j + 1) h)"
    using lv same_frame_height [OF fr] linking_frame [OF lk fr, of "Suc j"] jh by auto
  moreover have "random_ok (sk_rnd T)" "sk_mem os nsz (sk_arena T) (sk_nodes T)"
    using inv f sk_mem_frame [OF fr] by (simp_all add: list_inv_def)
  ultimately show ?thesis using g shS unfolding list_inv_def by auto
qed

lemma inv_done:
  assumes inv: "list_inv os nsz cmp D S (WLink x prev h h) ns lv"
  shows "list_inv os nsz cmp D S WIdle ns lv"
proof -
  obtain L G where ns: "ns = (if h = 0 then L @ G else L @ x # G)" and lk: "linking cmp D S L G x prev h h"
    and lv: "lv = (height_of S)(x := h)" using inv by (auto simp: list_inv_def)
  have "lv = height_of S" using lk lv by (simp add: linking_def fun_upd_idem)
  moreover have "dom (sk_nodes S) = set (sk_head S # ns)" using lk ns by (auto simp: linking_def)
  ultimately have "writer_ok cmp D S ns lv WIdle" by simp
  then show ?thesis using inv unfolding list_inv_def by simp
qed

section \<open>Executions\<close>

lemma insert_step_inv:
  assumes "insert_step os nsz cmp D S w T w'" "list_inv os nsz cmp D S w ns lv"
  shows "\<exists>ns' lv'. list_inv os nsz cmp D T w' ns' lv' \<and> grows S ns lv T ns' lv'"
  using assms
proof (cases rule: insert_step.cases)
  case (w_find key x prev h)
  then show ?thesis using inv_find assms(2) by blast
next
  case (w_raise h prev prev' key)
  then show ?thesis using inv_raise [of os nsz S key prev h ns lv prev' T] assms(2) by auto
next
  case (w_keep h key prev)
  then show ?thesis using inv_raise [of os nsz S key prev h ns lv prev T] assms(2) by auto
next
  case (w_alloc key h x prev)
  then show ?thesis using inv_alloc assms(2) by blast
next
  case (w_next j h prev p n x)
  then show ?thesis using inv_next assms(2) by blast
next
  case (w_publish prev j p x h)
  then show ?thesis using inv_publish assms(2) by blast
next
  case (w_done x prev h)
  then show ?thesis using inv_done assms(2) grows_refl by blast
qed

lemma reader_at:
  assumes "conc_inv os nsz cmp D C ns lv" "cr C i = r"
  shows "shape cmp D (cs C) ns lv" "reader_ok cmp D (cs C) ns lv r"
  using assms unfolding conc_inv_def list_inv_def by metis+

lemma reader_inv:
  assumes "conc_inv os nsz cmp D C ns lv" "reader_ok cmp D (cs C) ns lv r" "C' = C\<lparr>cr := (cr C)(i := r)\<rparr>"
  shows "\<exists>ns' lv'. conc_inv os nsz cmp D C' ns' lv' \<and> grows (cs C) ns lv (cs C') ns' lv'"
  using assms grows_refl [of "cs C" ns lv]
  by (intro exI [of _ ns] exI [of _ lv]) (simp add: conc_inv_def del: reader_ok.simps)

lemma conc_step_inv:
  assumes "conc_step os nsz cmp D C C'" "conc_inv os nsz cmp D C ns lv"
  shows "\<exists>ns' lv'. conc_inv os nsz cmp D C' ns' lv' \<and> grows (cs C) ns lv (cs C') ns' lv'"
  using assms
proof (cases rule: conc_step.cases)
  case (c_write S w)
  have li: "list_inv os nsz cmp D (cs C) (cw C) ns lv" using assms(2) by (simp add: conc_inv_def)
  obtain ns' lv' where T: "list_inv os nsz cmp D S w ns' lv'" "grows (cs C) ns lv S ns' lv'"
    using insert_step_inv [OF c_write(2) li] by blast
  then have "conc_inv os nsz cmp D C' ns' lv'"
    using assms(2) c_write(1) reader_ok_mono [OF _ T(2)] by (simp add: conc_inv_def)
  then show ?thesis using T(2) c_write(1) by auto
next
  case (r_start i q)
  have sh: "shape cmp D (cs C) ns lv" using reader_at(1) [OF assms(2) refl] .
  have "reader_ok cmp D (cs C) ns lv (RRun q (sk_head (cs C)) (getMaxHeight (cs C) - 1))"
    using on_way_start [OF sh r_start(3) shapeD(4,5) [OF sh]] by (simp add: getMaxHeight_def)
  then show ?thesis using reader_inv [OF assms(2)] r_start(1) by blast
next
  case (r_move i q x level x' level')
  have sh: "shape cmp D (cs C) ns lv" "on_way cmp D (cs C) ns lv q x level"
    using reader_at [OF assms(2) r_move(2)] by simp_all
  have "reader_ok cmp D (cs C) ns lv (RRun q x' level')" using search_iter_ok [OF sh] r_move(3) by simp
  then show ?thesis using reader_inv [OF assms(2)] r_move(1) by blast
next
  case (r_done i q x level r)
  have sh: "shape cmp D (cs C) ns lv" "on_way cmp D (cs C) ns lv q x level"
    using reader_at [OF assms(2) r_done(2)] by simp_all
  have "reader_ok cmp D (cs C) ns lv (RAt (iter_pos (cs C) q r))" using search_iter_ok [OF sh] r_done(3) by simp
  then show ?thesis using reader_inv [OF assms(2)] r_done(1) by blast
next
  case (r_next i x y)
  have sh: "shape cmp D (cs C) ns lv" "x \<in> set ns" using reader_at [OF assms(2) r_next(2)] r_next(3) by simp_all
  have "reader_ok cmp D (cs C) ns lv (RAt y)" using bottom_next [OF sh(1) disjI2 [OF sh(2)]] r_next(4) by force
  then show ?thesis using reader_inv [OF assms(2)] r_next(1) by blast
next
  case (r_first i y)
  have sh: "shape cmp D (cs C) ns lv" using reader_at(1) [OF assms(2) refl] .
  have "reader_ok cmp D (cs C) ns lv (RAt y)" using bottom_next [OF sh disjI1 [OF refl]] r_first(3) by force
  then show ?thesis using reader_inv [OF assms(2)] r_first(1) by blast
qed

lemma conc_steps_inv:
  assumes "(conc_step os nsz cmp D)\<^sup>*\<^sup>* C C'" "conc_inv os nsz cmp D C ns lv"
  shows "\<exists>ns' lv'. conc_inv os nsz cmp D C' ns' lv' \<and> grows (cs C) ns lv (cs C') ns' lv'"
  using assms
proof (induction rule: rtranclp_induct)
  case base
  then show ?case using grows_refl by blast
next
  case (step C1 C2)
  then show ?case using conc_step_inv grows_trans by meson
qed

end


lemma sk_inv_conc_inv:
  assumes "sk_inv os nsz cmp D (cs C) ns" "cw C = WIdle" "\<And>i. cr C i = RIdle"
  shows "conc_inv os nsz cmp D C ns (height_of (cs C))"
  using assms by (simp add: sk_inv_def conc_inv_def list_inv_def)

text \<open>The steps of the writer, one after the other, are the function \<open>skip_insert\<close>.\<close>

abbreviation insert_trace ::
    "os \<Rightarrow> nat \<Rightarrow> ('k \<Rightarrow> 'k \<Rightarrow> int) \<Rightarrow> ('k \<Rightarrow> bool) \<Rightarrow> 'k skiplist \<times> 'k writer \<Rightarrow> 'k skiplist \<times> 'k writer \<Rightarrow> bool" where
  "insert_trace os nsz cmp D \<equiv> (\<lambda>(S, w) (T, w'). insert_step os nsz cmp D S w T w')\<^sup>*\<^sup>*"

lemma insert_trace_step:
  "insert_step os nsz cmp D S w T w' \<Longrightarrow> insert_trace os nsz cmp D (T, w') R \<Longrightarrow> insert_trace os nsz cmp D (S, w) R"
  by (rule converse_rtranclp_into_rtranclp) auto

lemma link_steps:
  assumes "j \<le> h" "link_loop S x prev j h = Some T"
  shows "insert_trace os nsz cmp D (S, WLink x prev j h) (T, WLink x prev h h)"
  using assms
proof (induction "h - j" arbitrary: S j)
  case 0
  then show ?case by (simp add: link_loop.simps)
next
  case (Suc d)
  then have j: "j < h" by simp
  obtain p n S1 S2 where st: "load_prev prev j = Some p" "noBarrierNext S p j = Some n"
    "noBarrierSetNext S x j n = Some S1" "setNext S1 p j x = Some S2" "link_loop S2 x prev (Suc j) h = Some T"
    using Suc.prems(2) j by (auto simp: link_loop.simps [of S] split: bind_splits)
  have "insert_trace os nsz cmp D (S2, WLink x prev (j + 1) h) (T, WLink x prev h h)"
    using Suc.hyps(1) [of "Suc j" S2] Suc.hyps(2) j st(5) by simp
  from insert_trace_step [OF insert_step.w_publish [OF st(1,4)] this]
  show ?case by (rule insert_trace_step [OF insert_step.w_next [OF j st(1-3)]])
qed

lemma insert_steps:
  assumes "D k" "skip_insert os nsz cmp S k = Some T"
  shows "insert_trace os nsz cmp D (S, WIdle) (T, WIdle)"
proof -
  obtain x prev where f: "findGreateOrEqual cmp S k (Some (replicate s_max_height None)) = Some (x, Some prev)"
    and x: "(if x = 0 then Some () else do { k' \<leftarrow> node_key S x; cassert (\<not> key_equal cmp k k') }) = Some ()"
    using assms(2) by (auto simp: skip_insert_def Let_def split: bind_splits)
  then obtain h S1 where h: "randomHeight S = Some (h, S1)"
    using assms(2) by (auto simp: skip_insert_def Let_def split: bind_splits)
  have x': "x = 0 \<or> (\<exists>k'. node_key S x = Some k' \<and> \<not> key_equal cmp k k')"
    using x by (auto split: if_splits bind_splits)
  obtain prev' S2 where r: "(if h > getMaxHeight S1 then do {
          prev \<leftarrow> fill_prev prev (sk_head S1) (getMaxHeight S1) h;
          Some (prev, S1\<lparr>sk_max_height := h\<rparr>) }
        else Some (prev, S1)) = Some (prev', S2)"
    and n: "do { (x, S) \<leftarrow> newNode os nsz S2 k h; link_loop S x prev' 0 h } = Some T"
    using assms(2) f x h by (simp add: skip_insert_def Let_def) (auto split: bind_splits)
  have s2: "insert_step os nsz cmp D S1 (WNew k prev h) S2 (WAlloc k prev' h)"
    using r by (auto split: if_splits bind_splits intro: insert_step.w_raise insert_step.w_keep)
  obtain y S3 where y: "newNode os nsz S2 k h = Some (y, S3)" "link_loop S3 y prev' 0 h = Some T"
    using n by (auto split: bind_splits)
  have "insert_trace os nsz cmp D (S3, WLink y prev' 0 h) (T, WLink y prev' h h)" by (rule link_steps) (use y(2) in simp_all)
  moreover have "insert_step os nsz cmp D T (WLink y prev' h h) T WIdle" by (rule insert_step.w_done)
  ultimately have "insert_trace os nsz cmp D (S3, WLink y prev' 0 h) (T, WIdle)"
    by (auto intro: rtranclp.rtrancl_into_rtrancl)
  from insert_trace_step [OF insert_step.w_alloc [OF y(1)] this]
  show ?thesis
    by (intro insert_trace_step [OF insert_step.w_find [of D k, OF assms(1) f x' h]] insert_trace_step [OF s2])
qed

lemma insert_trace_conc:
  assumes "insert_trace os nsz cmp D (S, w) (T, w')" "cs C = S" "cw C = w"
  shows "(conc_step os nsz cmp D)\<^sup>*\<^sup>* C (C\<lparr>cs := T, cw := w'\<rparr>)"
  using assms(1)
proof (induction rule: rtranclp_induct2)
  case refl
  have "C\<lparr>cs := S, cw := w\<rparr> = C" using assms(2,3) by (cases C) simp
  then show ?case by simp
next
  case (step S1 w1 S2 w2)
  let ?C = "C\<lparr>cs := S1, cw := w1\<rparr>"
  have "conc_step os nsz cmp D ?C (?C\<lparr>cs := S2, cw := w2\<rparr>)" by (rule conc_step.c_write) (use step.hyps(2) in simp)
  then show ?case using step.IH by simp
qed

lemma writer_next_level:
  assumes "list_inv os nsz cmp D S w ns lv" "w = WLink x prev j h \<or> w = WMid x prev j h" "j < h"
  shows "\<exists>p. load_prev prev j = Some p \<and> (\<exists>n T. noBarrierNext S p j = Some n
      \<and> noBarrierSetNext S x j n = Some T) \<and> (\<exists>T. setNext S p j x = Some T)"
proof -
  obtain L G where ns: "ns = (if j = 0 then L @ G else L @ x # G)" and lk: "linking cmp D S L G x prev j h"
    and lv: "lv = (height_of S)(x := j)" using assms(1,2) unfolding list_inv_def by fastforce
  note sh = list_invD(1) [OF assms(1)]
  have h12: "h \<le> s_max_height" using lk shapeD(5) [OF sh] by (auto simp: linking_def)
  have xh: "x \<notin> set (sk_head S # L @ G)" using lk by (simp add: linking_def)
  obtain nd where nd: "sk_nodes S x = Some nd" "length (nd_nexts nd) = h"
    using lk by (auto simp: linking_def height_of_def split: option.splits)
  have hd: "height_of S (sk_head S) = s_max_height" using shapeD(6) [OF sh] lv xh by auto
  have p: "load_prev prev j = Some (pred S (height_of S) L j)" using lk assms(3) by (simp add: linking_def)
  from link_step [OF linking_linked [OF sh lk ns lv] linking_dist [OF sh lk ns] hd _ nd(1)] assms(3) h12 nd(2)
  obtain n T where n: "noBarrierNext S (pred S (height_of S) L j) j = Some n" "noBarrierSetNext S x j n = Some T"
    by auto
  then obtain nd' where "sk_nodes S (pred S (height_of S) L j) = Some nd'" "j < length (nd_nexts nd')"
    using node_next_node by (metis noBarrierNext_def)
  then show ?thesis using p n setNext_ok by blast
qed

text \<open>In a state that satisfies the invariant the writer can go on, unless there is no memory.\<close>

context key_order
begin

lemma writer_can_step:
  assumes inv: "list_inv os nsz cmp D S w ns lv"
  shows "w = WIdle \<or> (\<exists>T w'. insert_step os nsz cmp D S w T w')
      \<or> (\<exists>k prev h. w = WAlloc k prev h \<and> newNode os nsz S k h = None)"
proof (cases w)
  case (WNew k prev h)
  then obtain L G where ns: "ns = L @ G" and h: "1 \<le> h" "h \<le> s_max_height"
    and prev: "prev = fill_pred S (height_of S) L (sk_max_height S) (replicate s_max_height None)"
    using inv by (auto simp: list_inv_def)
  have sh: "shape cmp D S (L @ G) (height_of S)" using inv WNew ns by (auto simp: list_inv_def)
  show ?thesis
  proof (cases "h > getMaxHeight S")
    case True
    then obtain p' where "fill_prev prev (sk_head S) (getMaxHeight S) h = Some p'"
      using prevs_ok [OF sh h prev] by (auto simp: getMaxHeight_def)
    then show ?thesis using insert_step.w_raise [OF True] WNew by blast
  next
    case False
    then show ?thesis using insert_step.w_keep [OF False] WNew by blast
  qed
next
  case (WAlloc k prev h)
  then show ?thesis using insert_step.w_alloc by (cases "newNode os nsz S k h") fastforce+
next
  case (WLink x prev j h)
  then have "j \<le> h" using inv by (auto simp: list_inv_def linking_def)
  then consider "j = h" | "j < h" by linarith
  then show ?thesis
  proof cases
    case 1
    then show ?thesis using insert_step.w_done [of os nsz cmp D S x prev h] WLink by blast
  next
    case 2
    obtain p n T where "load_prev prev j = Some p" "noBarrierNext S p j = Some n" "noBarrierSetNext S x j n = Some T"
      using writer_next_level [OF inv _ 2] WLink by blast
    from insert_step.w_next [OF 2 this] show ?thesis using WLink by blast
  qed
next
  case (WMid x prev j h)
  then have "j < h" using inv by (auto simp: list_inv_def)
  then obtain p T where "load_prev prev j = Some p" "setNext S p j x = Some T"
    using writer_next_level [OF inv] WMid by blast
  from insert_step.w_publish [OF this] show ?thesis using WMid by blast
qed simp

end

context key_order
begin

text \<open>
  A reader left alone needs at most one step for each node that lies ahead of it and one for
  each level: moving right leaves nodes behind, and it never goes up.
\<close>

lemma reader_finishes:
  assumes "shape cmp D (cs C) ns lv" "cr C i = RRun q x l" "on_way cmp D (cs C) ns lv q x l"
  shows "\<exists>n r. n \<le> l + card (ahead cmp (cs C) ns x) + 1 \<and> search_run cmp (cs C) q = Some r
    \<and> (conc_step os nsz cmp D ^^ n) C (C\<lparr>cr := (cr C)(i := RAt (iter_pos (cs C) q r))\<rparr>)"
  using assms
proof (induction "l + card (ahead cmp (cs C) ns x)" arbitrary: C x l rule: less_induct)
  case less
  let ?S = "cs C"
  note step = search_iter_ok [OF less.prems(1,3)]
  then obtain z where z: "search_iter cmp ?S q x l = Some z" by (cases "search_iter cmp ?S q x l") simp_all
  show ?case
  proof (cases z)
    case (Inr r)
    then have "conc_step os nsz cmp D C (C\<lparr>cr := (cr C)(i := RAt (iter_pos ?S q r))\<rparr>)"
      using conc_step.r_done [OF less.prems(2)] z by simp
    then have "(conc_step os nsz cmp D ^^ 1) C (C\<lparr>cr := (cr C)(i := RAt (iter_pos ?S q r))\<rparr>)"
      by (simp only: relpowp_1)
    then show ?thesis using step z Inr
      by (intro exI [of _ 1] exI [of _ r]) (simp del: relpowp_1 relpowp.simps)
  next
    case (Inl w)
    obtain x' l' where w: "w = (x', l')" by (cases w)
    let ?C = "C\<lparr>cr := (cr C)(i := RRun q x' l')\<rparr>"
    have st: "conc_step os nsz cmp D C ?C" using conc_step.r_move [OF less.prems(2)] z Inl w by simp
    have ok: "on_way cmp D ?S ns lv q x' l'" and
      prog: "l' < l \<and> x' = x \<or> l' = l \<and> x' \<in> set ns \<and> (x = sk_head ?S \<or> cmp (keyof ?S x) (keyof ?S x') < 0)"
      using step z Inl w by simp_all
    have dec: "l' + card (ahead cmp ?S ns x') < l + card (ahead cmp ?S ns x)"
      using prog ahead_decreases [OF less.prems(1), of x x'] less.prems(3) by (auto simp: on_way_def)
    then obtain n r where n: "n \<le> l' + card (ahead cmp ?S ns x') + 1" "search_run cmp ?S q = Some r"
      "(conc_step os nsz cmp D ^^ n) ?C (C\<lparr>cr := (cr C)(i := RAt (iter_pos ?S q r))\<rparr>)"
      using less.hyps [of l' ?C x'] less.prems(1) ok by auto
    have "(conc_step os nsz cmp D ^^ Suc n) C (C\<lparr>cr := (cr C)(i := RAt (iter_pos ?S q r))\<rparr>)"
      using st n(3) by (rule relpowp_Suc_I2)
    moreover have "Suc n \<le> l + card (ahead cmp ?S ns x) + 1" using n(1) dec by simp
    ultimately show ?thesis using n(2) by blast
  qed
qed

lemma list_inv_nodes:
  assumes "list_inv os nsz cmp D S w ns lv"
  shows "finite (dom (sk_nodes S))" "length ns < card (dom (sk_nodes S))"
proof -
  note sh = list_invD(1) [OF assms]
  show fin: "finite (dom (sk_nodes S))"
    using list_invD(4) [OF assms] by (cases w) (auto simp: linking_def)
  have "length (sk_head S # ns) = card (set (sk_head S # ns))"
    by (rule distinct_card [symmetric]) (use shapeD(1) [OF sh] in simp)
  also have "\<dots> \<le> card (dom (sk_nodes S))" by (rule card_mono [OF fin shapeD(3) [OF sh]])
  finally show "length ns < card (dom (sk_nodes S))" by simp
qed

end

section \<open>Properties\<close>

text \<open>
  Readers need no lock: in every interleaving of one writer with any number of
  readers, started on a well-formed list, a running search can always take its next step (it
  reads no link that was not written, goes through no null pointer and fails no assertion),
  and when it returns, it returns what an uninterrupted search would return at the moment of
  its last load.
\<close>

theorem conc_search_linearizable:
  assumes "key_order cmp D" "sk_inv os nsz cmp D (cs C0) ns0" "cw C0 = WIdle" "\<And>i. cr C0 i = RIdle"
    and "(conc_step os nsz cmp D)\<^sup>*\<^sup>* C0 C" "cr C i = RRun q x l"
  shows "search_iter cmp (cs C) q x l \<noteq> None
    \<and> (\<forall>r. search_iter cmp (cs C) q x l = Some (Inr r) \<longrightarrow> search_run cmp (cs C) q = Some r)"
proof -
  obtain ns lv where inv: "conc_inv os nsz cmp D C ns lv"
    using key_order.conc_steps_inv [OF assms(1,5) sk_inv_conc_inv [OF assms(2-4)]] by blast
  have "on_way cmp D (cs C) ns lv q x l" using key_order.reader_at(2) [OF assms(1) inv assms(6)] by simp
  from key_order.search_iter_ok [OF assms(1) key_order.reader_at(1) [OF assms(1) inv refl] this]
  show ?thesis by (auto split: option.splits)
qed

theorem conc_search_linearizable_witness:
  "\<exists>S. contains int_cmp S (7 :: nat) = Some True \<and> search_iter int_cmp S (GreaterOrEqual 5) (sk_head S) (getMaxHeight S - 1) \<noteq> None"
proof -
  obtain S x where S: "sk_inv bump_new 16 int_cmp (\<lambda>_. True) S [x]" "keyof S x = 7"
    using demo_list by blast
  let ?C0 = "\<lparr>cs = S, cw = WIdle, cr = \<lambda>_. RIdle\<rparr>"
  let ?C1 = "\<lparr>cs = S, cw = WIdle, cr = (\<lambda>_. RIdle)(0 := RRun (GreaterOrEqual 5) (sk_head S) (getMaxHeight S - 1))\<rparr>"
  have "conc_step bump_new 16 int_cmp (\<lambda>_. True) ?C0 ?C1"
    using conc_step.r_start [of ?C0 0 "\<lambda>_. True" "GreaterOrEqual 5" bump_new 16 int_cmp] by simp
  then have "(conc_step bump_new 16 int_cmp (\<lambda>_. True))\<^sup>*\<^sup>* ?C0 ?C1" by simp
  from conc_search_linearizable [OF int_keys.key_order_axioms _ _ _ this, of "[x]" 0 "GreaterOrEqual 5" "sk_head S" "getMaxHeight S - 1"]
  have "search_iter int_cmp S (GreaterOrEqual 5) (sk_head S) (getMaxHeight S - 1) \<noteq> None" using S(1) by simp
  moreover have "contains int_cmp S 7 = Some True"
    using int_keys.contains_ok [OF S(1) TrueI, of 7] S(2) by (simp add: int_cmp_def)
  ultimately show ?thesis by blast
qed

text \<open>
  A reader never waits: in every
  state that an execution reaches, also in the middle of an insertion, a running search that
  is left alone ends after at most one step for each level and each node, and returns what
  the function returns on that state of the list.
\<close>

theorem conc_reader_progress:
  assumes "key_order cmp D" "sk_inv os nsz cmp D (cs C0) ns0" "cw C0 = WIdle" "\<And>i. cr C0 i = RIdle"
    and "(conc_step os nsz cmp D)\<^sup>*\<^sup>* C0 C" "cr C i = RRun q x l"
  shows "\<exists>n r. n \<le> s_max_height + card (dom (sk_nodes (cs C))) \<and> search_run cmp (cs C) q = Some r
    \<and> (conc_step os nsz cmp D ^^ n) C (C\<lparr>cr := (cr C)(i := RAt (iter_pos (cs C) q r))\<rparr>)"
proof -
  obtain ns lv where inv: "conc_inv os nsz cmp D C ns lv"
    using key_order.conc_steps_inv [OF assms(1,5) sk_inv_conc_inv [OF assms(2-4)]] by blast
  have w: "on_way cmp D (cs C) ns lv q x l" using key_order.reader_at(2) [OF assms(1) inv assms(6)] by simp
  obtain n r where n: "n \<le> l + card (ahead cmp (cs C) ns x) + 1" "search_run cmp (cs C) q = Some r"
    "(conc_step os nsz cmp D ^^ n) C (C\<lparr>cr := (cr C)(i := RAt (iter_pos (cs C) q r))\<rparr>)"
    using key_order.reader_finishes [OF assms(1) key_order.reader_at(1) [OF assms(1) inv refl] assms(6) w] by blast
  have "n \<le> s_max_height + card (dom (sk_nodes (cs C)))"
    using n(1) w card_ahead [of cmp "cs C" ns x] key_order.list_inv_nodes(2) [OF assms(1)] inv
    by (fastforce simp: on_way_def conc_inv_def)
  then show ?thesis using n(2,3) by blast
qed

theorem conc_reader_progress_witness:
  "\<exists>S n r. n \<le> 12 + card (dom (sk_nodes S))
    \<and> (conc_step bump_new 16 int_cmp (\<lambda>_. True) ^^ n)
        \<lparr>cs = S, cw = WIdle, cr = (\<lambda>_. RIdle)(0 := RRun (GreaterOrEqual (5 :: nat)) (sk_head S) (getMaxHeight S - 1))\<rparr>
        \<lparr>cs = S, cw = WIdle, cr = (\<lambda>_. RIdle)(0 := RAt r)\<rparr>
    \<and> node_key S r = Some 7"
proof -
  obtain S x where S: "sk_inv bump_new 16 int_cmp (\<lambda>_. True) S [x]" "keyof S x = 7"
    using demo_list by blast
  let ?C0 = "\<lparr>cs = S, cw = WIdle, cr = \<lambda>_. RIdle\<rparr>"
  let ?C1 = "\<lparr>cs = S, cw = WIdle, cr = (\<lambda>_. RIdle)(0 := RRun (GreaterOrEqual 5) (sk_head S) (getMaxHeight S - 1))\<rparr>"
  have "conc_step bump_new 16 int_cmp (\<lambda>_. True) ?C0 ?C1"
    using conc_step.r_start [of ?C0 0 "\<lambda>_. True" "GreaterOrEqual 5" bump_new 16 int_cmp] by simp
  then have run: "(conc_step bump_new 16 int_cmp (\<lambda>_. True))\<^sup>*\<^sup>* ?C0 ?C1" by simp
  have inv: "sk_inv bump_new 16 int_cmp (\<lambda>_. True) (cs ?C0) [x]" "cw ?C0 = WIdle" "\<And>i. cr ?C0 i = RIdle"
    using S(1) by simp_all
  have rd: "cr ?C1 0 = RRun (GreaterOrEqual 5) (sk_head S) (getMaxHeight S - 1)" by simp
  obtain n r where n: "n \<le> s_max_height + card (dom (sk_nodes (cs ?C1)))"
    "(conc_step bump_new 16 int_cmp (\<lambda>_. True) ^^ n) ?C1 (?C1\<lparr>cr := (cr ?C1)(0 := RAt r)\<rparr>)"
    "search_run int_cmp (cs ?C1) (GreaterOrEqual 5) = Some r"
    using conc_reader_progress [OF int_keys.key_order_axioms inv run rd] by auto
  have sh: "shape int_cmp (\<lambda>_. True) S ([] @ [x]) (height_of S)" using S(1) by (simp add: sk_inv_def)
  have "split_at int_cmp S 5 [] [x]" using S(2) by (simp add: split_at_def int_cmp_def)
  from int_keys.findGE_ok [OF sh this, of None] have "r = x" using n(3) by simp
  then have "node_key S r = Some 7" using shape_node_key [OF sh, of x] S(2) by simp
  then show ?thesis using n(1,2) by (intro exI [of _ S] exI [of _ n] exI [of _ r]) simp
qed

text \<open>
  No stored key is ever missed: if at
  some moment of an execution \<open>contains\<close> would find the key \<open>k\<close>, then every search for \<open>k\<close>
  that returns at that moment or later, whatever was inserted meanwhile, returns a node whose
  key compares equal to \<open>k\<close>.
\<close>

theorem conc_no_lost_key:
  assumes "key_order cmp D" "sk_inv os nsz cmp D (cs C0) ns0" "cw C0 = WIdle" "\<And>i. cr C0 i = RIdle"
    and "(conc_step os nsz cmp D)\<^sup>*\<^sup>* C0 C1" "D k" "contains cmp (cs C1) k = Some True"
    and "(conc_step os nsz cmp D)\<^sup>*\<^sup>* C1 C2" "cr C2 i = RRun (GreaterOrEqual k) x l"
    and "search_iter cmp (cs C2) (GreaterOrEqual k) x l = Some (Inr r)"
  shows "r \<noteq> 0 \<and> (\<exists>k'. node_key (cs C2) r = Some k' \<and> cmp k k' = 0)"
proof -
  obtain ns1 lv1 where inv1: "conc_inv os nsz cmp D C1 ns1 lv1"
    using key_order.conc_steps_inv [OF assms(1,5) sk_inv_conc_inv [OF assms(2-4)]] by blast
  note sh1 = key_order.reader_at(1) [OF assms(1) inv1 refl]
  obtain a where a: "a \<in> set ns1" "cmp k (keyof (cs C1) a) = 0"
    using key_order.contains_shape [OF assms(1) sh1 assms(6)] assms(7) by auto
  obtain ns lv where inv: "conc_inv os nsz cmp D C2 ns lv" and g: "grows (cs C1) ns1 lv1 (cs C2) ns lv"
    using key_order.conc_steps_inv [OF assms(1,8) inv1] by blast
  have sh: "shape cmp D (cs C2) ns lv" and w: "on_way cmp D (cs C2) ns lv (GreaterOrEqual k) x l"
    using key_order.reader_at [OF assms(1) inv assms(9)] by simp_all
  have "a \<in> set ns" "cmp k (keyof (cs C2) a) = 0" using a g by (auto simp: grows_def)
  then have "contains cmp (cs C2) k = Some True"
    using key_order.contains_shape [OF assms(1) sh assms(6)] by auto
  moreover have "search_run cmp (cs C2) (GreaterOrEqual k) = Some r"
    using key_order.search_iter_ok [OF assms(1) sh w] assms(10) by simp
  ultimately show ?thesis by (auto simp: contains_def key_equal_def split: if_splits bind_splits)
qed

theorem conc_no_lost_key_witness:
  "\<exists>S x l r. search_iter int_cmp S (GreaterOrEqual (7 :: nat)) x l = Some (Inr r) \<and> r \<noteq> 0"
proof -
  obtain S x where S: "sk_inv bump_new 16 int_cmp (\<lambda>_. True) S [x]" "keyof S x = 7"
    using demo_list by blast
  have sh: "shape int_cmp (\<lambda>_. True) S [x] (height_of S)" using S(1) by (simp add: sk_inv_def)
  let ?C = "\<lambda>r. \<lparr>cs = S, cw = WIdle, cr = (\<lambda>_. RIdle)(0 := r)\<rparr>"
  let ?R = "conc_step bump_new 16 int_cmp (\<lambda>_. True)"
  have c: "contains int_cmp S 7 = Some True"
    using int_keys.contains_ok [OF S(1) TrueI, of 7] S(2) by (simp add: int_cmp_def)
  have start: "?R (?C RIdle) (?C (RRun (GreaterOrEqual 7) (sk_head S) (getMaxHeight S - 1)))"
    using conc_step.r_start [of "?C RIdle" 0 "\<lambda>_. True" "GreaterOrEqual 7" bump_new 16 int_cmp] by simp
  have down: "?R\<^sup>*\<^sup>* (?C RIdle) (?C (RRun (GreaterOrEqual 7) (sk_head S) m))" if "m \<le> getMaxHeight S - 1" for m
    using that
  proof (induction "getMaxHeight S - 1 - m" arbitrary: m)
    case 0
    then have m: "m = getMaxHeight S - 1" by simp
    show ?case unfolding m using start by (rule r_into_rtranclp)
  next
    case (Suc d)
    have prev: "?R\<^sup>*\<^sup>* (?C RIdle) (?C (RRun (GreaterOrEqual 7) (sk_head S) (Suc m)))" by (rule Suc.hyps(1)) (use Suc.hyps(2) in auto)
    have m: "Suc m < s_max_height" using Suc.hyps(2) shapeD(5) [OF sh] by (simp add: getMaxHeight_def)
    have nxt: "node_next S (sk_head S) (Suc m) = Some (hd0 (on_level (height_of S) (Suc m) [x]))"
      using path_next [of S "Suc m" "sk_head S"] shapeD(11) [OF sh m] shapeD(6) [OF sh] m by simp
    have "keyIsAfterNode int_cmp S 7 (hd0 (on_level (height_of S) (Suc m) [x])) = Some False"
      using shape_node_key [OF sh, of x] S(2) by (simp add: keyIsAfterNode_def int_cmp_def)
    then have "search_iter int_cmp S (GreaterOrEqual 7) (sk_head S) (Suc m) = Some (Inl (sk_head S, m))"
      using nxt by (simp add: search_iter_def)
    then have "?R (?C (RRun (GreaterOrEqual 7) (sk_head S) (Suc m))) (?C (RRun (GreaterOrEqual 7) (sk_head S) m))"
      using conc_step.r_move [of "?C (RRun (GreaterOrEqual 7) (sk_head S) (Suc m))" 0 "GreaterOrEqual 7" "sk_head S" "Suc m" int_cmp "sk_head S" m
          bump_new 16 "\<lambda>_. True"] by simp
    then show ?case using prev by (rule rtranclp.rtrancl_into_rtrancl [rotated])
  qed
  have "node_next S (sk_head S) 0 = Some x" using bottom_path [OF sh] by simp
  moreover have "keyIsAfterNode int_cmp S 7 x = Some False"
    using shape_node_key [OF sh, of x] S(2) by (simp add: keyIsAfterNode_def int_cmp_def)
  ultimately have it: "search_iter int_cmp S (GreaterOrEqual 7) (sk_head S) 0 = Some (Inr x)" by (simp add: search_iter_def)
  let ?E = "?C (RRun (GreaterOrEqual 7) (sk_head S) 0)"
  have inv: "sk_inv bump_new 16 int_cmp (\<lambda>_. True) (cs (?C RIdle)) [x]" "cw (?C RIdle) = WIdle"
    "\<And>i. cr (?C RIdle) i = RIdle" using S(1) by simp_all
  have run0: "?R\<^sup>*\<^sup>* (?C RIdle) (?C RIdle)" by simp
  have c0: "contains int_cmp (cs (?C RIdle)) 7 = Some True" using c by simp
  have rd: "cr ?E 0 = RRun (GreaterOrEqual 7) (sk_head S) 0" by simp
  have it0: "search_iter int_cmp (cs ?E) (GreaterOrEqual 7) (sk_head S) 0 = Some (Inr x)" using it by simp
  have "x \<noteq> 0"
    using conc_no_lost_key [OF int_keys.key_order_axioms inv run0 TrueI c0 down [OF le0] rd it0] by blast
  then show ?thesis using it by blast
qed

text \<open>
  src/database/skiplist.h, \<open>insert\<close>. The step relation is the code: the steps of the
  writer taken one after the other compute exactly the function \<open>skip_insert\<close>; and in every
  execution a writer in the middle of an insertion can take its next step, whatever the
  readers did, unless the arena gets no memory for the node.
\<close>

theorem conc_writer_is_insert:
  assumes "key_order cmp D" "sk_inv os nsz cmp D (cs C0) ns0" "cw C0 = WIdle" "\<And>i. cr C0 i = RIdle"
    and "(conc_step os nsz cmp D)\<^sup>*\<^sup>* C0 C"
  shows "(\<forall>k T. cw C = WIdle \<longrightarrow> D k \<longrightarrow> skip_insert os nsz cmp (cs C) k = Some T \<longrightarrow>
      (conc_step os nsz cmp D)\<^sup>*\<^sup>* C (C\<lparr>cs := T\<rparr>))
    \<and> (cw C = WIdle \<or> (\<exists>T w. insert_step os nsz cmp D (cs C) (cw C) T w)
      \<or> (\<exists>k prev h. cw C = WAlloc k prev h \<and> newNode os nsz (cs C) k h = None))"
proof -
  obtain ns lv where "conc_inv os nsz cmp D C ns lv"
    using key_order.conc_steps_inv [OF assms(1,5) sk_inv_conc_inv [OF assms(2-4)]] by blast
  then have li: "list_inv os nsz cmp D (cs C) (cw C) ns lv" by (simp add: conc_inv_def)
  note step = key_order.writer_can_step [OF assms(1) li]
  have "(conc_step os nsz cmp D)\<^sup>*\<^sup>* C (C\<lparr>cs := T\<rparr>)"
    if k: "cw C = WIdle" "D k" "skip_insert os nsz cmp (cs C) k = Some T" for k T
    using insert_trace_conc [OF insert_steps [of D k, OF k(2,3)] refl k(1)] k(1) by (cases C) simp
  then show ?thesis using step by blast
qed

theorem conc_writer_is_insert_witness:
  "\<exists>S0 S. SkipList_new bump_new 16 0 Arena_new = Some S0
    \<and> (conc_step bump_new 16 int_cmp (\<lambda>_. True))\<^sup>*\<^sup>* \<lparr>cs = S0, cw = WIdle, cr = \<lambda>_. RIdle\<rparr>
        \<lparr>cs = S, cw = WIdle, cr = \<lambda>_. RIdle\<rparr> \<and> contains int_cmp S 7 = Some True"
proof -
  obtain S0 S x where S: "SkipList_new bump_new 16 0 Arena_new = Some S0"
    "skip_insert bump_new 16 int_cmp S0 7 = Some S" "sk_inv bump_new 16 int_cmp (\<lambda>_. True) S [x]"
    "keyof S x = 7" using demo_list by blast
  have inv0: "sk_inv bump_new 16 int_cmp (\<lambda>_. True) S0 []"
    using SkipList_new_ok [OF good_bump_new _ _ arena_inv_new, of 16 int_cmp "\<lambda>_. True" 0] S(1) by simp
  let ?C = "\<lparr>cs = S0, cw = WIdle, cr = \<lambda>_. RIdle\<rparr>"
  have c: "sk_inv bump_new 16 int_cmp (\<lambda>_. True) (cs ?C) []" "cw ?C = WIdle" "\<And>i. cr ?C i = RIdle"
    using inv0 by simp_all
  have run0: "(conc_step bump_new 16 int_cmp (\<lambda>_. True))\<^sup>*\<^sup>* ?C ?C" by simp
  note all = conc_writer_is_insert [OF int_keys.key_order_axioms c run0]
  have "skip_insert bump_new 16 int_cmp (cs ?C) 7 = Some S" using S(2) by simp
  from all [THEN conjunct1, rule_format, OF c(2) TrueI this]
  have "(conc_step bump_new 16 int_cmp (\<lambda>_. True))\<^sup>*\<^sup>* ?C (?C\<lparr>cs := S\<rparr>)" .
  moreover have "contains int_cmp S 7 = Some True"
    using int_keys.contains_ok [OF S(3) TrueI, of 7] S(4) by (simp add: int_cmp_def)
  ultimately show ?thesis using S(1) by auto
qed

end
