(* ===== verification/KV_SkipMem.thy ===== *)
theory KV_SkipMem
  imports KV_SkipConc "HOL-Library.Sublist"
begin

text \<open>
  The skip list of src/database/skiplist.h under the memory orders its accessors ask for:
  \<open>next\<close> is an acquire load, \<open>setNext\<close> a release store, \<open>noBarrierNext\<close>,
  \<open>noBarrierSetNext\<close> and the accesses to \<open>max_height_\<close> are relaxed. In the memory model of
  C++ a load need not return the last value written: it returns any value that is not
  older than what happens before the load.

  There is one writer, so its stores are totally ordered, and the memory is the list of the
  states that the writer went through. A reader has a view, the time up to which the stores
  of the writer happen before what it does next. A load reads the state at any time from the
  view on. Only a load that reads a release store moves the view, to the time of that
  store. Everything that is not atomic (the key of a node, the fresh node itself) is read in
  the state of the view: a node that does not exist there is a data race, and the model
  aborts.

  This theory holds the model and its invariant; KV_SkipWeak has what follows for the
  operations of the readers.
\<close>

section \<open>Stores, loads and views\<close>

datatype store =
    NoStore                    \<comment> \<open>no store to a link\<close>
  | Rel nat nat                \<comment> \<open>\<open>setNext\<close>: node, level\<close>
  | Rlx nat nat                \<comment> \<open>\<open>noBarrierSetNext\<close>: node, level\<close>

fun store_of :: "'k writer \<Rightarrow> 'k writer \<Rightarrow> store" where
  "store_of (WLink x prev j h) (WMid x' prev' j' h') = Rlx x j"
| "store_of (WMid x prev j h) (WLink x' prev' j' h') =
     (case load_prev prev j of Some p \<Rightarrow> Rel p j | None \<Rightarrow> NoStore)"
| "store_of _ _ = NoStore"

type_synonym 'k history = "(store \<times> 'k skiplist) list"

definition state_at :: "'k history \<Rightarrow> nat \<Rightarrow> 'k skiplist" where
  "state_at H t = snd (H ! t)"

definition store_at :: "'k history \<Rightarrow> nat \<Rightarrow> store" where
  "store_at H t = fst (H ! t)"

text \<open>
  The time of the store whose value a load of the link \<open>l\<close> of \<open>x\<close> reads at time \<open>t\<close>, if that
  is a release store; 0, the time before which the list was handed to the threads, if not.
\<close>

primrec acquired :: "'k history \<Rightarrow> nat \<Rightarrow> nat \<Rightarrow> nat \<Rightarrow> nat" where
  "acquired H x l 0 = 0"
| "acquired H x l (Suc t) = (if store_at H (Suc t) = Rel x l then Suc t
     else if store_at H (Suc t) = Rlx x l then 0 else acquired H x l t)"

definition load_acquire :: "'k history \<Rightarrow> nat \<Rightarrow> nat \<Rightarrow> nat \<Rightarrow> nat \<Rightarrow> (nat \<times> nat) option" where
  "load_acquire H view x l t = do {
     y \<leftarrow> node_next (state_at H t) x l;
     Some (y, max view (acquired H x l t)) }"

text \<open>The body of the loop of a search; its load reads at time \<open>t\<close>.\<close>

definition weak_iter ::
    "('k \<Rightarrow> 'k \<Rightarrow> int) \<Rightarrow> 'k history \<Rightarrow> 'k search \<Rightarrow> nat \<Rightarrow> nat \<Rightarrow> nat \<Rightarrow> nat \<Rightarrow> (nat \<times> (nat \<times> nat + nat)) option" where
  "weak_iter cmp H q x level view t = do {
     _ \<leftarrow> search_assert cmp (state_at H view) q x;
     (nxt, view) \<leftarrow> load_acquire H view x level t;
     after \<leftarrow> search_after cmp (state_at H view) q nxt;
     Some (view, if after then Inl (nxt, level)
           else if level = 0 then Inr (search_result q x nxt) else Inl (x, level - 1)) }"

text \<open>What the load makes of the search.\<close>

primrec after_load :: "'k skiplist \<Rightarrow> 'k search \<Rightarrow> nat \<times> nat + nat \<Rightarrow> 'k reader" where
  "after_load S q (Inl p) = RRun q (fst p) (snd p)"
| "after_load S q (Inr y) = RAt (iter_pos S q y)"

section \<open>Steps\<close>

record 'k weak =
  hist :: "'k history"
  ww :: "'k writer"
  wr :: "nat \<Rightarrow> 'k reader"
  wv :: "nat \<Rightarrow> nat"

definition now :: "'k weak \<Rightarrow> nat" where
  "now W = length (hist W) - 1"

text \<open>
  The writer reads only what it wrote itself, so that it sees its last state. The load of
  \<open>max_height_\<close> at the start of a search is relaxed and reads at any time from the
  view on. A thread may also synchronise with the writer by other means, between its
  operations; this raises its view.
\<close>

inductive weak_step ::
    "os \<Rightarrow> nat \<Rightarrow> ('k \<Rightarrow> 'k \<Rightarrow> int) \<Rightarrow> ('k \<Rightarrow> bool) \<Rightarrow> 'k weak \<Rightarrow> 'k weak \<Rightarrow> bool"
  for os :: os and nsz :: nat and cmp :: "'k \<Rightarrow> 'k \<Rightarrow> int" and D :: "'k \<Rightarrow> bool"
where
  ws_write: "insert_step os nsz cmp D (state_at (hist W) (now W)) (ww W) S w \<Longrightarrow>
     weak_step os nsz cmp D W (W\<lparr>hist := hist W @ [(store_of (ww W) w, S)], ww := w\<rparr>)"
| ws_sync: "at_rest (wr W i) \<Longrightarrow> wv W i \<le> v \<Longrightarrow> v \<le> now W \<Longrightarrow>
     weak_step os nsz cmp D W (W\<lparr>wv := (wv W)(i := v)\<rparr>)"
| ws_start: "at_rest (wr W i) \<Longrightarrow> search_ok D q \<Longrightarrow> wv W i \<le> t \<Longrightarrow> t \<le> now W \<Longrightarrow>
     weak_step os nsz cmp D W (W\<lparr>wr := (wr W)(i := RRun q (sk_head (state_at (hist W) (wv W i)))
       (getMaxHeight (state_at (hist W) t) - 1))\<rparr>)"
| ws_load: "wr W i = RRun q x level \<Longrightarrow> wv W i \<le> t \<Longrightarrow> t \<le> now W \<Longrightarrow>
     weak_iter cmp (hist W) q x level (wv W i) t = Some (v, z) \<Longrightarrow>
     weak_step os nsz cmp D W
       (W\<lparr>wr := (wr W)(i := after_load (state_at (hist W) v) q z), wv := (wv W)(i := v)\<rparr>)"
| ws_next: "wr W i = RAt x \<Longrightarrow> x \<noteq> 0 \<Longrightarrow> wv W i \<le> t \<Longrightarrow> t \<le> now W \<Longrightarrow>
     load_acquire (hist W) (wv W i) x 0 t = Some (y, v) \<Longrightarrow>
     weak_step os nsz cmp D W (W\<lparr>wr := (wr W)(i := RAt y), wv := (wv W)(i := v)\<rparr>)"
| ws_first: "at_rest (wr W i) \<Longrightarrow> wv W i \<le> t \<Longrightarrow> t \<le> now W \<Longrightarrow>
     load_acquire (hist W) (wv W i) (sk_head (state_at (hist W) (wv W i))) 0 t = Some (y, v) \<Longrightarrow>
     weak_step os nsz cmp D W (W\<lparr>wr := (wr W)(i := RAt y), wv := (wv W)(i := v)\<rparr>)"

definition weak_init :: "'k skiplist \<Rightarrow> 'k weak" where
  "weak_init S = \<lparr>hist = [(NoStore, S)], ww = WIdle, wr = \<lambda>_. RIdle, wv = \<lambda>_. 0\<rparr>"

section \<open>What a store changes\<close>

text \<open>Every store to a link of a node that exists is one that \<open>store_of\<close> names.\<close>

lemma setNext_frame:
  assumes "setNext S p j v = Some T"
  shows "node_next T a i = (if a = p \<and> i = j then Some v else node_next S a i)"
  using assms by (auto simp: setNext_def node_next_def nth_list_update split: bind_splits if_splits)

lemma store_frame:
  assumes "insert_step os nsz cmp D S w T w'" "list_inv os nsz cmp D S w ns lv"
    and a: "a \<in> dom (sk_nodes S)" "store_of w w' \<noteq> Rel a i" "store_of w w' \<noteq> Rlx a i"
  shows "node_next T a i = node_next S a i"
  using assms(1)
proof (cases rule: insert_step.cases)
  case (w_find key x prev h)
  obtain h' rnd where "randomHeight S = Some (h', S\<lparr>sk_rnd := rnd\<rparr>)"
    using randomHeight_ok list_invD(2) [OF assms(2)] by blast
  then show ?thesis using w_find by (simp add: node_next_def)
next
  case (w_raise h prev prev' key)
  then show ?thesis by (simp add: node_next_def)
next
  case (w_alloc key h x prev)
  then have h: "1 \<le> h" "h \<le> 12" using list_invD(1,4) [OF assms(2)] shapeD(5) [of cmp D S ns lv] by auto
  from newNode_ok [OF list_invD(3) [OF assms(2)] h w_alloc(3)]
  have T: "T = S\<lparr>sk_arena := sk_arena T, sk_nodes := (sk_nodes S)(x \<mapsto> \<lparr>nd_key = key, nd_nexts = replicate h None\<rparr>)\<rparr>"
    and x: "a \<noteq> x" using a(1) by auto
  have "sk_nodes T a = sk_nodes S a" using arg_cong [OF T, of "\<lambda>U. sk_nodes U a"] x by simp
  then show ?thesis by (simp add: node_next_def)
next
  case (w_next j h prev p n x)
  then show ?thesis using a setNext_frame [of S x j n T a i] by (auto simp: noBarrierSetNext_def)
next
  case (w_publish prev j p x h)
  then show ?thesis using a setNext_frame [of S p j x T a i] by auto
qed simp_all

text \<open>A relaxed store goes to a link that no search can reach yet.\<close>

lemma relaxed_private:
  assumes "insert_step os nsz cmp D S w T w'" "list_inv os nsz cmp D S w ns lv" "store_of w w' = Rlx a i"
  shows "\<not> i < lv a"
  using assms(1)
proof (cases rule: insert_step.cases)
  case (w_next j h prev p n x)
  then show ?thesis using list_invD(4) [OF assms(2)] assms(3) by auto
qed (use assms(3) in \<open>auto split: option.splits\<close>)

section \<open>The invariant\<close>

text \<open>From one time to the next the list grows, and a link that a search can reach changes by
  a release store only.\<close>

definition hist_step ::
    "'k skiplist \<Rightarrow> nat list \<Rightarrow> (nat \<Rightarrow> nat) \<Rightarrow> store \<Rightarrow> 'k skiplist \<Rightarrow> nat list \<Rightarrow> (nat \<Rightarrow> nat) \<Rightarrow> bool" where
  "hist_step S ns lv st T ns' lv' \<longleftrightarrow> grows S ns lv T ns' lv'
     \<and> (\<forall>a \<in> set (sk_head S # ns). \<forall>i < lv a.
       st \<noteq> Rlx a i \<and> (st = Rel a i \<or> node_next T a i = node_next S a i))"

definition hist_ok ::
    "('k \<Rightarrow> 'k \<Rightarrow> int) \<Rightarrow> ('k \<Rightarrow> bool) \<Rightarrow> 'k history \<Rightarrow> (nat \<Rightarrow> nat list) \<Rightarrow> (nat \<Rightarrow> nat \<Rightarrow> nat) \<Rightarrow> bool" where
  "hist_ok cmp D H NS LV \<longleftrightarrow> H \<noteq> [] \<and> (\<forall>t < length H. shape cmp D (state_at H t) (NS t) (LV t))
     \<and> (\<forall>t. Suc t < length H \<longrightarrow> hist_step (state_at H t) (NS t) (LV t) (store_at H (Suc t))
          (state_at H (Suc t)) (NS (Suc t)) (LV (Suc t)))"

definition weak_inv ::
    "os \<Rightarrow> nat \<Rightarrow> ('k \<Rightarrow> 'k \<Rightarrow> int) \<Rightarrow> ('k \<Rightarrow> bool) \<Rightarrow> 'k weak \<Rightarrow> (nat \<Rightarrow> nat list) \<Rightarrow> (nat \<Rightarrow> nat \<Rightarrow> nat) \<Rightarrow> bool" where
  "weak_inv os nsz cmp D W NS LV \<longleftrightarrow> hist_ok cmp D (hist W) NS LV
     \<and> list_inv os nsz cmp D (state_at (hist W) (now W)) (ww W) (NS (now W)) (LV (now W))
     \<and> (\<forall>i. wv W i \<le> now W
       \<and> reader_ok cmp D (state_at (hist W) (wv W i)) (NS (wv W i)) (LV (wv W i)) (wr W i))"

lemma now_less: "hist_ok cmp D (hist W) NS LV \<Longrightarrow> t \<le> now W \<longleftrightarrow> t < length (hist W)"
  by (cases "hist W" rule: rev_cases) (auto simp: hist_ok_def now_def)

text \<open>What holds at a time holds at every later one, for what a search could reach then.\<close>

lemma hist_mono:
  assumes "hist_ok cmp D H NS LV" "s \<le> t" "t < length H"
  shows "grows (state_at H s) (NS s) (LV s) (state_at H t) (NS t) (LV t)"
  using assms(2,3)
proof (induction t rule: dec_induct)
  case base
  then show ?case by (simp add: grows_refl)
next
  case (step t)
  have "hist_step (state_at H t) (NS t) (LV t) (store_at H (Suc t)) (state_at H (Suc t)) (NS (Suc t)) (LV (Suc t))"
    using assms(1) step.prems by (simp add: hist_ok_def)
  moreover have "grows (state_at H s) (NS s) (LV s) (state_at H t) (NS t) (LV t)" using step by simp
  ultimately show ?case using grows_trans by (auto simp: hist_step_def)
qed

lemma grows_visible:
  assumes "grows S ns lv T ns' lv'" "x \<in> set (sk_head S # ns)" "l < lv x"
  shows "x \<in> set (sk_head T # ns')" "l < lv' x"
proof -
  show "x \<in> set (sk_head T # ns')" using assms(1,2) by (auto simp: grows_def)
  have "lv x \<le> lv' x" using assms(1,2) unfolding grows_def by blast
  then show "l < lv' x" using assms(3) by simp
qed

lemma hist_ok_append:
  assumes "hist_ok cmp D H NS LV" "n = length H" "shape cmp D S ns lv"
    and "hist_step (state_at H (n - 1)) (NS (n - 1)) (LV (n - 1)) st S ns lv"
  shows "hist_ok cmp D (H @ [(st, S)]) (NS(n := ns)) (LV(n := lv))"
proof -
  have n: "n \<noteq> 0" using assms(1,2) by (simp add: hist_ok_def)
  have old: "state_at (H @ [(st, S)]) t = state_at H t" "store_at (H @ [(st, S)]) t = store_at H t" if "t < n" for t
    using that assms(2) by (simp_all add: state_at_def store_at_def nth_append)
  have new: "state_at (H @ [(st, S)]) n = S" "store_at (H @ [(st, S)]) n = st"
    using assms(2) by (simp_all add: state_at_def store_at_def nth_append)
  have "hist_step (state_at (H @ [(st, S)]) t) ((NS(n := ns)) t) ((LV(n := lv)) t) (store_at (H @ [(st, S)]) (Suc t))
      (state_at (H @ [(st, S)]) (Suc t)) ((NS(n := ns)) (Suc t)) ((LV(n := lv)) (Suc t))" if t: "Suc t < Suc n" for t
  proof (cases "Suc t = n")
    case True
    then show ?thesis using assms(4) old new n by auto
  next
    case False
    then show ?thesis using assms(1,2) old t by (simp add: hist_ok_def)
  qed
  then show ?thesis using assms(1-3) old new by (auto simp: hist_ok_def less_Suc_eq)
qed

section \<open>Loads\<close>

lemma acquired_le: "acquired H x l t \<le> t"
  by (induction t) auto

text \<open>
  The load of a link that the reader can reach. Whatever the time that it reads, afterwards
  its view holds the state in which the link has the value that was read.
\<close>

lemma acquired_fresh:
  assumes ok: "hist_ok cmp D H NS LV" and x: "x \<in> set (sk_head (state_at H s) # NS s)" "l < LV s x"
    and t: "s \<le> t" "t < length H"
  shows "node_next (state_at H (max s (acquired H x l t))) x l = node_next (state_at H t) x l
    \<and> max s (acquired H x l t) \<le> t"
  using t
proof (induction t rule: dec_induct)
  case base
  then show ?case using acquired_le [of H x l s] by (simp add: max_absorb1)
next
  case (step t)
  have m: "x \<in> set (sk_head (state_at H t) # NS t)" "l < LV t x"
    using grows_visible [OF hist_mono [OF ok step(1)] x] step.prems by simp_all
  have "hist_step (state_at H t) (NS t) (LV t) (store_at H (Suc t)) (state_at H (Suc t)) (NS (Suc t)) (LV (Suc t))"
    using ok step.prems by (simp add: hist_ok_def)
  then have st: "store_at H (Suc t) \<noteq> Rlx x l"
    "store_at H (Suc t) = Rel x l \<or> node_next (state_at H (Suc t)) x l = node_next (state_at H t) x l"
    using m unfolding hist_step_def by blast+
  show ?case
  proof (cases "store_at H (Suc t) = Rel x l")
    case True
    then show ?thesis using step(1) by (simp add: max_def)
  next
    case False
    then show ?thesis using st step by auto
  qed
qed

text \<open>So the load is one of that state, in which the reader is in order as well.\<close>

lemma load_acquire_ok:
  assumes ok: "hist_ok cmp D H NS LV" and x: "x \<in> set (sk_head (state_at H s) # NS s)" "l < LV s x"
    and t: "s \<le> t" "t < length H"
  defines "v \<equiv> max s (acquired H x l t)"
  shows "s \<le> v" "v \<le> t" "load_acquire H s x l t = map_option (\<lambda>y. (y, v)) (node_next (state_at H v) x l)"
    "node_next (state_at H v) x l = node_next (state_at H t) x l"
    "shape cmp D (state_at H v) (NS v) (LV v)"
    "grows (state_at H s) (NS s) (LV s) (state_at H v) (NS v) (LV v)"
    "reader_ok cmp D (state_at H s) (NS s) (LV s) r \<Longrightarrow> reader_ok cmp D (state_at H v) (NS v) (LV v) r"
proof -
  show v: "s \<le> v" "v \<le> t" and nx: "node_next (state_at H v) x l = node_next (state_at H t) x l"
    using acquired_fresh [OF ok x t] by (simp_all add: v_def)
  show "load_acquire H s x l t = map_option (\<lambda>y. (y, v)) (node_next (state_at H v) x l)"
    unfolding nx by (cases "node_next (state_at H t) x l") (simp_all add: load_acquire_def v_def)
  show "shape cmp D (state_at H v) (NS v) (LV v)" using ok v t by (simp add: hist_ok_def)
  show m: "grows (state_at H s) (NS s) (LV s) (state_at H v) (NS v) (LV v)"
    using hist_mono [OF ok v(1)] v(2) t(2) by simp
  show "reader_ok cmp D (state_at H v) (NS v) (LV v) r" if "reader_ok cmp D (state_at H s) (NS s) (LV s) r"
    by (rule reader_ok_mono [OF that m])
qed

lemma weak_hist: "weak_inv os nsz cmp D W NS LV \<Longrightarrow> hist_ok cmp D (hist W) NS LV"
  by (simp add: weak_inv_def)

lemma weak_view:
  assumes "weak_inv os nsz cmp D W NS LV"
  shows "wv W i \<le> now W"
    "shape cmp D (state_at (hist W) (wv W i)) (NS (wv W i)) (LV (wv W i))"
    "wr W i = r \<Longrightarrow> reader_ok cmp D (state_at (hist W) (wv W i)) (NS (wv W i)) (LV (wv W i)) r"
  using assms now_less [of cmp D W NS LV "wv W i"] unfolding weak_inv_def hist_ok_def by blast+

context key_order
begin

lemma on_way_assert:
  assumes "shape cmp D S ns lv" "on_way cmp D S ns lv q x l"
  shows "search_assert cmp S q x = Some ()"
  using search_iter_ok [OF assms] by (cases "search_assert cmp S q x") (simp_all add: search_iter_def)

text \<open>One load of a running search, in a state that satisfies the invariant.\<close>

lemma weak_load:
  assumes inv: "weak_inv os nsz cmp D W NS LV" and run: "wr W i = RRun q x l" and t: "wv W i \<le> t" "t \<le> now W"
  obtains v z where "wv W i \<le> v" "v \<le> t" "weak_iter cmp (hist W) q x l (wv W i) t = Some (v, z)"
    "search_iter cmp (state_at (hist W) v) q x l = Some z"
    "shape cmp D (state_at (hist W) v) (NS v) (LV v)"
    "on_way cmp D (state_at (hist W) v) (NS v) (LV v) q x l"
    "node_next (state_at (hist W) v) x l = node_next (state_at (hist W) t) x l"
proof -
  let ?s = "wv W i" and ?H = "hist W"
  note ok = weak_hist [OF inv] and view = weak_view [OF inv, of i]
  have w: "on_way cmp D (state_at ?H ?s) (NS ?s) (LV ?s) q x l" using view(3) [OF run] by simp
  then have x: "x \<in> set (sk_head (state_at ?H ?s) # NS ?s)" "l < LV ?s x" by (auto simp: on_way_def)
  have t': "t < length ?H" using now_less [OF ok] t(2) by simp
  define v where "v = max ?s (acquired ?H x l t)"
  note ld = load_acquire_ok [OF ok x t(1) t', folded v_def]
  have w': "on_way cmp D (state_at ?H v) (NS v) (LV v) q x l" using ld(7) [of "RRun q x l"] w by simp
  obtain z where z: "search_iter cmp (state_at ?H v) q x l = Some z"
    using search_iter_ok [OF ld(5) w'] by (cases "search_iter cmp (state_at ?H v) q x l") auto
  have "weak_iter cmp ?H q x l ?s t = map_option (Pair v) (search_iter cmp (state_at ?H v) q x l)"
    unfolding weak_iter_def search_iter_def ld(3) on_way_assert [OF view(2) w] on_way_assert [OF ld(5) w']
    by (auto split: bind_splits)
  then show thesis using that [of v z] ld(1,2,4,5) w' z by simp
qed

text \<open>The load of \<open>next\<close> and \<open>seekToFirst\<close>: no key of the view is skipped.\<close>

lemma weak_next:
  assumes inv: "weak_inv os nsz cmp D W NS LV" and t: "wv W i \<le> t" "t \<le> now W"
    and x: "x = sk_head (state_at (hist W) (wv W i)) \<or> x \<in> set (NS (wv W i))"
  obtains v y where "wv W i \<le> v" "v \<le> t" "load_acquire (hist W) (wv W i) x 0 t = Some (y, v)"
    "node_next (state_at (hist W) v) x 0 = Some y" "y = 0 \<or> y \<in> set (NS v)"
    "shape cmp D (state_at (hist W) v) (NS v) (LV v)"
    "node_next (state_at (hist W) t) x 0 = Some y"
    "grows (state_at (hist W) (wv W i)) (NS (wv W i)) (LV (wv W i)) (state_at (hist W) v) (NS v) (LV v)"
proof -
  let ?s = "wv W i" and ?H = "hist W"
  note ok = weak_hist [OF inv] and view = weak_view [OF inv, of i]
  have x': "x \<in> set (sk_head (state_at ?H ?s) # NS ?s)" "0 < LV ?s x"
    using x shapeD(6) [OF view(2)] shapeD(7) [OF view(2), of x] by auto
  have t': "t < length ?H" using now_less [OF ok] t(2) by simp
  note ld = load_acquire_ok [OF ok x' t(1) t']
  define v where "v = max ?s (acquired ?H x 0 t)"
  note ld = ld [folded v_def]
  have "x = sk_head (state_at ?H v) \<or> x \<in> set (NS v)" using x ld(6) by (auto simp: grows_def)
  then obtain y where "node_next (state_at ?H v) x 0 = Some y" "y = 0 \<or> y \<in> set (NS v)"
    using bottom_next [OF ld(5)] by metis
  then show thesis using that [of v y] ld by simp
qed

section \<open>Executions\<close>

lemma writer_inv:
  assumes inv: "weak_inv os nsz cmp D W NS LV"
    and st: "insert_step os nsz cmp D (state_at (hist W) (now W)) (ww W) S w"
  shows "\<exists>NS' LV'. weak_inv os nsz cmp D (W\<lparr>hist := hist W @ [(store_of (ww W) w, S)], ww := w\<rparr>) NS' LV'
    \<and> (\<forall>t \<le> now W. NS' t = NS t \<and> LV' t = LV t)"
proof -
  let ?S = "state_at (hist W) (now W)" and ?n = "length (hist W)" and ?H = "hist W @ [(store_of (ww W) w, S)]"
  have ok: "hist_ok cmp D (hist W) NS LV" and li: "list_inv os nsz cmp D ?S (ww W) (NS (now W)) (LV (now W))"
    using inv by (simp_all add: weak_inv_def)
  obtain ns lv where li': "list_inv os nsz cmp D S w ns lv"
    and g: "grows ?S (NS (now W)) (LV (now W)) S ns lv" using insert_step_inv [OF st li] by blast
  have "hist_step ?S (NS (now W)) (LV (now W)) (store_of (ww W) w) S ns lv"
    unfolding hist_step_def
    using g store_frame [OF st li] relaxed_private [OF st li] shapeD(3) [OF list_invD(1) [OF li]] by blast
  then have "hist_ok cmp D ?H (NS(?n := ns)) (LV(?n := lv))"
    by (intro hist_ok_append [OF ok]) (simp_all add: now_def list_invD(1) [OF li'])
  moreover have "state_at ?H ?n = S" by (simp add: state_at_def)
  moreover have "wv W i \<noteq> ?n" "wv W i \<le> ?n" "state_at ?H (wv W i) = state_at (hist W) (wv W i)" for i
  proof -
    have "wv W i < ?n" using inv now_less [OF ok] by (simp add: weak_inv_def)
    then show "wv W i \<noteq> ?n" "wv W i \<le> ?n" "state_at ?H (wv W i) = state_at (hist W) (wv W i)"
      by (simp_all add: state_at_def nth_append)
  qed
  ultimately have "weak_inv os nsz cmp D (W\<lparr>hist := ?H, ww := w\<rparr>) (NS(?n := ns)) (LV(?n := lv))"
    using inv li' by (simp add: weak_inv_def now_def del: reader_ok.simps)
  moreover have "t \<noteq> ?n" if "t \<le> now W" for t using that now_less [OF ok] by simp
  ultimately show ?thesis by (intro exI [of _ "NS(?n := ns)"] exI [of _ "LV(?n := lv)"]) simp
qed

lemma view_inv:
  assumes inv: "weak_inv os nsz cmp D W NS LV" and v: "v \<le> now W"
    and r: "reader_ok cmp D (state_at (hist W) v) (NS v) (LV v) r"
  shows "weak_inv os nsz cmp D (W\<lparr>wr := (wr W)(i := r), wv := (wv W)(i := v)\<rparr>) NS LV"
  using assms by (simp add: weak_inv_def now_def del: reader_ok.simps)

lemma load_inv:
  assumes inv: "weak_inv os nsz cmp D W NS LV" and run: "wr W i = RRun q x l" and t: "wv W i \<le> t" "t \<le> now W"
    and it: "weak_iter cmp (hist W) q x l (wv W i) t = Some (v, z)"
  shows "weak_inv os nsz cmp D
    (W\<lparr>wr := (wr W)(i := after_load (state_at (hist W) v) q z), wv := (wv W)(i := v)\<rparr>) NS LV"
proof -
  obtain v' z' where v: "v' \<le> t" "weak_iter cmp (hist W) q x l (wv W i) t = Some (v', z')"
    "search_iter cmp (state_at (hist W) v') q x l = Some z'" "shape cmp D (state_at (hist W) v') (NS v') (LV v')"
    "on_way cmp D (state_at (hist W) v') (NS v') (LV v') q x l"
    using weak_load [OF inv run t] by metis
  have eq: "v' = v" "z' = z" using v(2) it by simp_all
  have "reader_ok cmp D (state_at (hist W) v) (NS v) (LV v) (after_load (state_at (hist W) v) q z)"
    using search_iter_ok [OF v(4,5)] v(3) eq by (cases z) auto
  then show ?thesis using view_inv [OF inv, of v] v(1) t(2) eq by simp
qed

lemma next_inv:
  assumes inv: "weak_inv os nsz cmp D W NS LV" and t: "wv W i \<le> t" "t \<le> now W"
    and x: "x = sk_head (state_at (hist W) (wv W i)) \<or> x \<in> set (NS (wv W i))"
    and ld: "load_acquire (hist W) (wv W i) x 0 t = Some (y, v)"
  shows "weak_inv os nsz cmp D (W\<lparr>wr := (wr W)(i := RAt y), wv := (wv W)(i := v)\<rparr>) NS LV"
  using weak_next [OF inv t x] ld view_inv [OF inv, of v "RAt y"] t(2) by (metis Pair_inject le_trans option.inject reader_ok.simps(2))

lemma weak_step_inv:
  assumes "weak_step os nsz cmp D W W'" "weak_inv os nsz cmp D W NS LV"
  shows "\<exists>NS' LV'. weak_inv os nsz cmp D W' NS' LV' \<and> (\<forall>t \<le> now W. NS' t = NS t \<and> LV' t = LV t)"
  using assms(1)
proof (cases rule: weak_step.cases)
  case (ws_write S w)
  then show ?thesis using writer_inv [OF assms(2)] by simp
next
  case (ws_sync i v)
  note ok = weak_hist [OF assms(2)] and view = weak_view [OF assms(2), of i]
  have v: "v < length (hist W)" using ws_sync now_less [OF ok] by auto
  have "reader_ok cmp D (state_at (hist W) v) (NS v) (LV v) (wr W i)"
    by (rule reader_ok_mono [OF view(3) [OF refl] hist_mono [OF ok ws_sync(3) v]])
  then have "weak_inv os nsz cmp D (W\<lparr>wr := (wr W)(i := wr W i), wv := (wv W)(i := v)\<rparr>) NS LV"
    using view_inv [OF assms(2)] ws_sync by blast
  then show ?thesis using ws_sync(1) by auto
next
  case (ws_start i q t)
  note ok = weak_hist [OF assms(2)] and view = weak_view [OF assms(2), of i]
  have "t < length (hist W)" using ws_start now_less [OF ok] by auto
  then have sh: "shape cmp D (state_at (hist W) t) (NS t) (LV t)" using ok by (simp add: hist_ok_def)
  have "reader_ok cmp D (state_at (hist W) (wv W i)) (NS (wv W i)) (LV (wv W i))
      (RRun q (sk_head (state_at (hist W) (wv W i))) (getMaxHeight (state_at (hist W) t) - 1))"
    using on_way_start [OF view(2) ws_start(3) shapeD(4,5) [OF sh]] by (simp add: getMaxHeight_def)
  from view_inv [OF assms(2) view(1) this, of i] show ?thesis using ws_start(1) by (auto simp: fun_upd_idem)
next
  case (ws_load i q x level t v z)
  then show ?thesis using load_inv [OF assms(2) ws_load(2-5)] by blast
next
  case (ws_next i x t y v)
  have "x \<in> set (NS (wv W i))" using weak_view(3) [OF assms(2) ws_next(2)] ws_next(3) by simp
  then show ?thesis using next_inv [OF assms(2) ws_next(4,5) _ ws_next(6)] ws_next(1) by blast
next
  case (ws_first i t y v)
  then show ?thesis using next_inv [OF assms(2) ws_first(3,4) _ ws_first(5)] by blast
qed

lemma weak_steps_inv:
  assumes "(weak_step os nsz cmp D)\<^sup>*\<^sup>* W W'" "weak_inv os nsz cmp D W NS LV"
  shows "\<exists>NS' LV'. weak_inv os nsz cmp D W' NS' LV'"
  using assms by (induction rule: rtranclp_induct) (use weak_step_inv in blast)+

end

lemma weak_init_inv:
  assumes "sk_inv os nsz cmp D S ns"
  shows "weak_inv os nsz cmp D (weak_init S) (\<lambda>_. ns) (\<lambda>_. height_of S)"
  using assms
  by (simp add: weak_inv_def weak_init_def hist_ok_def state_at_def now_def list_inv_def sk_inv_def)

text \<open>The past does not change and views only move forward.\<close>

lemma weak_step_past:
  assumes "weak_step os nsz cmp D W W'"
  shows "prefix (hist W) (hist W') \<and> wv W i \<le> wv W' i"
  using assms
  by (cases rule: weak_step.cases) (auto simp: weak_iter_def load_acquire_def split: bind_splits prod.splits)

lemma weak_steps_past:
  assumes "(weak_step os nsz cmp D)\<^sup>*\<^sup>* W W'"
  shows "prefix (hist W) (hist W') \<and> wv W i \<le> wv W' i"
  using assms
proof (induction rule: rtranclp_induct)
  case (step W1 W2)
  then show ?case using weak_step_past [of os nsz cmp D W1 W2 i] by (auto intro: prefix_order.trans)
qed simp

lemma prefix_state_at: "prefix H H' \<Longrightarrow> t < length H \<Longrightarrow> state_at H' t = state_at H t"
  by (auto simp: prefix_def state_at_def nth_append)

end
