(* ===== verification/KV_SkipWeak.thy ===== *)
theory KV_SkipWeak
  imports KV_SkipMem
begin

text \<open>
  The operations of the readers of src/database/skiplist.h under the memory orders of its
  links (the model of KV_SkipMem): single loads, whole searches, scans, and the comparison
  with the interleaving model of KV_SkipConc.
\<close>

section \<open>Searches\<close>

context key_order
begin

text \<open>A load of the last value written makes the step of the interleaving model.\<close>

lemma weak_load_last:
  assumes inv: "weak_inv os nsz cmp D W NS LV" and run: "wr W i = RRun q x l"
    and z: "search_iter cmp (state_at (hist W) (now W)) q x l = Some z"
  shows "\<exists>v. weak_iter cmp (hist W) q x l (wv W i) (now W) = Some (v, z)"
proof -
  let ?T = "state_at (hist W) (now W)"
  note ok = weak_hist [OF inv] and view = weak_view [OF inv, of i]
  obtain v z' where v: "v \<le> now W" "weak_iter cmp (hist W) q x l (wv W i) (now W) = Some (v, z')"
    "search_iter cmp (state_at (hist W) v) q x l = Some z'" "shape cmp D (state_at (hist W) v) (NS v) (LV v)"
    "on_way cmp D (state_at (hist W) v) (NS v) (LV v) q x l"
    "node_next (state_at (hist W) v) x l = node_next ?T x l"
    using weak_load [OF inv run view(1) order_refl] by metis
  let ?S = "state_at (hist W) v"
  have shT: "shape cmp D ?T (NS (now W)) (LV (now W))"
    using ok now_less [OF ok, of "now W"] by (simp add: hist_ok_def)
  have m: "grows ?S (NS v) (LV v) ?T (NS (now W)) (LV (now W))"
    using hist_mono [OF ok v(1)] now_less [OF ok, of "now W"] by simp
  have w: "on_way cmp D ?T (NS (now W)) (LV (now W)) q x l"
    using reader_ok_mono [of cmp D ?S "NS v" "LV v" "RRun q x l", OF _ m] v(5) by simp
  obtain y where y: "node_next ?S x l = Some y" "y = 0 \<or> y \<in> set (NS v)"
    using next_reachable [OF v(4), of x l] v(5) by (auto simp: on_way_def)
  have "search_after cmp ?T q y = search_after cmp ?S q y"
    using y(2) m shape_node_key [OF v(4), of y] shape_node_key [OF shT, of y]
    by (cases q) (auto simp: keyIsAfterNode_def grows_def)
  moreover have "node_next ?T x l = Some y" using v(6) y(1) by simp
  ultimately have "search_iter cmp ?T q x l = search_iter cmp ?S q x l"
    using y(1) by (simp add: search_iter_def on_way_assert [OF v(4,5)] on_way_assert [OF shT w])
  then show ?thesis using v(2,3) z by auto
qed

lemma weak_next_last:
  assumes inv: "weak_inv os nsz cmp D W NS LV"
    and x: "x = sk_head (state_at (hist W) (wv W i)) \<or> x \<in> set (NS (wv W i))"
    and y: "node_next (state_at (hist W) (now W)) x 0 = Some y"
  shows "\<exists>v. load_acquire (hist W) (wv W i) x 0 (now W) = Some (y, v)"
  using weak_next [OF inv weak_view(1) [OF inv] order_refl x] y by (metis option.inject)

end

text \<open>The steps of a running search, and how far it is from its end.\<close>

inductive reader_load :: "('k \<Rightarrow> 'k \<Rightarrow> int) \<Rightarrow> nat \<Rightarrow> 'k weak \<Rightarrow> 'k weak \<Rightarrow> bool"
  for cmp :: "'k \<Rightarrow> 'k \<Rightarrow> int" and i :: nat where
  "wr W i = RRun q x l \<Longrightarrow> wv W i \<le> t \<Longrightarrow> t \<le> now W \<Longrightarrow>
     weak_iter cmp (hist W) q x l (wv W i) t = Some (v, z) \<Longrightarrow>
     reader_load cmp i W (W\<lparr>wr := (wr W)(i := after_load (state_at (hist W) v) q z), wv := (wv W)(i := v)\<rparr>)"

lemma reader_load_step: "reader_load cmp i W W' \<Longrightarrow> weak_step os nsz cmp D W W'"
  by (erule reader_load.cases) (auto intro: weak_step.ws_load)

definition distance :: "('k \<Rightarrow> 'k \<Rightarrow> int) \<Rightarrow> 'k weak \<Rightarrow> nat list \<Rightarrow> nat \<Rightarrow> nat \<Rightarrow> nat" where
  "distance cmp W ns x l = l + card (ahead cmp (state_at (hist W) (now W)) ns x)"

definition same_as :: "'k weak \<Rightarrow> 'k conc \<Rightarrow> bool" where
  "same_as W C \<longleftrightarrow> state_at (hist W) (now W) = cs C \<and> ww W = cw C \<and> wr W = cr C"

lemma insert_trace_weak:
  assumes "insert_trace os nsz cmp D (S, w) (T, w')" "state_at (hist W) (now W) = S" "ww W = w" "hist W \<noteq> []"
  shows "\<exists>W'. (weak_step os nsz cmp D)\<^sup>*\<^sup>* W W' \<and> state_at (hist W') (now W') = T \<and> ww W' = w'
    \<and> wr W' = wr W \<and> wv W' = wv W"
  using assms(1)
proof (induction rule: rtranclp_induct2)
  case refl
  then show ?case using assms(2,3) by blast
next
  case (step S1 w1 S2 w2)
  then obtain W1 where W1: "(weak_step os nsz cmp D)\<^sup>*\<^sup>* W W1" "state_at (hist W1) (now W1) = S1" "ww W1 = w1"
    "wr W1 = wr W" "wv W1 = wv W" by blast
  let ?W = "W1\<lparr>hist := hist W1 @ [(store_of w1 w2, S2)], ww := w2\<rparr>"
  have "weak_step os nsz cmp D W1 ?W" using weak_step.ws_write [of os nsz cmp D W1 S2 w2] step.hyps(2) W1(2,3) by simp
  then have "(weak_step os nsz cmp D)\<^sup>*\<^sup>* W ?W" using W1(1) by simp
  then show ?case using W1(4,5) by (intro exI [of _ ?W]) (simp add: state_at_def now_def)
qed

context key_order
begin

text \<open>Every step of the interleaving model is a step here in which all loads read the last value.\<close>

lemma conc_step_is_weak:
  assumes st: "conc_step os nsz cmp D C C'" and inv: "weak_inv os nsz cmp D W NS LV" and eq: "same_as W C"
  shows "\<exists>W'. weak_step os nsz cmp D W W' \<and> same_as W' C'"
proof -
  have W: "state_at (hist W) (now W) = cs C" "ww W = cw C" "wr W = cr C" using eq by (simp_all add: same_as_def)
  note ok = weak_hist [OF inv] and view = weak_view [OF inv]
  have hd: "sk_head (state_at (hist W) v) = sk_head (cs C)" if "v \<le> now W" for v
    using hist_mono [OF ok that] now_less [OF ok, of "now W"] W(1) by (simp add: grows_def)
  from st show ?thesis
  proof (cases rule: conc_step.cases)
    case (c_write S w)
    then have "weak_step os nsz cmp D W (W\<lparr>hist := hist W @ [(store_of (ww W) w, S)], ww := w\<rparr>)"
      using weak_step.ws_write W by metis
    then show ?thesis using c_write(1) W by (force simp: same_as_def now_def state_at_def)
  next
    case (r_start i q)
    then have "at_rest (wr W i)" using W by simp
    from weak_step.ws_start [OF this r_start(3) view(1) order_refl]
    show ?thesis using r_start(1) W hd [OF view(1)] by (force simp: same_as_def now_def)
  next
    case (r_move i q x level x' level')
    have run: "wr W i = RRun q x level" using r_move(2) W by simp
    obtain v where "weak_iter cmp (hist W) q x level (wv W i) (now W) = Some (v, Inl (x', level'))"
      using weak_load_last [OF inv run] r_move(3) W by auto
    from weak_step.ws_load [OF run view(1) order_refl this]
    show ?thesis using r_move(1) W by (force simp: same_as_def now_def)
  next
    case (r_done i q x level r)
    have run: "wr W i = RRun q x level" using r_done(2) W by simp
    obtain v where v: "weak_iter cmp (hist W) q x level (wv W i) (now W) = Some (v, Inr r)"
      using weak_load_last [OF inv run] r_done(3) W by auto
    have "v \<le> now W" using weak_view(1) [OF load_inv [OF inv run view(1) order_refl v], of i] by (simp add: now_def)
    then have "iter_pos (state_at (hist W) v) q r = iter_pos (cs C) q r" using hd by (cases q) simp_all
    then show ?thesis using weak_step.ws_load [OF run view(1) order_refl v] r_done(1) W
      by (force simp: same_as_def now_def)
  next
    case (r_next i x y)
    have at: "wr W i = RAt x" using r_next(2) W by simp
    then have "x \<in> set (NS (wv W i))" using view(3) [OF at] r_next(3) by simp
    then obtain v where "load_acquire (hist W) (wv W i) x 0 (now W) = Some (y, v)"
      using weak_next_last [OF inv] r_next(4) W by metis
    from weak_step.ws_next [OF at r_next(3) view(1) order_refl this]
    show ?thesis using r_next(1) W by (force simp: same_as_def now_def)
  next
    case (r_first i y)
    then have at: "at_rest (wr W i)" using W by simp
    obtain v where "load_acquire (hist W) (wv W i) (sk_head (state_at (hist W) (wv W i))) 0 (now W) = Some (y, v)"
      using weak_next_last [OF inv disjI1 [OF refl]] r_first(3) W hd [OF view(1)] by metis
    from weak_step.ws_first [OF at view(1) order_refl this]
    show ?thesis using r_first(1) W by (force simp: same_as_def now_def)
  qed
qed

lemma distance_decreases:
  assumes inv: "weak_inv os nsz cmp D W NS LV" and run: "wr W i = RRun q x l" and t: "wv W i \<le> t" "t \<le> now W"
    and it: "weak_iter cmp (hist W) q x l (wv W i) t = Some (v, Inl (x', l'))"
  shows "distance cmp W (NS (now W)) x' l' < distance cmp W (NS (now W)) x l"
proof -
  let ?T = "state_at (hist W) (now W)" and ?ns = "NS (now W)"
  obtain v' z where v: "v' \<le> t" "weak_iter cmp (hist W) q x l (wv W i) t = Some (v', z)"
    "search_iter cmp (state_at (hist W) v') q x l = Some z" "shape cmp D (state_at (hist W) v') (NS v') (LV v')"
    "on_way cmp D (state_at (hist W) v') (NS v') (LV v') q x l"
    using weak_load [OF inv run t] by metis
  let ?S = "state_at (hist W) v'"
  note ok = weak_hist [OF inv]
  have shT: "shape cmp D ?T ?ns (LV (now W))" using ok now_less [OF ok, of "now W"] by (simp add: hist_ok_def)
  have g: "grows ?S (NS v') (LV v') ?T ?ns (LV (now W))"
    using hist_mono [OF ok, of v' "now W"] v(1) t(2) now_less [OF ok, of "now W"] by simp
  have "l' < l \<and> x' = x \<or> l' = l \<and> x' \<in> set (NS v') \<and> (x = sk_head ?S \<or> cmp (keyof ?S x) (keyof ?S x') < 0)"
    using search_iter_ok [OF v(4,5)] v(2,3) it by auto
  moreover have "x = sk_head ?S \<or> x \<in> set (NS v')" using v(5) by (auto simp: on_way_def)
  ultimately show ?thesis
    using ahead_decreases [OF shT, of x x'] g by (auto simp: distance_def grows_def subset_iff)
qed

lemma loads_bounded:
  assumes "weak_inv os nsz cmp D W NS LV" "wr W i = RRun q x l" "(reader_load cmp i ^^ n) W W'"
  shows "n \<le> distance cmp W (NS (now W)) x l + 1"
  using assms
proof (induction n arbitrary: W x l)
  case (Suc n)
  obtain W1 where W1: "reader_load cmp i W W1" "(reader_load cmp i ^^ n) W1 W'"
    using Suc.prems(3) by (meson relpowp_Suc_D2)
  obtain t v z where t: "wv W i \<le> t" "t \<le> now W" and z: "weak_iter cmp (hist W) q x l (wv W i) t = Some (v, z)"
    and eq: "W1 = W\<lparr>wr := (wr W)(i := after_load (state_at (hist W) v) q z), wv := (wv W)(i := v)\<rparr>"
    using W1(1) Suc.prems(2) by (cases rule: reader_load.cases) auto
  show ?case
  proof (cases z)
    case (Inl p)
    obtain x' l' where p: "p = (x', l')" by (cases p)
    have run: "wr W1 i = RRun q x' l'" and inv: "weak_inv os nsz cmp D W1 NS LV"
      using load_inv [OF Suc.prems(1,2) t z] eq Inl p by simp_all
    have "distance cmp W (NS (now W)) x' l' < distance cmp W (NS (now W)) x l"
      using distance_decreases [OF Suc.prems(1,2) t] z Inl p by simp
    moreover have "n \<le> distance cmp W (NS (now W)) x' l' + 1"
      using Suc.IH [OF inv run W1(2)] eq by (simp add: distance_def now_def)
    ultimately show ?thesis by simp
  next
    case (Inr y)
    have "n = 0"
    proof (cases n)
      case (Suc m)
      then obtain W2 where "reader_load cmp i W1 W2" using W1(2) by (meson relpowp_Suc_D2)
      then show ?thesis using eq Inr by (cases rule: reader_load.cases) simp
    qed
    then show ?thesis by simp
  qed
qed simp

lemma search_returns:
  assumes "weak_inv os nsz cmp D W NS LV" "wr W i = RRun q x l"
  shows "\<exists>W' x' l' v r. (weak_step os nsz cmp D)\<^sup>*\<^sup>* W W' \<and> hist W' = hist W
    \<and> wr W' i = RRun q x' l' \<and> wv W' i \<le> now W'
    \<and> weak_iter cmp (hist W') q x' l' (wv W' i) (now W') = Some (v, Inr r)"
  using assms
proof (induction "distance cmp W (NS (now W)) x l" arbitrary: W x l rule: less_induct)
  case less
  note le = weak_view(1) [OF less.prems(1), of i]
  obtain v z where z: "weak_iter cmp (hist W) q x l (wv W i) (now W) = Some (v, z)"
    using weak_load [OF less.prems le order_refl] by metis
  show ?case
  proof (cases z)
    case (Inl p)
    obtain x' l' where p: "p = (x', l')" by (cases p)
    let ?W = "W\<lparr>wr := (wr W)(i := RRun q x' l'), wv := (wv W)(i := v)\<rparr>"
    have st: "weak_step os nsz cmp D W ?W" using weak_step.ws_load [OF less.prems(2) le order_refl z] Inl p by simp
    have "weak_inv os nsz cmp D ?W NS LV" using load_inv [OF less.prems le order_refl z] Inl p by simp
    moreover have "distance cmp ?W (NS (now ?W)) x' l' < distance cmp W (NS (now W)) x l"
      using distance_decreases [OF less.prems le order_refl] z Inl p by (simp add: distance_def now_def)
    ultimately obtain W' x'' l'' v' r where "(weak_step os nsz cmp D)\<^sup>*\<^sup>* ?W W'" "hist W' = hist W" "wr W' i = RRun q x'' l''"
      "wv W' i \<le> now W'" "weak_iter cmp (hist W') q x'' l'' (wv W' i) (now W') = Some (v', Inr r)"
      using less.hyps [of ?W x' l'] by auto
    then show ?thesis using st by (blast intro: converse_rtranclp_into_rtranclp)
  next
    case (Inr r)
    then show ?thesis using less.prems(2) le z by blast
  qed
qed

end

section \<open>Scans\<close>

text \<open>
  A thread scans the list, \<open>seekToFirst\<close> or \<open>seek\<close>, of which this is the last load, and then
  \<open>next\<close>, while other threads go on.
\<close>

inductive weak_scan ::
    "os \<Rightarrow> nat \<Rightarrow> ('k \<Rightarrow> 'k \<Rightarrow> int) \<Rightarrow> ('k \<Rightarrow> bool) \<Rightarrow> nat \<Rightarrow> 'k weak \<Rightarrow> 'k option \<Rightarrow> nat list \<Rightarrow> 'k weak \<Rightarrow> bool"
  for os :: os and nsz :: nat and cmp :: "'k \<Rightarrow> 'k \<Rightarrow> int" and D :: "'k \<Rightarrow> bool" and i :: nat and W :: "'k weak"
where
  scan_first: "at_rest (wr W i) \<Longrightarrow> wv W i \<le> t \<Longrightarrow> t \<le> now W \<Longrightarrow>
     load_acquire (hist W) (wv W i) (sk_head (state_at (hist W) (wv W i))) 0 t = Some (y, v) \<Longrightarrow>
     weak_scan os nsz cmp D i W None (met [] y) (W\<lparr>wr := (wr W)(i := RAt y), wv := (wv W)(i := v)\<rparr>)"
| scan_seek: "wr W i = RRun (GreaterOrEqual k0) x level \<Longrightarrow> wv W i \<le> t \<Longrightarrow> t \<le> now W \<Longrightarrow>
     weak_iter cmp (hist W) (GreaterOrEqual k0) x level (wv W i) t = Some (v, Inr y) \<Longrightarrow>
     weak_scan os nsz cmp D i W (Some k0) (met [] y) (W\<lparr>wr := (wr W)(i := RAt y), wv := (wv W)(i := v)\<rparr>)"
| scan_next: "weak_scan os nsz cmp D i W st ys V \<Longrightarrow> wr V i = RAt x \<Longrightarrow> x \<noteq> 0 \<Longrightarrow>
     wv V i \<le> t \<Longrightarrow> t \<le> now V \<Longrightarrow> load_acquire (hist V) (wv V i) x 0 t = Some (y, v) \<Longrightarrow>
     weak_scan os nsz cmp D i W st (met ys y) (V\<lparr>wr := (wr V)(i := RAt y), wv := (wv V)(i := v)\<rparr>)"
| scan_other: "weak_scan os nsz cmp D i W st ys V \<Longrightarrow> weak_step os nsz cmp D V V' \<Longrightarrow> wr V' i = wr V i \<Longrightarrow>
     weak_scan os nsz cmp D i W st ys V'"

definition scan_at ::
    "os \<Rightarrow> nat \<Rightarrow> ('k \<Rightarrow> 'k \<Rightarrow> int) \<Rightarrow> ('k \<Rightarrow> bool) \<Rightarrow> nat \<Rightarrow> 'k option \<Rightarrow> ('k \<Rightarrow> bool) \<Rightarrow> nat list \<Rightarrow> 'k weak \<Rightarrow> bool" where
  "scan_at os nsz cmp D i st K ys V \<longleftrightarrow> (\<exists>NS LV x. weak_inv os nsz cmp D V NS LV \<and> wr V i = RAt x
    \<and> scan_ok cmp (state_at (hist V) (wv V i)) (NS (wv V i)) st K ys x)"

lemma seek_step:
  assumes "wr W i = RRun (GreaterOrEqual k0) x level" "wv W i \<le> t" "t \<le> now W"
    "weak_iter cmp (hist W) (GreaterOrEqual k0) x level (wv W i) t = Some (v, Inr y)"
  shows "weak_step os nsz cmp D W (W\<lparr>wr := (wr W)(i := RAt y), wv := (wv W)(i := v)\<rparr>)"
  using weak_step.ws_load [OF assms] by simp

lemma weak_scan_steps: "weak_scan os nsz cmp D i W st ys V \<Longrightarrow> (weak_step os nsz cmp D)\<^sup>*\<^sup>* W V"
proof (induction rule: weak_scan.induct)
  case (scan_first t y v)
  then show ?case by (blast intro: weak_step.ws_first)
next
  case (scan_seek k0 x level t v y)
  then show ?case by (blast intro: seek_step)
next
  case (scan_next st ys V x t y v)
  then show ?case by (blast intro: weak_step.ws_next rtranclp.rtrancl_into_rtrancl)
next
  case (scan_other st ys V V')
  then show ?case by (blast intro: rtranclp.rtrancl_into_rtrancl)
qed

context key_order
begin

lemma key_in_view:
  assumes ok: "hist_ok cmp D H NS LV" and t: "s \<le> v" "v < length H"
    and k: "D k" "contains cmp (state_at H s) k = Some True"
  shows "\<exists>a \<in> set (NS v). cmp k (keyof (state_at H v) a) = 0"
proof -
  have "shape cmp D (state_at H s) (NS s) (LV s)" using ok t by (simp add: hist_ok_def)
  then obtain a where "a \<in> set (NS s)" "cmp k (keyof (state_at H s) a) = 0"
    using contains_shape k by auto
  then show ?thesis using hist_mono [OF ok t] by (intro bexI [of _ a]) (auto simp: grows_def)
qed

text \<open>What a thread's view has, every later state has.\<close>

lemma view_contains:
  assumes inv0: "weak_inv os nsz cmp D W0 NS0 LV0" and st: "(weak_step os nsz cmp D)\<^sup>*\<^sup>* W0 W"
    and inv: "weak_inv os nsz cmp D W NS LV" and v: "wv W i \<le> v" "v \<le> now W"
    and k: "D k" "contains cmp (state_at (hist W0) (wv W0 i)) k = Some True"
  shows "\<exists>a \<in> set (NS v). cmp k (keyof (state_at (hist W) v) a) = 0" "contains cmp (state_at (hist W) v) k = Some True"
proof -
  have "wv W0 i < length (hist W0)" using weak_view(1) [OF inv0] now_less [OF weak_hist [OF inv0]] by simp
  then have w: "state_at (hist W) (wv W0 i) = state_at (hist W0) (wv W0 i)" "wv W0 i \<le> v" "v < length (hist W)"
    using weak_steps_past [OF st, of i] prefix_state_at v now_less [OF weak_hist [OF inv]]
    by (auto intro: le_trans)
  then show ex: "\<exists>a \<in> set (NS v). cmp k (keyof (state_at (hist W) v) a) = 0"
    using key_in_view [OF weak_hist [OF inv] _ _ k(1)] k(2) by simp
  have "shape cmp D (state_at (hist W) v) (NS v) (LV v)" using weak_hist [OF inv] w(3) by (simp add: hist_ok_def)
  then show "contains cmp (state_at (hist W) v) k = Some True" using contains_shape [OF _ k(1)] ex by simp
qed

text \<open>The last load of a search: it returns what the search returns alone in the state that it read.\<close>

lemma weak_answer:
  assumes inv: "weak_inv os nsz cmp D W NS LV" and run: "wr W i = RRun q x l" and t: "wv W i \<le> t" "t \<le> now W"
    and it: "weak_iter cmp (hist W) q x l (wv W i) t = Some (v, Inr r)"
  shows "wv W i \<le> v" "v \<le> now W" "v < length (hist W)" "search_ok D q"
    "shape cmp D (state_at (hist W) v) (NS v) (LV v)" "search_run cmp (state_at (hist W) v) q = Some r"
proof -
  obtain v' z where w: "wv W i \<le> v'" "v' \<le> t" "weak_iter cmp (hist W) q x l (wv W i) t = Some (v', z)"
    "search_iter cmp (state_at (hist W) v') q x l = Some z" "shape cmp D (state_at (hist W) v') (NS v') (LV v')"
    "on_way cmp D (state_at (hist W) v') (NS v') (LV v') q x l"
    using weak_load [OF inv run t] by metis
  have eq: "v' = v" "z = Inr r" using w(3) it by simp_all
  show "wv W i \<le> v" "v \<le> now W" "v < length (hist W)"
    using w(1,2) t(2) now_less [OF weak_hist [OF inv]] eq by auto
  show "search_ok D q" using w(6) by (simp add: on_way_def)
  show "shape cmp D (state_at (hist W) v) (NS v) (LV v)" using w(5) unfolding eq .
  show "search_run cmp (state_at (hist W) v) q = Some r" using search_iter_ok [OF w(5,6)] w(4) unfolding eq by simp
qed

text \<open>What an acquire load of a bottom link returns, at a node of the thread's view.\<close>

lemma next_loaded:
  assumes inv: "weak_inv os nsz cmp D W NS LV" and t: "wv W i \<le> t" "t \<le> now W"
    and x: "x = sk_head (state_at (hist W) (wv W i)) \<or> x \<in> set (NS (wv W i))"
    and ld: "load_acquire (hist W) (wv W i) x 0 t = Some (y, v)"
  shows "wv W i \<le> v" "v < length (hist W)" "node_next (state_at (hist W) v) x 0 = Some y"
    "shape cmp D (state_at (hist W) v) (NS v) (LV v)"
    "grows (state_at (hist W) (wv W i)) (NS (wv W i)) (LV (wv W i)) (state_at (hist W) v) (NS v) (LV v)"
proof -
  obtain v' y' where v: "wv W i \<le> v'" "v' \<le> t" "load_acquire (hist W) (wv W i) x 0 t = Some (y', v')"
    "node_next (state_at (hist W) v') x 0 = Some y'" "shape cmp D (state_at (hist W) v') (NS v') (LV v')"
    "grows (state_at (hist W) (wv W i)) (NS (wv W i)) (LV (wv W i)) (state_at (hist W) v') (NS v') (LV v')"
    using weak_next [OF inv t x] by metis
  have eq: "v' = v" "y' = y" using v(3) ld by simp_all
  show "wv W i \<le> v" "node_next (state_at (hist W) v) x 0 = Some y" "shape cmp D (state_at (hist W) v) (NS v) (LV v)"
    "grows (state_at (hist W) (wv W i)) (NS (wv W i)) (LV (wv W i)) (state_at (hist W) v) (NS v) (LV v)"
    using v unfolding eq by blast+
  show "v < length (hist W)" using v(2) t(2) eq now_less [OF weak_hist [OF inv]] by simp
qed

text \<open>The scan is at a node of its view and has met every key of \<open>K\<close> up to there; the three ways it goes on.\<close>

lemma scan_at_first:
  assumes inv: "weak_inv os nsz cmp D W NS LV" and t: "wv W i \<le> t" "t \<le> now W"
    and ld: "load_acquire (hist W) (wv W i) (sk_head (state_at (hist W) (wv W i))) 0 t = Some (y, v)"
    and K: "\<And>k. K k \<Longrightarrow> D k \<and> contains cmp (state_at (hist W) (wv W i)) k = Some True"
  shows "scan_at os nsz cmp D i None K (met [] y) (W\<lparr>wr := (wr W)(i := RAt y), wv := (wv W)(i := v)\<rparr>)"
proof -
  note l = next_loaded [OF inv t disjI1 [OF refl] ld]
  have "node_next (state_at (hist W) v) (sk_head (state_at (hist W) v)) 0 = Some y"
    using l(3,5) by (simp add: grows_def)
  then have "scan_ok cmp (state_at (hist W) v) (NS v) None K (met [] y) y"
    by (rule scan_ok_first [OF l(4)]) (use K key_in_view [OF weak_hist [OF inv] l(1,2)] in blast)
  then show ?thesis using next_inv [OF inv t disjI1 [OF refl] ld] unfolding scan_at_def
    by (intro exI [of _ NS] exI [of _ LV] exI [of _ y]) simp
qed

lemma scan_at_seek:
  assumes inv: "weak_inv os nsz cmp D W NS LV" and run: "wr W i = RRun (GreaterOrEqual k0) x level"
    and t: "wv W i \<le> t" "t \<le> now W"
    and ld: "weak_iter cmp (hist W) (GreaterOrEqual k0) x level (wv W i) t = Some (v, Inr y)"
    and K: "\<And>k. K k \<Longrightarrow> D k \<and> contains cmp (state_at (hist W) (wv W i)) k = Some True \<and> not_before cmp (Some k0) k"
  shows "scan_at os nsz cmp D i (Some k0) K (met [] y) (W\<lparr>wr := (wr W)(i := RAt y), wv := (wv W)(i := v)\<rparr>)"
proof -
  note w = weak_answer [OF inv run t ld]
  have k0: "D k0" using w(4) by simp
  have "scan_ok cmp (state_at (hist W) v) (NS v) (Some k0) K (met [] y) y"
    by (rule scan_ok_seek [OF w(5) k0 w(6)]) (use K key_in_view [OF weak_hist [OF inv] w(1,3)] in blast)
  then show ?thesis using load_inv [OF inv run t ld] unfolding scan_at_def
    by (intro exI [of _ NS] exI [of _ LV] exI [of _ y]) simp
qed

lemma scan_at_next:
  assumes inv: "weak_inv os nsz cmp D V NS LV" and t: "wv V i \<le> t" "t \<le> now V"
    and so: "scan_ok cmp (state_at (hist V) (wv V i)) (NS (wv V i)) st K ys x" and x: "x \<noteq> 0"
    and ld: "load_acquire (hist V) (wv V i) x 0 t = Some (y, v)" and D: "\<And>k0. st = Some k0 \<Longrightarrow> D k0"
    and K: "\<And>k. K k \<Longrightarrow> D k \<and> contains cmp (state_at (hist V) s) k = Some True" and s: "s \<le> wv V i"
  shows "scan_at os nsz cmp D i st K (met ys y) (V\<lparr>wr := (wr V)(i := RAt y), wv := (wv V)(i := v)\<rparr>)"
proof -
  have xn: "x \<in> set (NS (wv V i))" using so x by (auto simp: scan_ok_def)
  note l = next_loaded [OF inv t disjI2 [OF xn] ld]
  have "scan_ok cmp (state_at (hist V) v) (NS v) st K ys x" using scan_ok_cong [OF so] l(5) by (simp add: grows_def)
  from scan_ok_next [OF l(4) this x D l(3)] have "scan_ok cmp (state_at (hist V) v) (NS v) st K (met ys y) y"
    using K key_in_view [OF weak_hist [OF inv] le_trans [OF s l(1)] l(2)] by blast
  then show ?thesis using next_inv [OF inv t disjI2 [OF xn] ld] unfolding scan_at_def
    by (intro exI [of _ NS] exI [of _ LV] exI [of _ y]) simp
qed

lemma scan_at_other:
  assumes sc: "scan_at os nsz cmp D i st K ys V" and step: "weak_step os nsz cmp D V V'" "wr V' i = wr V i"
  shows "scan_at os nsz cmp D i st K ys V'"
proof -
  obtain NS LV x where inv: "weak_inv os nsz cmp D V NS LV" and x: "wr V i = RAt x"
    and so: "scan_ok cmp (state_at (hist V) (wv V i)) (NS (wv V i)) st K ys x" using sc by (auto simp: scan_at_def)
  obtain NS' LV' where inv': "weak_inv os nsz cmp D V' NS' LV'"
    and past: "\<And>t. t \<le> now V \<Longrightarrow> NS' t = NS t \<and> LV' t = LV t"
    using weak_step_inv [OF step(1) inv] by blast
  note ok = weak_hist [OF inv'] and view = weak_view(1) [OF inv, of i] and p = weak_step_past [OF step(1), of i]
  have "state_at (hist V') (wv V i) = state_at (hist V) (wv V i)"
    using p prefix_state_at view now_less [OF weak_hist [OF inv]] by blast
  then have "grows (state_at (hist V) (wv V i)) (NS (wv V i)) (LV (wv V i))
      (state_at (hist V') (wv V' i)) (NS' (wv V' i)) (LV' (wv V' i))"
    using hist_mono [OF ok, of "wv V i" "wv V' i"] p past [OF view] weak_view(1) [OF inv', of i] now_less [OF ok] by simp
  then have "scan_ok cmp (state_at (hist V') (wv V' i)) (NS' (wv V' i)) st K ys x"
    using scan_ok_cong [OF so] by (simp add: grows_def)
  then show ?thesis using inv' x step(2) unfolding scan_at_def by auto
qed

text \<open>The key that the scan was started with is one that the order is defined on.\<close>

lemma scan_start:
  assumes "weak_scan os nsz cmp D i W st ys V" "weak_inv os nsz cmp D W NS LV" "st = Some k0"
  shows "D k0"
  using assms(1,3)
proof (induction rule: weak_scan.induct)
  case (scan_seek k x level t v y)
  then have "on_way cmp D (state_at (hist W) (wv W i)) (NS (wv W i)) (LV (wv W i)) (GreaterOrEqual k0) x level"
    using weak_view(3) [OF assms(2), of i] by simp
  then show ?case by (simp add: on_way_def)
qed simp_all

lemma scan_inv:
  assumes "weak_scan os nsz cmp D i W st ys V" "weak_inv os nsz cmp D W NS0 LV0"
    and K: "\<And>k. K k \<Longrightarrow> D k \<and> contains cmp (state_at (hist W) (wv W i)) k = Some True \<and> not_before cmp st k"
  shows "scan_at os nsz cmp D i st K ys V"
  using assms(1) K
proof (induction rule: weak_scan.induct)
  case (scan_first t y v)
  show ?case by (rule scan_at_first [OF assms(2) scan_first(2-4)]) (use scan_first(5) in blast)
next
  case (scan_seek k0 x level t v y)
  show ?case by (rule scan_at_seek [OF assms(2) scan_seek])
next
  case (scan_next st ys V x t y v)
  obtain NS LV where inv: "weak_inv os nsz cmp D V NS LV"
    and so: "scan_ok cmp (state_at (hist V) (wv V i)) (NS (wv V i)) st K ys x"
    using scan_next.IH [OF scan_next.prems] scan_next(2) by (auto simp: scan_at_def)
  have "wv W i < length (hist W)" using weak_view(1) [OF assms(2)] now_less [OF weak_hist [OF assms(2)]] by simp
  then have s: "state_at (hist V) (wv W i) = state_at (hist W) (wv W i)" "wv W i \<le> wv V i"
    using weak_steps_past [OF weak_scan_steps [OF scan_next(1)], of i] prefix_state_at by blast+
  show ?case
    by (rule scan_at_next [OF inv scan_next(4,5) so scan_next(3,6) scan_start [OF scan_next(1) assms(2)] _ s(2)])
      (use scan_next.prems s(1) in auto)
next
  case (scan_other st ys V V')
  show ?case by (rule scan_at_other [OF scan_other.IH [OF scan_other.prems] scan_other(2,3)])
qed

end

section \<open>Properties\<close>

text \<open>
  C1 (src/database/skiplist.h, \<open>next\<close>, \<open>setNext\<close>, \<open>noBarrierSetNext\<close>, \<open>findGreateOrEqual\<close>,
  \<open>findLessThan\<close> and \<open>findLast\<close>). The memory orders of the links are strong enough for readers without
  a lock: in every execution in which loads may return old values, as the acquire, release
  and relaxed accesses allow it, and whatever value the next load of a running search
  returns, the search goes on (no unwritten link, no null pointer, no failed assertion, no
  data race on a key). Its step is the step that it would take in one single state of the
  list, between its view and the time that it read; and when it returns, it returns what the
  function computes when it runs alone in that state.
\<close>

theorem weak_search_linearizable:
  assumes "key_order cmp D" "sk_inv os nsz cmp D S0 ns0" "(weak_step os nsz cmp D)\<^sup>*\<^sup>* (weak_init S0) W"
    and "wr W i = RRun q x l" "wv W i \<le> t" "t \<le> now W"
  shows "\<exists>v z. wv W i \<le> v \<and> v \<le> t \<and> weak_iter cmp (hist W) q x l (wv W i) t = Some (v, z)
    \<and> search_iter cmp (state_at (hist W) v) q x l = Some z
    \<and> (\<forall>r. z = Inr r \<longrightarrow> search_run cmp (state_at (hist W) v) q = Some r)"
proof -
  obtain NS LV where inv: "weak_inv os nsz cmp D W NS LV"
    using key_order.weak_steps_inv [OF assms(1,3) weak_init_inv [OF assms(2)]] by blast
  obtain v z where v: "wv W i \<le> v" "v \<le> t" "weak_iter cmp (hist W) q x l (wv W i) t = Some (v, z)"
    "search_iter cmp (state_at (hist W) v) q x l = Some z"
    "shape cmp D (state_at (hist W) v) (NS v) (LV v)" "on_way cmp D (state_at (hist W) v) (NS v) (LV v) q x l"
    using key_order.weak_load [OF assms(1) inv assms(4-6)] by metis
  then show ?thesis using key_order.search_iter_ok [OF assms(1) v(5,6)] by auto
qed

theorem weak_search_linearizable_witness:
  "\<exists>W x l. contains int_cmp (state_at (hist W) (now W)) (7 :: nat) = Some True
    \<and> weak_iter int_cmp (hist W) (GreaterOrEqual 7) x l 0 0 = Some (0, if l = 0 then Inr 0 else Inl (x, l - 1))"
proof -
  let ?R = "weak_step bump_new 16 int_cmp (\<lambda>_. True)"
  obtain S0 S y where S: "SkipList_new bump_new 16 (0 :: nat) Arena_new = Some S0"
    "skip_insert bump_new 16 int_cmp S0 7 = Some S" "sk_inv bump_new 16 int_cmp (\<lambda>_. True) S [y]" "keyof S y = 7"
    using demo_list by blast
  have inv: "sk_inv bump_new 16 int_cmp (\<lambda>_. True) S0 []"
    using SkipList_new_ok [OF good_bump_new _ _ arena_inv_new, of 16 int_cmp "\<lambda>_. True" 0] S(1) by simp
  then have sh: "shape int_cmp (\<lambda>_. True) S0 [] (height_of S0)" by (simp add: sk_inv_def)
  define l where "l = getMaxHeight S0 - 1"
  let ?r = "(\<lambda>_. RIdle)(0 := RRun (GreaterOrEqual 7) (sk_head S0) l)"
  let ?W1 = "weak_init S0\<lparr>wr := ?r\<rparr>"
  have start: "?R (weak_init S0) ?W1"
    using weak_step.ws_start [of "weak_init S0" 0 "\<lambda>_. True" "GreaterOrEqual 7" 0 bump_new 16 int_cmp]
    by (simp add: weak_init_def now_def state_at_def l_def)
  have "insert_trace bump_new 16 int_cmp (\<lambda>_. True) (S0, WIdle) (S, WIdle)"
    using insert_steps [of "\<lambda>_. True" 7, OF TrueI S(2)] .
  from insert_trace_weak [OF this, of ?W1] obtain W where W: "?R\<^sup>*\<^sup>* ?W1 W" "state_at (hist W) (now W) = S"
    "wr W = ?r" "wv W = (\<lambda>_. 0)" by (auto simp: weak_init_def state_at_def now_def)
  have run: "?R\<^sup>*\<^sup>* (weak_init S0) W" using start W(1) by (rule converse_rtranclp_into_rtranclp)
  have rd: "wr W 0 = RRun (GreaterOrEqual 7) (sk_head S0) l" and v0: "wv W 0 = 0" using W(3,4) by simp_all
  have past: "state_at (hist W) 0 = S0"
    using weak_steps_past [OF run] by (auto simp: weak_init_def prefix_def state_at_def)
  obtain z where z: "weak_iter int_cmp (hist W) (GreaterOrEqual 7) (sk_head S0) l 0 0 = Some (0, z)"
    "search_iter int_cmp S0 (GreaterOrEqual 7) (sk_head S0) l = Some z"
    using weak_search_linearizable [OF int_keys.key_order_axioms inv run rd, of 0] v0 past by auto
  have "l < s_max_height" using shapeD(4,5) [OF sh] by (simp add: l_def getMaxHeight_def)
  then have "node_next S0 (sk_head S0) l = Some 0"
    using shapeD(11) [OF sh] shapeD(6) [OF sh] by (simp add: path_Cons)
  then have "z = (if l = 0 then Inr 0 else Inl (sk_head S0, l - 1))"
    using z(2) by (simp add: search_iter_def keyIsAfterNode_def split: if_splits)
  moreover have "contains int_cmp (state_at (hist W) (now W)) 7 = Some True"
    using int_keys.contains_ok [OF S(3) TrueI, of 7] S(4) W(2) by (simp add: int_cmp_def)
  ultimately show ?thesis using z(1) by blast
qed

text \<open>
  C8 (src/database/skiplist.h, \<open>insert\<close>, and \<open>seek\<close>, \<open>prev\<close> and \<open>seekToLast\<close> of the iterator). No
  key is lost, also with these memory orders: once a thread's view of the list has a key \<open>j\<close>,
  be it that the thread inserted it, found it or was told of it, no later search of this
  thread passes over it, however old the values are that its loads return. The search of
  \<open>seek\<close> for a key up to \<open>j\<close> returns a node with a key from there up to \<open>j\<close>, so for \<open>j\<close> itself
  one that compares equal; the search of \<open>prev\<close> from a key after \<open>j\<close> returns a node before it
  and not before \<open>j\<close>; and that of \<open>seekToLast\<close> one not before \<open>j\<close>.
\<close>

theorem weak_search_not_past:
  assumes "key_order cmp D" "sk_inv os nsz cmp D S0 ns0" "(weak_step os nsz cmp D)\<^sup>*\<^sup>* (weak_init S0) W1"
    and "D j" "contains cmp (state_at (hist W1) (wv W1 i)) j = Some True"
    and "(weak_step os nsz cmp D)\<^sup>*\<^sup>* W1 W" "wr W i = RRun q x l" "wv W i \<le> t" "t \<le> now W"
    and "weak_iter cmp (hist W) q x l (wv W i) t = Some (v, Inr r)"
  shows "not_past cmp (state_at (hist W) v) q j r"
proof -
  obtain NS1 LV1 where inv1: "weak_inv os nsz cmp D W1 NS1 LV1"
    using key_order.weak_steps_inv [OF assms(1,3) weak_init_inv [OF assms(2)]] by blast
  obtain NS LV where inv: "weak_inv os nsz cmp D W NS LV"
    using key_order.weak_steps_inv [OF assms(1,6) inv1] by blast
  note w = key_order.weak_answer [OF assms(1) inv assms(7-10)]
  obtain a where "a \<in> set (NS v)" "cmp j (keyof (state_at (hist W) v) a) = 0"
    using key_order.view_contains(1) [OF assms(1) inv1 assms(6) inv w(1,2) assms(4,5)] by blast
  then show ?thesis by (rule key_order.search_not_past [OF assms(1) w(5,4,6) assms(4)])
qed

theorem weak_search_not_past_witness:
  "\<exists>H x l v t w r. weak_iter int_cmp H (LessThan (9 :: nat)) x l v t = Some (w, Inr r)
    \<and> (\<exists>k. node_key (state_at H w) r = Some k \<and> 7 \<le> k \<and> k < 9)"
proof -
  let ?R = "weak_step bump_new 16 int_cmp (\<lambda>_. True)"
  obtain S y where S: "sk_inv bump_new 16 int_cmp (\<lambda>_. True) S [y]" "keyof S y = 7" using demo_list by blast
  have has: "contains int_cmp (state_at (hist (weak_init S)) (wv (weak_init S) 0)) 7 = Some True"
    using int_keys.contains_ok [OF S(1) TrueI, of 7] S(2) by (simp add: int_cmp_def weak_init_def state_at_def)
  let ?W = "weak_init S\<lparr>wr := (\<lambda>_. RIdle)(0 := RRun (LessThan 9) (sk_head S) (getMaxHeight S - 1))\<rparr>"
  have start: "?R (weak_init S) ?W"
    using weak_step.ws_start [of "weak_init S" 0 "\<lambda>_. True" "LessThan 9" 0 bump_new 16 int_cmp]
    by (simp add: weak_init_def now_def state_at_def)
  obtain NS LV where inv: "weak_inv bump_new 16 int_cmp (\<lambda>_. True) ?W NS LV"
    using int_keys.weak_step_inv [OF start weak_init_inv [OF S(1)]] by blast
  have "wr ?W 0 = RRun (LessThan 9) (sk_head S) (getMaxHeight S - 1)" by simp
  from int_keys.search_returns [OF inv this] obtain W x l v r where W: "?R\<^sup>*\<^sup>* ?W W" "wr W 0 = RRun (LessThan 9) x l"
    "wv W 0 \<le> now W" "weak_iter int_cmp (hist W) (LessThan 9) x l (wv W 0) (now W) = Some (v, Inr r)" by blast
  have run: "?R\<^sup>*\<^sup>* (weak_init S) W" using start W(1) by (rule converse_rtranclp_into_rtranclp)
  from weak_search_not_past [OF int_keys.key_order_axioms S(1) rtranclp.rtrancl_refl TrueI has run W(2,3) order_refl W(4)]
  have "not_past int_cmp (state_at (hist W) v) (LessThan 9) 7 r" .
  then have "\<exists>k. node_key (state_at (hist W) v) r = Some k \<and> 7 \<le> k \<and> k < 9"
    by (auto simp: int_cmp_def split: if_splits)
  then show ?thesis using W(4) by blast
qed

text \<open>
  In particular a search for a key that the view has finds a node whose key compares equal.
\<close>

theorem weak_no_lost_key:
  assumes "key_order cmp D" "sk_inv os nsz cmp D S0 ns0" "(weak_step os nsz cmp D)\<^sup>*\<^sup>* (weak_init S0) W1"
    and "D k" "contains cmp (state_at (hist W1) (wv W1 i)) k = Some True"
    and "(weak_step os nsz cmp D)\<^sup>*\<^sup>* W1 W" "wr W i = RRun (GreaterOrEqual k) x l" "wv W i \<le> t" "t \<le> now W"
    and "weak_iter cmp (hist W) (GreaterOrEqual k) x l (wv W i) t = Some (v, Inr r)"
  shows "r \<noteq> 0 \<and> (\<exists>k'. node_key (state_at (hist W) v) r = Some k' \<and> cmp k k' = 0)"
proof -
  let ?T = "state_at (hist W) v"
  obtain NS1 LV1 where inv1: "weak_inv os nsz cmp D W1 NS1 LV1"
    using key_order.weak_steps_inv [OF assms(1,3) weak_init_inv [OF assms(2)]] by blast
  obtain NS LV where inv: "weak_inv os nsz cmp D W NS LV"
    using key_order.weak_steps_inv [OF assms(1,6) inv1] by blast
  note w = key_order.weak_answer [OF assms(1) inv assms(7-10)]
  have "contains cmp ?T k = Some True"
    by (rule key_order.view_contains(2) [OF assms(1) inv1 assms(6) inv w(1,2) assms(4,5)])
  then show ?thesis using w(6) by (auto simp: contains_def key_equal_def split: if_splits bind_splits)
qed

theorem weak_no_lost_key_witness:
  "\<exists>H x l v t w r. weak_iter int_cmp H (GreaterOrEqual (7 :: nat)) x l v t = Some (w, Inr r) \<and> r \<noteq> 0"
proof -
  let ?R = "weak_step bump_new 16 int_cmp (\<lambda>_. True)"
  obtain S y where S: "sk_inv bump_new 16 int_cmp (\<lambda>_. True) S [y]" "keyof S y = 7" using demo_list by blast
  have has: "contains int_cmp (state_at (hist (weak_init S)) (wv (weak_init S) 0)) 7 = Some True"
    using int_keys.contains_ok [OF S(1) TrueI, of 7] S(2) by (simp add: int_cmp_def weak_init_def state_at_def)
  let ?W = "weak_init S\<lparr>wr := (\<lambda>_. RIdle)(0 := RRun (GreaterOrEqual 7) (sk_head S) (getMaxHeight S - 1))\<rparr>"
  have start: "?R (weak_init S) ?W"
    using weak_step.ws_start [of "weak_init S" 0 "\<lambda>_. True" "GreaterOrEqual 7" 0 bump_new 16 int_cmp]
    by (simp add: weak_init_def now_def state_at_def)
  obtain NS LV where inv: "weak_inv bump_new 16 int_cmp (\<lambda>_. True) ?W NS LV"
    using int_keys.weak_step_inv [OF start weak_init_inv [OF S(1)]] by blast
  have "wr ?W 0 = RRun (GreaterOrEqual 7) (sk_head S) (getMaxHeight S - 1)" by simp
  from int_keys.search_returns [OF inv this] obtain W x l v r where W: "?R\<^sup>*\<^sup>* ?W W" "wr W 0 = RRun (GreaterOrEqual 7) x l"
    "wv W 0 \<le> now W" "weak_iter int_cmp (hist W) (GreaterOrEqual 7) x l (wv W 0) (now W) = Some (v, Inr r)" by blast
  have run: "?R\<^sup>*\<^sup>* (weak_init S) W" using start W(1) by (rule converse_rtranclp_into_rtranclp)
  from weak_no_lost_key [OF int_keys.key_order_axioms S(1) rtranclp.rtrancl_refl TrueI has run W(2,3) order_refl W(4)]
  show ?thesis using W(4) by blast
qed

text \<open>
  C6 (src/database/skiplist.h, the iterator's \<open>seekToFirst\<close>, \<open>seek\<close> and \<open>next\<close>). A scan under a
  concurrent writer, with loads that may return old values: the nodes it meets have strictly
  increasing keys, none before the key that it was started with, and wherever it stands, it
  has met every key from the start up to there, or, at the end, to the end, that the thread's
  view had when the scan or anything before it began. What is inserted meanwhile it may meet
  or miss; what was there it never misses.
\<close>

theorem weak_scan_complete:
  assumes "key_order cmp D" "sk_inv os nsz cmp D S0 ns0" "(weak_step os nsz cmp D)\<^sup>*\<^sup>* (weak_init S0) W0"
    and "(weak_step os nsz cmp D)\<^sup>*\<^sup>* W0 W" "weak_scan os nsz cmp D i W st ys V" "wr V i = RAt x"
  shows "sorted_wrt (\<lambda>a b. \<exists>j k. node_key (state_at (hist V) (wv V i)) a = Some j
      \<and> node_key (state_at (hist V) (wv V i)) b = Some k \<and> cmp j k < 0) ys
    \<and> (\<forall>y \<in> set ys. \<exists>k. node_key (state_at (hist V) (wv V i)) y = Some k \<and> not_before cmp st k)
    \<and> (\<forall>k. D k \<longrightarrow> contains cmp (state_at (hist W0) (wv W0 i)) k = Some True \<longrightarrow> not_before cmp st k \<longrightarrow>
      x = 0 \<or> (\<exists>k'. node_key (state_at (hist V) (wv V i)) x = Some k' \<and> cmp k' k \<ge> 0) \<longrightarrow>
      (\<exists>y \<in> set ys. \<exists>k'. node_key (state_at (hist V) (wv V i)) y = Some k' \<and> cmp k k' = 0))"
proof -
  let ?T = "state_at (hist V) (wv V i)"
  obtain NS0 LV0 where inv0: "weak_inv os nsz cmp D W0 NS0 LV0"
    using key_order.weak_steps_inv [OF assms(1,3) weak_init_inv [OF assms(2)]] by blast
  obtain NS1 LV1 where inv1: "weak_inv os nsz cmp D W NS1 LV1"
    using key_order.weak_steps_inv [OF assms(1,4) inv0] by blast
  define K where "K = (\<lambda>k. D k \<and> contains cmp (state_at (hist W0) (wv W0 i)) k = Some True \<and> not_before cmp st k)"
  have K: "D k \<and> contains cmp (state_at (hist W) (wv W i)) k = Some True \<and> not_before cmp st k" if "K k" for k
    using that key_order.view_contains(2) [OF assms(1) inv0 assms(4) inv1 order_refl weak_view(1) [OF inv1]]
    by (simp add: K_def)
  obtain NS LV where inv: "weak_inv os nsz cmp D V NS LV" and so: "scan_ok cmp ?T (NS (wv V i)) st K ys x"
    using key_order.scan_inv [OF assms(1,5) inv1 K, of K] assms(6) by (auto simp: scan_at_def)
  have key: "node_key ?T y = Some (keyof ?T y)" if "y \<in> set ys" for y
    using shape_node_key [OF weak_view(2) [OF inv], of y] so that by (auto simp: scan_ok_def)
  have "sorted_wrt (\<lambda>a b. cmp (keyof ?T a) (keyof ?T b) < 0) ys" using so by (simp add: scan_ok_def)
  then have "sorted_wrt (\<lambda>a b. \<exists>j k. node_key ?T a = Some j \<and> node_key ?T b = Some k \<and> cmp j k < 0) ys"
    by (rule sorted_wrt_mono_rel [rotated]) (use key in auto)
  moreover have "\<exists>k. node_key ?T y = Some k \<and> not_before cmp st k" if "y \<in> set ys" for y
    using so key that by (auto simp: scan_ok_def)
  moreover have "\<exists>y \<in> set ys. \<exists>k'. node_key ?T y = Some k' \<and> cmp k k' = 0"
    if "K k" "x = 0 \<or> (\<exists>k'. node_key ?T x = Some k' \<and> 0 \<le> cmp k' k)" for k
  proof -
    have "x \<noteq> 0 \<Longrightarrow> x \<in> set ys" using so by (auto simp: scan_ok_def)
    then have "\<not> (x \<noteq> 0 \<and> cmp (keyof ?T x) k < 0)" using that(2) key by fastforce
    then show ?thesis using so that(1) key by (auto simp: scan_ok_def)
  qed
  ultimately show ?thesis unfolding K_def by blast
qed

theorem weak_scan_complete_witness:
  "\<exists>S ys V. weak_scan bump_new 16 int_cmp (\<lambda>_. True) 0 (weak_init S) None ys V \<and> wr V 0 = RAt 0
    \<and> (\<exists>y \<in> set ys. \<exists>k. node_key (state_at (hist V) (wv V 0)) y = Some k \<and> int_cmp (7 :: nat) k = 0)"
proof -
  obtain S y where S: "sk_inv bump_new 16 int_cmp (\<lambda>_. True) S [y]" "keyof S y = 7" using demo_list by blast
  let ?W = "weak_init S" and ?scan = "weak_scan bump_new 16 int_cmp (\<lambda>_. True) 0 (weak_init S) None"
  have sh: "shape int_cmp (\<lambda>_. True) S [y] (height_of S)" using S(1) by (simp add: sk_inv_def)
  have path: "node_next S (sk_head S) 0 = Some y" "node_next S y 0 = Some 0" using bottom_path [OF sh] by simp_all
  have y: "y \<noteq> 0" using shape_nonzero [OF sh, of y] by simp
  define W1 where "W1 = ?W\<lparr>wr := (wr ?W)(0 := RAt y), wv := (wv ?W)(0 := 0)\<rparr>"
  define V where "V = W1\<lparr>wr := (wr W1)(0 := RAt 0), wv := (wv W1)(0 := 0)\<rparr>"
  have l1: "load_acquire (hist ?W) (wv ?W 0) (sk_head (state_at (hist ?W) (wv ?W 0))) 0 0 = Some (y, 0)"
    using path(1) by (simp add: load_acquire_def weak_init_def state_at_def)
  have s1: "?scan (met [] y) W1" unfolding W1_def
    by (rule weak_scan.scan_first [OF _ _ _ l1]) (simp_all add: weak_init_def)
  have l2: "load_acquire (hist W1) (wv W1 0) y 0 0 = Some (0, 0)"
    using path(2) by (simp add: load_acquire_def weak_init_def state_at_def W1_def)
  have "?scan (met (met [] y) 0) V" unfolding V_def
    by (rule weak_scan.scan_next [OF s1 _ y _ _ l2]) (simp_all add: W1_def)
  then have sc: "?scan [y] V" and v0: "wr V 0 = RAt 0" using y by (simp_all add: V_def)
  have "contains int_cmp (state_at (hist ?W) (wv ?W 0)) 7 = Some True"
    using int_keys.contains_ok [OF S(1) TrueI, of 7] S(2) by (simp add: int_cmp_def weak_init_def state_at_def)
  moreover note weak_scan_complete [OF int_keys.key_order_axioms S(1) rtranclp.rtrancl_refl rtranclp.rtrancl_refl sc v0]
  ultimately have "\<exists>y \<in> set [y]. \<exists>k. node_key (state_at (hist V) (wv V 0)) y = Some k \<and> int_cmp (7 :: nat) k = 0"
    by auto
  then show ?thesis using sc v0 by blast
qed

text \<open>
  The interleaving model is the special case of this one in which
  every load reads the last value: each of its executions is one of these, with the same
  list, writer and readers at the end.
\<close>

theorem interleaving_is_weak:
  assumes "key_order cmp D" "sk_inv os nsz cmp D (cs C0) ns0" "cw C0 = WIdle" "\<And>i. cr C0 i = RIdle"
    and "(conc_step os nsz cmp D)\<^sup>*\<^sup>* C0 C"
  shows "\<exists>W. (weak_step os nsz cmp D)\<^sup>*\<^sup>* (weak_init (cs C0)) W
    \<and> state_at (hist W) (now W) = cs C \<and> ww W = cw C \<and> wr W = cr C"
proof -
  have "\<exists>W. (weak_step os nsz cmp D)\<^sup>*\<^sup>* (weak_init (cs C0)) W \<and> same_as W C"
    using assms(5)
  proof (induction rule: rtranclp_induct)
    case base
    have "same_as (weak_init (cs C0)) C0"
      using assms(3,4) by (auto simp: same_as_def weak_init_def state_at_def now_def)
    then show ?case by blast
  next
    case (step C1 C2)
    then obtain W where W: "(weak_step os nsz cmp D)\<^sup>*\<^sup>* (weak_init (cs C0)) W" "same_as W C1" by blast
    obtain NS LV where "weak_inv os nsz cmp D W NS LV"
      using key_order.weak_steps_inv [OF assms(1) W(1) weak_init_inv [OF assms(2)]] by blast
    from key_order.conc_step_is_weak [OF assms(1) step.hyps(2) this W(2)]
    show ?case using W(1) by (meson rtranclp.rtrancl_into_rtrancl)
  qed
  then show ?thesis by (simp add: same_as_def)
qed

theorem interleaving_is_weak_witness:
  "\<exists>S0 W. SkipList_new bump_new 16 (0 :: nat) Arena_new = Some S0
    \<and> (weak_step bump_new 16 int_cmp (\<lambda>_. True))\<^sup>*\<^sup>* (weak_init S0) W
    \<and> contains int_cmp (state_at (hist W) (now W)) 7 = Some True"
proof -
  obtain S0 S y where S: "SkipList_new bump_new 16 (0 :: nat) Arena_new = Some S0"
    "skip_insert bump_new 16 int_cmp S0 7 = Some S" "sk_inv bump_new 16 int_cmp (\<lambda>_. True) S [y]" "keyof S y = 7"
    using demo_list by blast
  have inv: "sk_inv bump_new 16 int_cmp (\<lambda>_. True) S0 []"
    using SkipList_new_ok [OF good_bump_new _ _ arena_inv_new, of 16 int_cmp "\<lambda>_. True" 0] S(1) by simp
  let ?C = "\<lparr>cs = S0, cw = WIdle, cr = \<lambda>_. RIdle\<rparr>"
  have "(conc_step bump_new 16 int_cmp (\<lambda>_. True))\<^sup>*\<^sup>* ?C (?C\<lparr>cs := S\<rparr>)"
    using insert_trace_conc [OF insert_steps [of "\<lambda>_. True" 7, OF TrueI S(2)], of ?C] by simp
  from interleaving_is_weak [OF int_keys.key_order_axioms _ _ _ this] inv
  obtain W where "(weak_step bump_new 16 int_cmp (\<lambda>_. True))\<^sup>*\<^sup>* (weak_init S0) W" "state_at (hist W) (now W) = S"
    by auto
  moreover have "contains int_cmp S 7 = Some True"
    using int_keys.contains_ok [OF S(3) TrueI, of 7] S(4) by (simp add: int_cmp_def)
  ultimately show ?thesis using S(1) by blast
qed

text \<open>
  C9 (src/database/skiplist.h, \<open>findGreateOrEqual\<close>). A search is wait-free, whatever its loads
  return: left alone it makes at most one load for each level and each node of the list, and
  as long as it has not returned it can make the next one.
\<close>

theorem weak_search_wait_free:
  assumes "key_order cmp D" "sk_inv os nsz cmp D S0 ns0" "(weak_step os nsz cmp D)\<^sup>*\<^sup>* (weak_init S0) W"
    and "wr W i = RRun q x l" "(reader_load cmp i ^^ n) W W'"
  shows "n \<le> s_max_height + card (dom (sk_nodes (state_at (hist W) (now W))))
    \<and> (at_rest (wr W' i) \<or> (\<exists>W''. reader_load cmp i W' W''))"
proof -
  obtain NS LV where inv: "weak_inv os nsz cmp D W NS LV"
    using key_order.weak_steps_inv [OF assms(1,3) weak_init_inv [OF assms(2)]] by blast
  have li: "list_inv os nsz cmp D (state_at (hist W) (now W)) (ww W) (NS (now W)) (LV (now W))"
    using inv by (simp add: weak_inv_def)
  have w: "on_way cmp D (state_at (hist W) (wv W i)) (NS (wv W i)) (LV (wv W i)) q x l"
    using weak_view(3) [OF inv assms(4)] by simp
  have "n \<le> l + card (ahead cmp (state_at (hist W) (now W)) (NS (now W)) x) + 1"
    using key_order.loads_bounded [OF assms(1) inv assms(4,5)] by (simp add: distance_def)
  also have "\<dots> \<le> s_max_height + card (dom (sk_nodes (state_at (hist W) (now W))))"
    using w card_ahead [of cmp "state_at (hist W) (now W)" "NS (now W)" x]
      key_order.list_inv_nodes(2) [OF assms(1) li] by (simp add: on_way_def)
  finally have bound: "n \<le> s_max_height + card (dom (sk_nodes (state_at (hist W) (now W))))" .
  have "(weak_step os nsz cmp D)\<^sup>*\<^sup>* W W'"
    using assms(5) reader_load_step by (metis relpowp_imp_rtranclp rtranclp_mono [THEN predicate2D] predicate2I)
  then obtain NS' LV' where inv': "weak_inv os nsz cmp D W' NS' LV'"
    using key_order.weak_steps_inv [OF assms(1) _ inv] by blast
  have "\<exists>W''. reader_load cmp i W' W''" if run: "wr W' i = RRun q x l" for q x l
  proof -
    note le = weak_view(1) [OF inv', of i]
    show ?thesis using key_order.weak_load [OF assms(1) inv' run le order_refl] reader_load.intros [OF run le order_refl]
      by (metis order_refl)
  qed
  then show ?thesis using bound by (cases "wr W' i") auto
qed

theorem weak_search_wait_free_witness:
  "\<exists>S n W r. n \<le> 12 + card (dom (sk_nodes S)) \<and> contains int_cmp S (7 :: nat) = Some True
    \<and> (reader_load int_cmp 0 ^^ n) (weak_init S\<lparr>wr := (\<lambda>_. RIdle)(0 := RRun (GreaterOrEqual 7) (sk_head S) (getMaxHeight S - 1))\<rparr>) W
    \<and> wr W 0 = RAt r"
proof -
  let ?R = "weak_step bump_new 16 int_cmp (\<lambda>_. True)"
  obtain S y where S: "sk_inv bump_new 16 int_cmp (\<lambda>_. True) S [y]" "keyof S y = 7" using demo_list by blast
  let ?W = "weak_init S\<lparr>wr := (\<lambda>_. RIdle)(0 := RRun (GreaterOrEqual 7) (sk_head S) (getMaxHeight S - 1))\<rparr>"
  have "?R (weak_init S) ?W"
    using weak_step.ws_start [of "weak_init S" 0 "\<lambda>_. True" "GreaterOrEqual 7" 0 bump_new 16 int_cmp]
    by (simp add: weak_init_def now_def state_at_def)
  then have run: "?R\<^sup>*\<^sup>* (weak_init S) ?W" by blast
  have rd: "wr ?W 0 = RRun (GreaterOrEqual 7) (sk_head S) (getMaxHeight S - 1)" by simp
  note step = weak_search_wait_free [OF int_keys.key_order_axioms S(1) run rd]
  let ?b = "12 + card (dom (sk_nodes S))"
  have bound: "n \<le> ?b" if "(reader_load int_cmp 0 ^^ n) ?W W" for n W
    using step [OF that] by (simp add: weak_init_def state_at_def now_def)
  have "\<exists>n W r. (reader_load int_cmp 0 ^^ n) ?W W \<and> wr W 0 = RAt r"
  proof (rule ccontr)
    assume no: "\<not> ?thesis"
    have "\<exists>W. (reader_load int_cmp 0 ^^ n) ?W W" for n
    proof (induction n)
      case (Suc n)
      then obtain W where W: "(reader_load int_cmp 0 ^^ n) ?W W" by blast
      then obtain W' where "reader_load int_cmp 0 W W'" using step [OF W] no by (auto simp: at_rest_iff)
      then show ?case using W by (blast intro: relpowp_Suc_I)
    qed (simp add: exI)
    then show False using bound [of "Suc ?b"] by force
  qed
  moreover have "contains int_cmp S 7 = Some True"
    using int_keys.contains_ok [OF S(1) TrueI, of 7] S(2) by (simp add: int_cmp_def)
  ultimately show ?thesis using bound by blast
qed

end
