(* ===== verification/KV_SkipWriter.thy ===== *)
theory KV_SkipWriter
  imports KV_SkipWeak "HOL-Library.Multiset"
begin

text \<open>
  What the writer of src/database/skiplist.h achieves in an execution of the model of
  KV_SkipMem, whatever the readers do in between: the insertions that were begun, taken from
  the execution itself, are compared with the contents of the list, and their steps are counted.
\<close>

section \<open>The insertions of an execution\<close>

text \<open>A step of the writer from its rest to a search begins an insertion.\<close>

fun begun :: "'k writer \<Rightarrow> 'k writer \<Rightarrow> 'k list" where
  "begun WIdle (WNew key prev h) = [key]"
| "begun _ _ = []"

text \<open>\<open>weak_run W0 ks W\<close>: an execution from \<open>W0\<close> to \<open>W\<close> in which insertions of the keys \<open>ks\<close>
  were begun, in this order.\<close>

inductive weak_run ::
    "os \<Rightarrow> nat \<Rightarrow> ('k \<Rightarrow> 'k \<Rightarrow> int) \<Rightarrow> ('k \<Rightarrow> bool) \<Rightarrow> 'k weak \<Rightarrow> 'k list \<Rightarrow> 'k weak \<Rightarrow> bool"
  for os :: os and nsz :: nat and cmp :: "'k \<Rightarrow> 'k \<Rightarrow> int" and D :: "'k \<Rightarrow> bool" and W0 :: "'k weak"
where
  run_none: "weak_run os nsz cmp D W0 [] W0"
| run_step: "weak_run os nsz cmp D W0 ks W \<Longrightarrow> weak_step os nsz cmp D W W' \<Longrightarrow>
     weak_run os nsz cmp D W0 (ks @ begun (ww W) (ww W')) W'"

lemma weak_run_steps: "weak_run os nsz cmp D W0 ks W \<Longrightarrow> (weak_step os nsz cmp D)\<^sup>*\<^sup>* W0 W"
  by (induction rule: weak_run.induct) auto

lemma steps_weak_run: "(weak_step os nsz cmp D)\<^sup>*\<^sup>* W0 W \<Longrightarrow> \<exists>ks. weak_run os nsz cmp D W0 ks W"
  by (induction rule: rtranclp_induct) (blast intro: weak_run.intros)+

section \<open>Contents and work of an insertion\<close>

text \<open>The keys of all nodes but the head, also of one that is not linked yet, and the key of an
  insertion that has no node yet.\<close>

definition node_keys :: "'k skiplist \<Rightarrow> 'k multiset" where
  "node_keys S = image_mset (keyof S) (mset_set (dom (sk_nodes S) - {sk_head S}))"

fun pending :: "'k writer \<Rightarrow> 'k multiset" where
  "pending (WNew key prev h) = {#key#}"
| "pending (WAlloc key prev h) = {#key#}"
| "pending _ = {#}"

text \<open>The steps that an insertion still has to take.\<close>

fun steps_left :: "'k writer \<Rightarrow> nat" where
  "steps_left WIdle = 0"
| "steps_left (WNew key prev h) = 2 * h + 3"
| "steps_left (WAlloc key prev h) = 2 * h + 2"
| "steps_left (WLink x prev j h) = 2 * (h - j) + 1"
| "steps_left (WMid x prev j h) = 2 * (h - j)"

lemma node_keys_cong:
  assumes "sk_head T = sk_head S" "dom (sk_nodes T) = dom (sk_nodes S)" "\<And>a. keyof T a = keyof S a"
  shows "node_keys T = node_keys S"
  unfolding node_keys_def assms(1,2) using assms(3) by (simp cong: image_mset_cong)

lemma setNext_keys:
  assumes "setNext S p j y = Some T"
  shows "node_keys T = node_keys S"
proof -
  obtain nd where "sk_nodes S p = Some nd" "j < length (nd_nexts nd)"
    using assms by (auto simp: setNext_def split: bind_splits if_splits)
  then have "same_frame S T" using setNext_ok [of S p nd j y] assms by auto
  note f = same_frameD [OF this]
  show ?thesis by (rule node_keys_cong) (simp_all add: f)
qed

text \<open>A new node brings the key that it was made for.\<close>

lemma newNode_keys:
  assumes mem: "sk_mem os nsz (sk_arena S) (sk_nodes S)" and h: "1 \<le> h" "h \<le> 12"
    and new: "newNode os nsz S key h = Some (x, T)"
    and fin: "finite (dom (sk_nodes S))" and hd: "sk_head S \<in> dom (sk_nodes S)"
  shows "node_keys T = add_mset key (node_keys S)"
proof -
  let ?N = "dom (sk_nodes S) - {sk_head S}"
  from newNode_ok [OF mem h new] have x: "x \<notin> dom (sk_nodes S)"
    and T: "T = S\<lparr>sk_arena := sk_arena T, sk_nodes := (sk_nodes S)(x \<mapsto> \<lparr>nd_key = key, nd_nexts = replicate h None\<rparr>)\<rparr>"
    by auto
  have nodes: "sk_nodes T = (sk_nodes S)(x \<mapsto> \<lparr>nd_key = key, nd_nexts = replicate h None\<rparr>)" "sk_head T = sk_head S"
    by (subst T, simp)+
  have "x \<noteq> sk_head S" using x hd by blast
  then have "dom (sk_nodes T) - {sk_head T} = insert x ?N" using nodes by auto
  moreover have "keyof T x = key" "\<forall>a \<in> ?N. keyof T a = keyof S a"
    using x nodes by (auto simp: keyof_def node_key_def)
  moreover from this have "image_mset (keyof T) (mset_set ?N) = image_mset (keyof S) (mset_set ?N)"
    using fin by (intro image_mset_cong) simp
  ultimately show ?thesis using x fin by (simp add: node_keys_def)
qed

context key_order
begin

text \<open>One step of the writer: it keeps the keys, those of a begun insertion included, and it does
  a part of the work.\<close>

lemma insert_step_work:
  assumes st: "insert_step os nsz cmp D S w T w'" and inv: "list_inv os nsz cmp D S w ns lv"
  shows "node_keys T + pending w' = node_keys S + pending w + mset (begun w w')"
    and "steps_left w' + 1 \<le> steps_left w + 28 * length (begun w w')"
proof -
  note li = list_invD [OF inv] and fin = list_inv_nodes(1) [OF inv]
  have "node_keys T + pending w' = node_keys S + pending w + mset (begun w w')
    \<and> steps_left w' + 1 \<le> steps_left w + 28 * length (begun w w')"
    using st
  proof (cases rule: insert_step.cases)
    case (w_find key x prev h)
    obtain h' rnd where "randomHeight S = Some (h', S\<lparr>sk_rnd := rnd\<rparr>)" "h' \<le> 12"
      using randomHeight_ok [OF li(2)] by blast
    then have T: "T = S\<lparr>sk_rnd := rnd\<rparr>" "h \<le> 12" using w_find(6) by auto
    have "node_keys T = node_keys S"
      by (rule node_keys_cong) (simp_all add: T(1) keyof_def node_key_def)
    then show ?thesis using T(2) w_find(1,2) by simp
  next
    case (w_raise h prev prev' key)
    have "node_keys T = node_keys S"
      by (rule node_keys_cong) (simp_all add: w_raise(2) keyof_def node_key_def)
    then show ?thesis using w_raise(1,3) by simp
  next
    case (w_alloc key h x prev)
    have "1 \<le> h" "h \<le> 12" using li(4) shapeD(5) [OF li(1)] w_alloc(1) by auto
    moreover have "sk_head S \<in> dom (sk_nodes S)" using shapeD(3) [OF li(1)] by auto
    ultimately have "node_keys T = add_mset key (node_keys S)"
      using newNode_keys [OF li(3) _ _ w_alloc(3) fin] by simp
    then show ?thesis using w_alloc(1,2) by simp
  next
    case (w_next j h prev p n x)
    then have "node_keys T = node_keys S" using setNext_keys by (metis noBarrierSetNext_def)
    then show ?thesis using w_next(1,2) by simp
  next
    case (w_publish prev j p x h)
    then have "node_keys T = node_keys S" using setNext_keys by blast
    moreover have "j < h" using li(4) w_publish(1) by auto
    ultimately show ?thesis using w_publish(1,2) by simp
  qed simp_all
  then show "node_keys T + pending w' = node_keys S + pending w + mset (begun w w')"
    "steps_left w' + 1 \<le> steps_left w + 28 * length (begun w w')" by simp_all
qed

text \<open>The keys and the work of a whole execution.\<close>

lemma weak_run_work:
  assumes "weak_run os nsz cmp D (weak_init S0) ks W" "sk_inv os nsz cmp D S0 ns0"
  shows "node_keys (state_at (hist W) (now W)) + pending (ww W) = node_keys S0 + mset ks
    \<and> now W + steps_left (ww W) \<le> 28 * length ks"
  using assms(1)
proof (induction rule: weak_run.induct)
  case run_none
  then show ?case by (simp add: weak_init_def state_at_def now_def)
next
  case (run_step ks W W')
  obtain NS LV where inv: "weak_inv os nsz cmp D W NS LV"
    using weak_steps_inv [OF weak_run_steps [OF run_step.hyps(1)] weak_init_inv [OF assms(2)]] by blast
  show ?case
  proof (cases "\<exists>S w. W' = W\<lparr>hist := hist W @ [(store_of (ww W) w, S)], ww := w\<rparr>
      \<and> insert_step os nsz cmp D (state_at (hist W) (now W)) (ww W) S w")
    case True
    then obtain S w where W': "W' = W\<lparr>hist := hist W @ [(store_of (ww W) w, S)], ww := w\<rparr>"
      and st: "insert_step os nsz cmp D (state_at (hist W) (now W)) (ww W) S w" by blast
    have "list_inv os nsz cmp D (state_at (hist W) (now W)) (ww W) (NS (now W)) (LV (now W))" "hist W \<noteq> []"
      using inv by (simp_all add: weak_inv_def hist_ok_def)
    with insert_step_work [OF st this(1)] run_step.IH W' show ?thesis
      by (simp add: now_def state_at_def add.commute add.left_commute) (cases "hist W"; simp)
  next
    case False
    then have "hist W' = hist W" "ww W' = ww W" using run_step.hyps(2) by (auto elim!: weak_step.cases)
    moreover have "begun w w = []" for w :: "'a writer" by (cases w) simp_all
    ultimately show ?thesis using run_step.IH by (simp add: now_def)
  qed
qed

lemma idle_contents:
  assumes "list_inv os nsz cmp D S WIdle ns lv"
  shows "sk_inv os nsz cmp D S ns" "node_keys S = mset (keys_of S ns)"
proof -
  note li = list_invD [OF assms]
  show "sk_inv os nsz cmp D S ns" using li by (auto simp: sk_inv_def)
  have "distinct ns" "sk_head S \<notin> set ns" using shapeD(1) [OF li(1)] by simp_all
  then show "node_keys S = mset (keys_of S ns)"
    using li(4) by (simp add: node_keys_def keys_of_def mset_set_set insert_Diff_if)
qed

text \<open>A writer at rest can begin an insertion exactly of the keys that the list does not have.\<close>

lemma can_begin:
  assumes inv: "list_inv os nsz cmp D S WIdle ns lv" and k: "D k"
  shows "(\<exists>T prev h. insert_step os nsz cmp D S WIdle T (WNew k prev h)) \<longleftrightarrow> contains cmp S k = Some False"
proof -
  note sk = idle_contents(1) [OF inv] and li = list_invD [OF inv]
  obtain L G where ns: "ns = L @ G" and sp: "split_at cmp S k L G" using sorted_split [OF li(1) k] by blast
  obtain prev where find: "findGreateOrEqual cmp S k (Some (replicate s_max_height None)) = Some (hd0 G, Some prev)"
    using findGE_ok [OF li(1) [unfolded ns] sp, of "Some (replicate s_max_height None)"] by auto
  have cn: "contains cmp S k = Some (\<exists>a \<in> set ns. cmp k (keyof S a) = 0)" by (rule contains_ok [OF sk k])
  obtain h T where "randomHeight S = Some (h, T)" using randomHeight_ok [OF li(2)] by blast
  then have step: "insert_step os nsz cmp D S WIdle T (WNew k prev h)"
    if "hd0 G = 0 \<or> (\<exists>k'. node_key S (hd0 G) = Some k' \<and> \<not> key_equal cmp k k')"
    using insert_step.w_find [of D k, OF k find that] by blast
  have "hd0 G = 0 \<or> (\<exists>k'. node_key S (hd0 G) = Some k' \<and> \<not> key_equal cmp k k')"
    if "\<forall>a \<in> set ns. cmp k (keyof S a) \<noteq> 0"
    using that ns shape_node_key [OF li(1)] by (cases G) (auto simp: key_equal_def)
  moreover have "\<forall>a \<in> set ns. cmp k (keyof S a) \<noteq> 0"
    if "insert_step os nsz cmp D S WIdle T (WNew k prev h)" for T prev h
    using that
  proof (cases rule: insert_step.cases)
    case (w_find x)
    then show ?thesis using no_equal_key [OF li(1) [unfolded ns] sp k] find ns by auto
  qed
  ultimately show ?thesis using step cn by (auto simp: ns)
qed

lemma weak_writer:
  assumes "sk_inv os nsz cmp D S0 ns0" "weak_run os nsz cmp D (weak_init S0) ks W"
  obtains ns lv where "list_inv os nsz cmp D (state_at (hist W) (now W)) (ww W) ns lv"
  using weak_steps_inv [OF weak_run_steps [OF assms(2)] weak_init_inv [OF assms(1)]]
  by (auto simp: weak_inv_def)

end

text \<open>A step of the writer as a step of the execution, and back.\<close>

lemma write_step:
  assumes "insert_step os nsz cmp D (state_at (hist W) (now W)) (ww W) S w" "hist W \<noteq> []"
  shows "\<exists>W'. weak_step os nsz cmp D W W' \<and> now W' = now W + 1 \<and> ww W' = w"
  using weak_step.ws_write [OF assms(1)] assms(2) by (cases "hist W") (force simp: now_def)+

lemma begun_step:
  assumes "weak_step os nsz cmp D W W'" "ww W = WIdle" "begun (ww W) (ww W') = [k]"
  shows "\<exists>T prev h. insert_step os nsz cmp D (state_at (hist W) (now W)) WIdle T (WNew k prev h)"
proof -
  have new: "\<exists>prev h. ww W' = WNew k prev h" using assms(2,3) by (cases "ww W'") simp_all
  from assms(1) show ?thesis using new assms(2) by (cases rule: weak_step.cases) auto
qed

lemma hist_nonempty: "weak_run os nsz cmp D (weak_init S0) ks W \<Longrightarrow> hist W \<noteq> []"
  using weak_steps_past [OF weak_run_steps] by (fastforce simp: weak_init_def)

section \<open>Properties\<close>

text \<open>
  C15 (src/database/skiplist.h, \<open>insert\<close> with \<open>findGreateOrEqual\<close>, \<open>randomHeight\<close>, \<open>newNode\<close> and
  the stores to the links). No insertion is lost or done twice, whatever the readers do in
  between and whatever old values their loads return: when the writer is at rest, the list is
  well-formed on every level, and its keys, in strictly increasing order, are the keys of the
  list at the beginning and those of all insertions that were begun; \<open>contains\<close> answers
  accordingly for every key.
\<close>

theorem weak_insertions_correct:
  assumes "key_order cmp D" "sk_inv os nsz cmp D S0 ns0"
    and "weak_run os nsz cmp D (weak_init S0) ks W" "ww W = WIdle"
  shows "(let T = state_at (hist W) (now W) in
      (\<exists>ns. sk_inv os nsz cmp D T ns \<and> sorted_wrt (\<lambda>x y. cmp x y < 0) (keys_of T ns)
        \<and> mset (keys_of T ns) = mset (keys_of S0 ns0) + mset ks)
    \<and> (\<forall>k. D k \<longrightarrow> contains cmp T k = Some (\<exists>x \<in> set (keys_of S0 ns0) \<union> set ks. cmp k x = 0)))"
proof -
  let ?T = "state_at (hist W) (now W)"
  obtain ns lv where li: "list_inv os nsz cmp D ?T WIdle ns lv"
    using key_order.weak_writer [OF assms(1-3)] assms(4) by metis
  note idle = key_order.idle_contents [OF assms(1) li]
  have "list_inv os nsz cmp D S0 WIdle ns0 (height_of S0)" using assms(2) by (simp add: sk_inv_def list_inv_def)
  from key_order.idle_contents(2) [OF assms(1) this] key_order.weak_run_work [OF assms(1,3,2)]
  have keys: "mset (keys_of ?T ns) = mset (keys_of S0 ns0) + mset ks" using assms(4) idle(2) by simp
  then have set: "set (keys_of ?T ns) = set (keys_of S0 ns0) \<union> set ks" by (metis set_mset_mset set_mset_union)
  have "sorted_wrt (\<lambda>x y. cmp x y < 0) (keys_of ?T ns)"
    using shapeD(10) [OF list_invD(1) [OF li]] by (simp add: keys_of_def sorted_wrt_map)
  moreover have "contains cmp ?T k = Some (\<exists>x \<in> set (keys_of ?T ns). cmp k x = 0)" if "D k" for k
    using key_order.contains_ok [OF assms(1) idle(1) that] by (simp add: keys_of_def)
  ultimately show ?thesis using idle(1) keys unfolding Let_def set by blast
qed

theorem weak_insertions_correct_witness:
  "\<exists>S0 ks W. weak_run bump_new 16 int_cmp (\<lambda>_. True) (weak_init S0) ks W \<and> ww W = WIdle \<and> 7 \<in> set ks
    \<and> contains int_cmp (state_at (hist W) (now W)) 8 = Some (8 \<in> set ks)"
proof -
  obtain S0 S x where S: "SkipList_new bump_new 16 (0 :: nat) Arena_new = Some S0"
    "skip_insert bump_new 16 int_cmp S0 7 = Some S" "sk_inv bump_new 16 int_cmp (\<lambda>_. True) S [x]" "keyof S x = 7"
    using demo_list by blast
  have inv: "sk_inv bump_new 16 int_cmp (\<lambda>_. True) S0 []"
    using SkipList_new_ok [OF good_bump_new _ _ arena_inv_new, of 16 int_cmp "\<lambda>_. True" 0] S(1) by simp
  obtain W where W: "(weak_step bump_new 16 int_cmp (\<lambda>_. True))\<^sup>*\<^sup>* (weak_init S0) W"
    "state_at (hist W) (now W) = S" "ww W = WIdle"
    using insert_trace_weak [OF insert_steps [of "\<lambda>_. True" 7, OF TrueI S(2)], of "weak_init S0"]
    by (auto simp: weak_init_def state_at_def now_def)
  then obtain ks where run: "weak_run bump_new 16 int_cmp (\<lambda>_. True) (weak_init S0) ks W"
    using steps_weak_run by blast
  have zero: "int_cmp k x = 0 \<longleftrightarrow> x = k" for k x by (auto simp: int_cmp_def)
  have all: "contains int_cmp S k = Some (k \<in> set ks)" for k
    using weak_insertions_correct [OF int_keys.key_order_axioms inv run W(3)] W(2)
    by (simp add: Let_def keys_of_def zero)
  have "contains int_cmp S 7 = Some True"
    using int_keys.contains_ok [OF S(3) TrueI, of 7] S(4) by (simp add: int_cmp_def)
  then show ?thesis using run W(2,3) all [of 7] all [of 8] by auto
qed

text \<open>
  C11 (src/database/skiplist.h, \<open>insert\<close>). Insertions are wait-free: in every execution the writer
  has made at most 28 steps for each insertion begun, however the steps of the readers fall in
  between; in the middle of an insertion it can always make the next one, unless the arena
  gets no memory for the node of the height drawn; and at rest it can begin the insertion of a
  key exactly when \<open>contains\<close> denies it, so that the assertion stops all others.
\<close>

theorem weak_insert_wait_free:
  assumes "key_order cmp D" "sk_inv os nsz cmp D S0 ns0" "weak_run os nsz cmp D (weak_init S0) ks W"
  shows "now W \<le> 28 * length ks
    \<and> (ww W \<noteq> WIdle \<longrightarrow> (\<exists>W'. weak_step os nsz cmp D W W' \<and> now W' = now W + 1)
        \<or> (\<exists>k prev h. ww W = WAlloc k prev h
            \<and> allocateAligned os (sk_arena (state_at (hist W) (now W))) (nsz + 8 * (h - 1)) = None))
    \<and> (ww W = WIdle \<longrightarrow> (\<forall>k. D k \<longrightarrow> (\<exists>W'. weak_step os nsz cmp D W W' \<and> begun (ww W) (ww W') = [k])
        \<longleftrightarrow> contains cmp (state_at (hist W) (now W)) k = Some False))"
proof -
  let ?T = "state_at (hist W) (now W)"
  obtain ns lv where li: "list_inv os nsz cmp D ?T (ww W) ns lv" using key_order.weak_writer [OF assms] .
  note ne = hist_nonempty [OF assms(3)]
  have "now W \<le> 28 * length ks" using key_order.weak_run_work [OF assms(1,3,2)] by linarith
  moreover have "newNode os nsz ?T k h = None \<longleftrightarrow> allocateAligned os (sk_arena ?T) (nsz + 8 * (h - 1)) = None" for k h
    by (simp add: newNode_def split: bind_splits)
  then have "ww W = WIdle \<or> (\<exists>W'. weak_step os nsz cmp D W W' \<and> now W' = now W + 1)
      \<or> (\<exists>k prev h. ww W = WAlloc k prev h \<and> allocateAligned os (sk_arena ?T) (nsz + 8 * (h - 1)) = None)"
    using key_order.writer_can_step [OF assms(1) li] write_step [OF _ ne] by metis
  moreover have "(\<exists>W'. weak_step os nsz cmp D W W' \<and> begun (ww W) (ww W') = [k]) \<longleftrightarrow> contains cmp ?T k = Some False"
    if idle: "ww W = WIdle" and k: "D k" for k
  proof -
    note start = key_order.can_begin [OF assms(1) li [unfolded idle] k]
    have "\<exists>W'. weak_step os nsz cmp D W W' \<and> begun (ww W) (ww W') = [k]"
      if "insert_step os nsz cmp D ?T WIdle T (WNew k prev h)" for T prev h
      using write_step [OF _ ne] that idle by (metis begun.simps(1))
    then show ?thesis using start begun_step [OF _ idle] by blast
  qed
  ultimately show ?thesis by blast
qed

theorem weak_insert_wait_free_witness:
  "\<exists>S0 W. SkipList_new bump_new 16 (0 :: nat) Arena_new = Some S0
    \<and> weak_step bump_new 16 int_cmp (\<lambda>_. True) (weak_init S0) W \<and> begun WIdle (ww W) = [7]"
proof -
  obtain S0 where S0: "SkipList_new bump_new 16 (0 :: nat) Arena_new = Some S0"
    "sk_inv bump_new 16 int_cmp (\<lambda>_. True) S0 []"
    using empty_list by blast
  have init: "ww (weak_init S0) = WIdle" "state_at (hist (weak_init S0)) (now (weak_init S0)) = S0"
    by (simp_all add: weak_init_def state_at_def now_def)
  have "contains int_cmp S0 7 = Some False" using int_keys.contains_ok [OF S0(2) TrueI, of 7] by simp
  then show ?thesis
    using weak_insert_wait_free [OF int_keys.key_order_axioms S0(2) weak_run.run_none] init S0(1) by auto
qed

end
