(* ===== verification/KV_Snapshot.thy ===== *)
theory KV_Snapshot
  imports KV_SkipSet
begin

text \<open>
  The components together: a skip list of internal keys, ordered by the internal comparator
  over the byte-wise one, and a lookup by the internal key of a \<open>LookupKey\<close>. This is how the
  key format is meant to be used (the comments of db_format.h; src/database/memtable.cc, which
  would do it, is still empty). The specification is on the list of entries written, in any
  order; it knows nothing of nodes, bytes or comparators.
\<close>

section \<open>The list of entries\<close>

type_synonym entry = "byte list \<times> u64 \<times> ValueType"

fun entry_key :: "entry \<Rightarrow> byte list" where
  "entry_key (u, s, t) = ikey u s t"

fun entry_ok :: "entry \<Rightarrow> bool" where
  "entry_ok (u, s, t) = good_entry s t"

text \<open>What a reader of user key \<open>u\<close> at the snapshot \<open>seq\<close> may see, and the newest of it.\<close>

fun visible :: "byte list \<Rightarrow> u64 \<Rightarrow> entry \<Rightarrow> bool" where
  "visible u seq (v, s, t) = (v = u \<and> s \<le> seq)"

definition newest_visible :: "entry list \<Rightarrow> byte list \<Rightarrow> u64 \<Rightarrow> entry \<Rightarrow> bool" where
  "newest_visible es u seq x \<longleftrightarrow> x \<in> set es \<and> visible u seq x
     \<and> (\<forall>y \<in> set es. visible u seq y \<longrightarrow> fst (snd y) \<le> fst (snd x))"

text \<open>The comparator as the skip list calls it, on the bytes of two keys.\<close>

definition entry_cmp :: "byte list \<Rightarrow> byte list \<Rightarrow> int" where
  "entry_cmp a b = the (internal_compare BytewiseComparator (Slice_string a) (Slice_string b))"

lemma entry_cmp_ord:
  assumes "internal_dom (\<lambda>_. True) a" "internal_dom (\<lambda>_. True) b"
  shows "entry_cmp a b = internal_ord lex_cmp a b"
  using ibytewise.internal_compare_ok [OF slice_ok_string _ slice_ok_string, of a b] assms
  by (simp add: entry_cmp_def)

interpretation entries: key_order entry_cmp "internal_dom (\<lambda>_. True)"
proof
  fix x y z
  assume d: "internal_dom (\<lambda>_. True) x" "internal_dom (\<lambda>_. True) y"
  show "sgn (entry_cmp y x) = - sgn (entry_cmp x y)"
    using ibytewise.internal_ord_antisym [OF d] d by (simp add: entry_cmp_ord)
  assume "internal_dom (\<lambda>_. True) z" "entry_cmp x y \<le> 0" "entry_cmp y z \<le> 0"
  then show "entry_cmp x z \<le> 0"
    using ibytewise.internal_ord_trans [OF d, of z] d by (simp add: entry_cmp_ord)
qed

lemma entry_dom: "entry_ok e \<Longrightarrow> internal_dom (\<lambda>_. True) (entry_key e)"
  by (cases e) simp

lemma tag_le:
  assumes "good_entry s t" "good_entry s' t'" "tag_of s t \<le> tag_of s' t'"
  shows "s \<le> s'"
  using assms good_entry_bound [of s t] good_entry_bound [of s' t']
  by (simp add: tag_of_def word_le_nat_alt)

lemma tag_seek: "good_entry s t \<Longrightarrow> tag_of s t \<le> tag_of seq TypeValue \<longleftrightarrow> s \<le> seq"
  using good_entry_bound [of s t] by (auto simp: tag_of_def word_le_nat_alt)

text \<open>Order of two entries: smaller user key, or the same and not older.\<close>

lemma entry_cmp_le:
  assumes "good_entry s t" "good_entry s' t'"
  shows "entry_cmp (ikey u s t) (ikey v s' t') \<le> 0 \<longleftrightarrow>
    lex_cmp u v < 0 \<or> u = v \<and> tag_of s' t' \<le> tag_of s t"
  using assms by (simp add: entry_cmp_ord ibytewise.internal_ord_le)

lemma entry_cmp_ge:
  assumes "good_entry s t" "good_entry s' t'"
  shows "0 \<le> entry_cmp (ikey u s t) (ikey v s' t') \<longleftrightarrow>
    lex_cmp v u < 0 \<or> u = v \<and> tag_of s t \<le> tag_of s' t'"
proof -
  have d: "internal_dom (\<lambda>_. True) (ikey u s t)" "internal_dom (\<lambda>_. True) (ikey v s' t')"
    using assms by simp_all
  have "0 \<le> entry_cmp (ikey u s t) (ikey v s' t') \<longleftrightarrow> entry_cmp (ikey v s' t') (ikey u s t) \<le> 0"
    using entries.cmp_flip [OF d] entries.cmp_zero [OF d] by linarith
  then show ?thesis using entry_cmp_le [OF assms(2,1)] by auto
qed

text \<open>The first element with a property, in a sorted list, is before all others that have it.\<close>

lemma find_sorted:
  assumes "sorted_wrt R xs" "find P xs = Some x"
  shows "x \<in> set xs \<and> P x \<and> (\<forall>y \<in> set xs. P y \<longrightarrow> y = x \<or> R x y)"
  using assms by (induction xs) (auto split: if_splits)

text \<open>An entry that the snapshot sees is not before the lookup key, and of two such the first is the newer.\<close>

lemma visible_not_before:
  assumes "entry_ok e" "visible u seq e" "good_entry seq TypeValue"
  shows "0 \<le> entry_cmp (entry_key e) (ikey u seq TypeValue)"
  using assms by (cases e) (auto simp: entry_cmp_ge tag_seek)

lemma visible_newer:
  assumes "good_entry s t" "good_entry s' t'" "entry_cmp (ikey v s t) (ikey u s' t') \<le> 0" "lex_cmp u v < 0 \<or> v = u"
  shows "v = u \<and> s' \<le> s"
proof -
  have "lex_cmp v u < 0 \<or> v = u \<and> tag_of s' t' \<le> tag_of s t" using assms(1-3) by (simp add: entry_cmp_le)
  then show ?thesis using assms(4) lex_cmp_antisym [of u v] tag_le [OF assms(2,1)] by auto
qed

text \<open>The first key not before the lookup key, in a sorted list of the keys of \<open>es\<close>.\<close>

lemma find_newest:
  assumes es: "\<forall>e \<in> set es. entry_ok e" and ks: "set ks = entry_key ` set es"
    and sorted: "sorted_wrt (\<lambda>a b. entry_cmp a b < 0) ks" and seq: "good_entry seq TypeValue"
  shows "case find (\<lambda>x. 0 \<le> entry_cmp x (ikey u seq TypeValue)) ks of
      None \<Rightarrow> \<forall>e \<in> set es. \<not> visible u seq e
    | Some x \<Rightarrow> \<exists>e \<in> set es. x = entry_key e \<and>
        (if \<exists>e \<in> set es. visible u seq e then newest_visible es u seq e else lex_cmp u (fst e) < 0)"
proof (cases "find (\<lambda>x. 0 \<le> entry_cmp x (ikey u seq TypeValue)) ks")
  case None
  then have "\<not> visible u seq e" if "e \<in> set es" for e
    using visible_not_before [of e u seq] that es ks seq by (force simp: find_None_iff)
  then show ?thesis unfolding None option.case by blast
next
  case (Some x)
  note first = find_sorted [OF sorted Some]
  obtain v s t where e: "(v, s, t) \<in> set es" "x = ikey v s t" using first ks by auto
  have g: "good_entry s t" using es e(1) by force
  have x: "lex_cmp u v < 0 \<or> v = u \<and> s \<le> seq"
    using first g seq unfolding e(2) by (auto simp: entry_cmp_ge tag_seek)
  have new: "v = u \<and> s' \<le> s" if e': "(u, s', t') \<in> set es" "s' \<le> seq" for s' t'
  proof -
    have g': "entry_ok (u, s', t')" using es e'(1) by blast
    have "ikey u s' t' \<in> set ks" using e'(1) ks by force
    then have "entry_cmp x (ikey u s' t') \<le> 0"
      using first visible_not_before [OF g' _ seq, of u] e'(2) entries.cmp_refl [OF entry_dom [OF g']] by fastforce
    then show ?thesis using visible_newer [OF g, of s' t' v u] g' e(2) x by auto
  qed
  have "if \<exists>e \<in> set es. visible u seq e then newest_visible es u seq (v, s, t) else lex_cmp u v < 0"
  proof (cases "\<exists>e \<in> set es. visible u seq e")
    case True
    then obtain s' t' where "(u, s', t') \<in> set es" "s' \<le> seq" by auto
    from new [OF this] have "v = u" by simp
    then have "s \<le> seq" using x by auto
    then show ?thesis using True \<open>v = u\<close> e(1) new by (auto simp: newest_visible_def)
  next
    case False
    then show ?thesis using x e(1) by fastforce
  qed
  then show ?thesis unfolding Some option.case using e by (intro bexI [of _ "(v, s, t)"]) simp_all
qed

lemma ParseInternalKey_ikey:
  assumes "good_entry s t"
  shows "\<exists>p. ParseInternalKey (Slice_string (ikey u s t)) p0 = Some (p, True)
    \<and> sl_bytes (pik_user_key p) = u \<and> pik_sequence p = s \<and> pik_type p = t"
proof -
  let ?k = "Slice_string (ikey u s t)"
  have "t \<in> {TypeValue, TypeDeletion}" using assms by (simp add: good_entry_def)
  then show ?thesis using ParseInternalKey_ok [of ?k p0] assms
    by (auto simp: parse_tag_of word_unat_eq_iff)
qed

section \<open>Internal keys as a linear order\<close>

text \<open>
  On keys of at least eight bytes the internal comparator is a linear order, not just a
  preorder: a key is determined by its user key and its tag. As a type of the library's class
  \<open>linorder\<close> they get its functions on sorted lists, and the contents of the list of keys is
  \<open>sorted_list_of_set\<close> of what was inserted.
\<close>

typedef ikey_type = "{k :: byte list. internal_dom (\<lambda>_. True) k}"
  by (rule exI [of _ "replicate 8 0"]) (simp add: internal_dom_def)

setup_lifting type_definition_ikey_type

lemma internal_ord_eq_0:
  assumes "internal_dom (\<lambda>_. True) x" "internal_dom (\<lambda>_. True) y"
  shows "internal_ord lex_cmp x y = 0 \<longleftrightarrow> x = y"
proof
  assume "internal_ord lex_cmp x y = 0"
  then have "user_part x = user_part y" "tag_part x = tag_part y"
    by (auto simp: internal_ord_def Let_def split: if_splits)
  then show "x = y" using parts_unique [of x] parts_unique [of y] assms by (simp add: internal_dom_def)
qed (simp add: internal_ord_def)

instantiation ikey_type :: linorder
begin

lift_definition less_eq_ikey_type :: "ikey_type \<Rightarrow> ikey_type \<Rightarrow> bool"
  is "\<lambda>x y. internal_ord lex_cmp x y \<le> 0" .

lift_definition less_ikey_type :: "ikey_type \<Rightarrow> ikey_type \<Rightarrow> bool"
  is "\<lambda>x y. internal_ord lex_cmp x y < 0" .

instance
proof
  fix x y z :: ikey_type
  have flip: "internal_ord lex_cmp b a < 0 \<longleftrightarrow> 0 < internal_ord lex_cmp a b"
    if "internal_dom (\<lambda>_. True) a" "internal_dom (\<lambda>_. True) b" for a b
    by (rule ibytewise.internal.ord_flip [OF that])
  show "x < y \<longleftrightarrow> x \<le> y \<and> \<not> y \<le> x" by transfer (use flip in force)
  show "x \<le> x" by transfer (simp add: ibytewise.internal.ord_refl)
  show "x \<le> y \<Longrightarrow> y \<le> z \<Longrightarrow> x \<le> z" by transfer (rule ibytewise.internal_ord_trans)
  show "x \<le> y \<Longrightarrow> y \<le> x \<Longrightarrow> x = y"
    by transfer (use flip internal_ord_eq_0 in force)
  show "x \<le> y \<or> y \<le> x" by transfer (use flip in force)
qed

end

text \<open>The keys of a list in order are the sorted list of the set of keys.\<close>

lemma sorted_keys:
  assumes "sorted_wrt (\<lambda>a b. entry_cmp a b < 0) ks" "\<forall>k \<in> set ks. internal_dom (\<lambda>_. True) k"
  shows "map Abs_ikey_type ks = sorted_list_of_set (Abs_ikey_type ` set ks)"
proof -
  have "sorted_wrt (<) (map Abs_ikey_type ks)"
    using assms
  proof (induction ks)
    case (Cons k ks)
    have "Abs_ikey_type k < Abs_ikey_type b" if "b \<in> set ks" for b
      using Cons.prems that
      by (simp add: less_ikey_type.rep_eq Abs_ikey_type_inverse entry_cmp_ord)
    then show ?case using Cons by simp
  qed simp
  then have "sorted (map Abs_ikey_type ks)" "distinct (map Abs_ikey_type ks)"
    by (simp_all add: strict_sorted_iff)
  then show ?thesis by (metis list.set_map sorted_list_of_set.idem_if_sorted_distinct)
qed

lemma stored_keys:
  assumes "good_new os" "8 \<le> nsz" "nsz \<le> 2 ^ 32" "arena_inv A R"
    and "SkipList_new os nsz key0 A = Some S0" "\<forall>e \<in> set es. entry_ok e"
    and "insert_run (skip_insert os nsz entry_cmp) S0 (map entry_key es) = Some S"
  shows "\<exists>ns. sk_inv os nsz entry_cmp (internal_dom (\<lambda>_. True)) S ns
    \<and> set (keys_of S ns) = entry_key ` set es \<and> sorted_wrt (\<lambda>a b. entry_cmp a b < 0) (keys_of S ns)
    \<and> map Abs_ikey_type (keys_of S ns) = sorted_list_of_set ((Abs_ikey_type \<circ> entry_key) ` set es)"
proof -
  let ?D = "internal_dom (\<lambda>_. True)"
  have "sk_inv os nsz entry_cmp ?D S0 []" using SkipList_new_ok [OF assms(1-4), of entry_cmp ?D key0] assms(5) by simp
  then have "skip_rep os nsz entry_cmp ?D S0 []" unfolding skip_rep_def
    by (intro exI [of _ "[]"]) (simp add: keys_of_def)
  moreover have D: "\<forall>x \<in> set (map entry_key es). ?D x" using assms(6) entry_dom by auto
  ultimately obtain ns where ns: "sk_inv os nsz entry_cmp ?D S ns" "mset (keys_of S ns) = mset (map entry_key es)"
    "sorted_wrt (\<lambda>a b. entry_cmp a b < 0) (keys_of S ns)"
    using entries.skip_run_contents [OF _ _ assms(7)] unfolding skip_rep_def by blast
  have ks: "set (keys_of S ns) = entry_key ` set es" using mset_eq_setD [OF ns(2)] by simp
  then have "\<forall>k \<in> set (keys_of S ns). ?D k" using D by simp
  from sorted_keys [OF ns(3) this] show ?thesis using ns(1,3) ks by (auto simp: image_comp)
qed

section \<open>Properties\<close>

text \<open>
  C5 (src/database/skiplist.h, db_format.h and db_format.cc together). Entries written in any
  order into a skip list under the internal comparator are found by snapshot: seeking the
  internal key of \<open>LookupKey(u, seq)\<close> stops at the newest entry of user key \<open>u\<close> whose sequence
  number is at most \<open>seq\<close>, deletions included, and \<open>ParseInternalKey\<close> gives its parts back; if
  there is none, the iterator is at an entry of a larger user key or invalid.
\<close>

theorem snapshot_lookup:
  assumes mem: "good_new os" "8 \<le> nsz" "nsz \<le> 2 ^ 32" "arena_inv A R"
    and new: "SkipList_new os nsz key0 A = Some S0" "\<forall>e \<in> set es. entry_ok e"
      "insert_run (skip_insert os nsz entry_cmp) S0 (map entry_key es) = Some S"
    and lk: "slice_ok k" "seq \<le> s_max_sequence_number" "LookupKey_new junk k seq = Some lk"
  shows "\<exists>it. it_seek entry_cmp S it_new (sl_bytes (internalKey lk)) = Some it
    \<and> (if \<exists>e \<in> set es. visible (sl_bytes k) seq e
       then \<exists>s t p. newest_visible es (sl_bytes k) seq (sl_bytes k, s, t)
         \<and> it_key S it = Some (ikey (sl_bytes k) s t)
         \<and> ParseInternalKey (Slice_string (ikey (sl_bytes k) s t)) p0 = Some (p, True)
         \<and> sl_bytes (pik_user_key p) = sl_bytes k \<and> pik_sequence p = s \<and> pik_type p = t
       else \<not> it_valid it \<or> (\<exists>e \<in> set es. it_key S it = Some (entry_key e)
         \<and> lex_cmp (sl_bytes k) (fst e) < 0))"
proof -
  let ?u = "sl_bytes k" and ?D = "internal_dom (\<lambda>_. True)"
  have ik: "sl_bytes (internalKey lk) = ikey ?u seq TypeValue"
    using LookupKey_slices [OF lk(1,2), of junk] lk(3) by auto
  have seq: "good_entry seq TypeValue" using lk(2) by (simp add: good_entry_def)
  then have Dq: "?D (ikey ?u seq TypeValue)" by simp
  obtain ns where ns: "sk_inv os nsz entry_cmp ?D S ns" and ks: "set (keys_of S ns) = entry_key ` set es"
    and sorted: "sorted_wrt (\<lambda>a b. entry_cmp a b < 0) (keys_of S ns)"
    using stored_keys [OF mem new] by blast
  obtain it where it: "it_seek entry_cmp S it_new (ikey ?u seq TypeValue) = Some it"
    "case find (\<lambda>x. 0 \<le> entry_cmp x (ikey ?u seq TypeValue)) (keys_of S ns) of
      None \<Rightarrow> \<not> it_valid it | Some x \<Rightarrow> it_valid it \<and> it_key S it = Some x"
    using entries.it_seek_first [OF ns Dq] by blast
  note found = find_newest [OF new(2) ks sorted seq, of ?u]
  show ?thesis
  proof (cases "\<exists>e \<in> set es. visible ?u seq e")
    case True
    then obtain e where e: "e \<in> set es" "newest_visible es ?u seq e" "it_key S it = Some (entry_key e)"
      using found it(2) by (auto split: option.splits)
    then have "visible ?u seq e" by (simp add: newest_visible_def)
    then obtain s t where st: "e = (?u, s, t)" by (metis visible.elims(2))
    then have "good_entry s t" using new(2) e(1) by force
    from ParseInternalKey_ikey [OF this, of ?u p0] show ?thesis
      using e(2,3) it(1) True unfolding ik st by auto
  next
    case False
    then show ?thesis using found it unfolding ik by (auto split: option.splits)
  qed
qed

theorem snapshot_lookup_witness:
  "\<exists>S0 S lk it. SkipList_new bump_new 16 [] Arena_new = Some S0
    \<and> insert_run (skip_insert bump_new 16 entry_cmp) S0 [ikey [6] 3 TypeValue] = Some S
    \<and> LookupKey_new (\<lambda>_. 0) (Slice_string [6]) 10 = Some lk
    \<and> it_seek entry_cmp S it_new (sl_bytes (internalKey lk)) = Some it
    \<and> it_key S it = Some (ikey [6] 3 TypeValue)"
proof -
  let ?D = "internal_dom (\<lambda>_. True)" and ?k = "ikey [6] 3 TypeValue"
  have s: "(10 :: u64) \<le> s_max_sequence_number" "good_entry 3 TypeValue"
    unfolding max_sequence_value good_entry_def by simp_all
  obtain S0 where S0: "SkipList_new bump_new 16 [] Arena_new = Some S0"
    "sk_inv bump_new 16 entry_cmp ?D S0 []"
    "\<forall>h \<in> {1..12}. allocateAligned bump_new (sk_arena S0) (16 + 8 * (h - 1)) \<noteq> None"
    using empty_list_any [of "[]" entry_cmp ?D] by (elim exE conjE) rule
  have "?D ?k" using s(2) by simp
  from entries.insert_cases [OF S0(2) this] S0(3)
  obtain S where S: "skip_insert bump_new 16 entry_cmp S0 ?k = Some S" by (auto split: option.splits)
  let ?es = "[([6], 3, TypeValue)] :: entry list"
  have run: "insert_run (skip_insert bump_new 16 entry_cmp) S0 (map entry_key ?es) = Some S"
    and ok: "\<forall>e \<in> set ?es. entry_ok e" using S s(2) by simp_all
  obtain lk where lk: "LookupKey_new (\<lambda>_. 0) (Slice_string [6]) 10 = Some lk"
    using LookupKey_slices [OF slice_ok_string s(1)] by blast
  have vis: "\<exists>e \<in> set ?es. visible (sl_bytes (Slice_string [6])) 10 e" by simp
  have nsz: "(8 :: nat) \<le> 16" "(16 :: nat) \<le> 2 ^ 32" by simp_all
  note found = snapshot_lookup [OF good_bump_new nsz arena_inv_new S0(1) ok run slice_ok_string s(1) lk,
      unfolded if_P [OF vis], unfolded sl_bytes_string]
  obtain it s t where it: "it_seek entry_cmp S it_new (sl_bytes (internalKey lk)) = Some it"
    "newest_visible ?es [6] 10 ([6], s, t)" "it_key S it = Some (ikey [6] s t)"
    using found by blast
  have "s = 3 \<and> t = TypeValue" using it(2) by (simp add: newest_visible_def)
  then show ?thesis using S0(1) run lk it(1,3) by auto
qed

end
