(* ===== verification/KV_SnapshotConc.thy ===== *)
theory KV_SnapshotConc
  imports KV_Snapshot KV_SkipWeak
begin

text \<open>
  Snapshots under concurrency: the skip list of internal keys (KV_Snapshot) with one writer
  and readers under the memory orders of the code (KV_SkipMem). A lookup at a sequence number
  does not depend on what the writer inserts meanwhile, as long as that is newer: its answer
  is a function of the reader's view when the lookup starts.
\<close>

section \<open>Lists of entries\<close>

definition is_entry :: "byte list \<Rightarrow> bool" where
  "is_entry k \<longleftrightarrow> (\<exists>e. entry_ok e \<and> k = entry_key e)"

lemma is_entryI [simp]: "entry_ok e \<Longrightarrow> is_entry (entry_key e)"
  unfolding is_entry_def by blast

lemma entry_key_inj:
  assumes "entry_ok e" "entry_ok e'" "entry_key e = entry_key e'"
  shows "e = e'"
proof -
  obtain u s t u' s' t' where e: "e = (u, s, t)" "e' = (u', s', t')" by (metis prod_cases3)
  then have g: "good_entry s t" "good_entry s' t'" "ikey u s t = ikey u' s' t'" using assms by simp_all
  from ParseInternalKey_ikey [OF g(1), of u undefined] ParseInternalKey_ikey [OF g(2), of u' undefined]
  show ?thesis unfolding e g(3) by auto
qed

lemma is_entry_dom: "is_entry k \<Longrightarrow> internal_dom (\<lambda>_. True) k"
  using entry_dom by (auto simp: is_entry_def)

interpretation entry_keys: key_order entry_cmp is_entry
  by unfold_locales (use is_entry_dom entries.cmp_antisym entries.cmp_trans in blast)+

lemma entry_cmp_eq: "is_entry a \<Longrightarrow> is_entry b \<Longrightarrow> entry_cmp a b = 0 \<longleftrightarrow> a = b"
  using internal_ord_eq_0 [of a b] by (simp add: entry_cmp_ord is_entry_dom)

text \<open>The entries that a list holds, and the newest of them that a snapshot sees.\<close>

definition holds :: "byte list skiplist \<Rightarrow> entry \<Rightarrow> bool" where
  "holds S e \<longleftrightarrow> entry_ok e \<and> contains entry_cmp S (entry_key e) = Some True"

definition newest_in :: "byte list skiplist \<Rightarrow> byte list \<Rightarrow> u64 \<Rightarrow> entry \<Rightarrow> bool" where
  "newest_in S u seq e \<longleftrightarrow> holds S e \<and> visible u seq e
     \<and> (\<forall>e'. holds S e' \<longrightarrow> visible u seq e' \<longrightarrow> fst (snd e') \<le> fst (snd e))"

text \<open>The entries of a list of the right shape, as a list.\<close>

lemma entries_of:
  assumes sh: "shape entry_cmp is_entry S ns lv"
  obtains es where "keys_of S ns = map entry_key es" "\<forall>e \<in> set es. entry_ok e" "\<And>e. holds S e \<longleftrightarrow> e \<in> set es"
proof -
  have "\<forall>k \<in> set (keys_of S ns). \<exists>e. entry_ok e \<and> k = entry_key e"
    using shapeD(9) [OF sh] by (auto simp: keys_of_def is_entry_def)
  then obtain f where f: "\<And>k. k \<in> set (keys_of S ns) \<Longrightarrow> entry_ok (f k) \<and> k = entry_key (f k)" by metis
  let ?es = "map f (keys_of S ns)"
  have ks: "keys_of S ns = map entry_key ?es"
    using f by (simp add: comp_def) (rule map_idI [symmetric], simp)
  show thesis
  proof (rule that [OF ks])
    show ok: "\<forall>e \<in> set ?es. entry_ok e" using f by auto
    show "holds S e \<longleftrightarrow> e \<in> set ?es" for e
    proof (cases "entry_ok e")
      case True
      have "entry_cmp (entry_key e) k = 0 \<longleftrightarrow> entry_key e = k" if "k \<in> set (keys_of S ns)" for k
        using entry_cmp_eq [OF is_entryI [OF True], of k] f [OF that] is_entryI [of "f k"] by simp
      then have "holds S e \<longleftrightarrow> entry_key e \<in> set (keys_of S ns)"
        using entry_keys.contains_shape [OF sh is_entryI [OF True]] True by (auto simp: holds_def keys_of_def)
      moreover have "entry_key e \<in> set (keys_of S ns) \<longleftrightarrow> e \<in> set ?es"
      proof
        assume "entry_key e \<in> set (keys_of S ns)"
        then have "e = f (entry_key e)" using entry_key_inj [OF True] f by blast
        then show "e \<in> set ?es" using \<open>entry_key e \<in> set (keys_of S ns)\<close> by auto
      next
        assume "e \<in> set ?es"
        then show "entry_key e \<in> set (keys_of S ns)" using f by auto
      qed
      ultimately show ?thesis by simp
    next
      case False
      then show ?thesis using ok by (auto simp: holds_def)
    qed
  qed
qed


text \<open>What a search for a key returns on a list of the right shape.\<close>

context key_order
begin

lemma search_first:
  assumes sh: "shape cmp D S ns lv" and k: "D k" and r: "search_run cmp S (GreaterOrEqual k) = Some r"
  shows "find (\<lambda>x. 0 \<le> cmp x k) (keys_of S ns) = (if r = 0 then None else Some (keyof S r))"
    "r = 0 \<or> node_key S r = Some (keyof S r)"
proof -
  obtain L G where ns: "ns = L @ G" and sp: "split_at cmp S k L G" using sorted_split [OF sh k] by blast
  have r: "r = hd0 G" using findGE_ok [OF sh [unfolded ns] sp, of None] r by simp
  have nz: "a \<noteq> 0" "node_key S a = Some (keyof S a)" if "a \<in> set ns" for a
    using that shape_nonzero [OF sh, of a] shape_node_key [OF sh, of a] by auto
  have "find (\<lambda>x. 0 \<le> cmp x k) (map (keyof S) L) = None"
    using sp by (auto simp: find_None_iff split_at_def not_le)
  then have "find (\<lambda>x. 0 \<le> cmp x k) (keys_of S ns) = find (\<lambda>x. 0 \<le> cmp x k) (map (keyof S) G)"
    unfolding keys_of_def ns by (induction L) auto
  then show "find (\<lambda>x. 0 \<le> cmp x k) (keys_of S ns) = (if r = 0 then None else Some (keyof S r))"
    using sp nz ns r by (cases G) (auto simp: split_at_def)
  show "r = 0 \<or> node_key S r = Some (keyof S r)" using nz ns r by (cases G) auto
qed

end

section \<open>Lookups\<close>

text \<open>What the search for a lookup key returns, in terms of the entries that the list holds.\<close>

lemma lookup_answer:
  assumes sh: "shape entry_cmp is_entry S ns lv" and seq: "good_entry seq TypeValue"
    and run: "search_run entry_cmp S (GreaterOrEqual (ikey u seq TypeValue)) = Some r"
  shows "if \<exists>e. holds S e \<and> visible u seq e
    then \<exists>e. newest_in S u seq e \<and> node_key S r = Some (entry_key e)
    else r = 0 \<or> (\<exists>e. entry_ok e \<and> node_key S r = Some (entry_key e) \<and> lex_cmp u (fst e) < 0)"
proof -
  let ?q = "ikey u seq TypeValue"
  have q: "is_entry ?q" using is_entryI [of "(u, seq, TypeValue)"] seq by simp
  obtain es where es: "keys_of S ns = map entry_key es" "\<forall>e \<in> set es. entry_ok e" "\<And>e. holds S e \<longleftrightarrow> e \<in> set es"
    using entries_of [OF sh] by metis
  have "sorted_wrt (\<lambda>a b. entry_cmp a b < 0) (keys_of S ns)"
    using shapeD(10) [OF sh] by (simp add: keys_of_def sorted_wrt_map)
  from find_newest [OF es(2) _ this seq, of u] have found: "case find (\<lambda>x. 0 \<le> entry_cmp x ?q) (keys_of S ns) of
      None \<Rightarrow> \<forall>e \<in> set es. \<not> visible u seq e
    | Some x \<Rightarrow> \<exists>e \<in> set es. x = entry_key e \<and>
        (if \<exists>e \<in> set es. visible u seq e then newest_visible es u seq e else lex_cmp u (fst e) < 0)"
    using es(1) by simp
  have same: "(\<exists>e \<in> set es. visible u seq e) \<longleftrightarrow> (\<exists>e. holds S e \<and> visible u seq e)" using es(3) by blast
  have new: "newest_in S u seq e" if "newest_visible es u seq e" for e
    using that es(3) unfolding newest_visible_def newest_in_def by blast
  note first = entry_keys.search_first [OF sh q run]
  show ?thesis
  proof (cases "r = 0")
    case True
    then show ?thesis using found same first(1) by auto
  next
    case False
    obtain e where e: "e \<in> set es" "keyof S r = entry_key e"
      "if \<exists>e \<in> set es. visible u seq e then newest_visible es u seq e else lex_cmp u (fst e) < 0"
      using found first(1) False by auto
    have "node_key S r = Some (entry_key e)" using first(2) False e(2) by simp
    then show ?thesis using e(1,3) new es(2) unfolding same [symmetric]
      by (cases "\<exists>e \<in> set es. visible u seq e") (simp_all only: if_True if_False, blast+)
  qed
qed

text \<open>What a thread's view holds, every later state holds.\<close>

lemma view_holds:
  assumes inv0: "weak_inv os nsz entry_cmp is_entry W0 NS0 LV0"
    and st: "(weak_step os nsz entry_cmp is_entry)\<^sup>*\<^sup>* W0 W" and inv: "weak_inv os nsz entry_cmp is_entry W NS LV"
    and v: "wv W i \<le> v" "v \<le> now W" and e: "holds (state_at (hist W0) (wv W0 i)) e"
  shows "holds (state_at (hist W) v) e"
proof -
  have ok: "entry_ok e" using e by (simp add: holds_def)
  then show ?thesis
    using entry_keys.view_contains(2) [OF inv0 st inv v is_entryI [OF ok]] e by (simp add: holds_def)
qed

section \<open>Properties\<close>

text \<open>
  C2 (src/database/skiplist.h, db_format.h and db_format.cc together). Snapshot isolation. A
  thread looks up user key \<open>u\<close> at sequence number \<open>seq\<close> while a writer goes on inserting, and
  its loads return old or new values as the memory orders allow. If every entry that the
  snapshot sees in the state of the answer was already in the thread's view when it started,
  that is, if the writer only adds newer entries, then the lookup returns the newest entry
  that the snapshot sees in that view, or, when there is none, the end or an entry of a larger
  user key. Nothing else about the concurrent insertions matters.
\<close>

theorem snapshot_isolation:
  assumes "sk_inv os nsz entry_cmp is_entry S0 ns0"
    and "(weak_step os nsz entry_cmp is_entry)\<^sup>*\<^sup>* (weak_init S0) W0" "(weak_step os nsz entry_cmp is_entry)\<^sup>*\<^sup>* W0 W"
    and "wr W i = RRun (GreaterOrEqual (ikey u seq TypeValue)) x l" "seq \<le> s_max_sequence_number"
    and "wv W i \<le> t" "t \<le> now W"
    and "weak_iter entry_cmp (hist W) (GreaterOrEqual (ikey u seq TypeValue)) x l (wv W i) t = Some (v, Inr r)"
    and newer: "\<And>e. holds (state_at (hist W) v) e \<Longrightarrow> visible u seq e \<Longrightarrow> holds (state_at (hist W0) (wv W0 i)) e"
  shows "if \<exists>e. holds (state_at (hist W0) (wv W0 i)) e \<and> visible u seq e
    then \<exists>e. newest_in (state_at (hist W0) (wv W0 i)) u seq e \<and> node_key (state_at (hist W) v) r = Some (entry_key e)
    else r = 0 \<or> (\<exists>e. entry_ok e \<and> node_key (state_at (hist W) v) r = Some (entry_key e) \<and> lex_cmp u (fst e) < 0)"
proof -
  let ?q = "ikey u seq TypeValue" and ?S = "state_at (hist W0) (wv W0 i)" and ?T = "state_at (hist W) v"
  obtain NS0 LV0 where inv0: "weak_inv os nsz entry_cmp is_entry W0 NS0 LV0"
    using entry_keys.weak_steps_inv [OF assms(2) weak_init_inv [OF assms(1)]] by blast
  obtain NS LV where inv: "weak_inv os nsz entry_cmp is_entry W NS LV"
    using entry_keys.weak_steps_inv [OF assms(3) inv0] by blast
  note w = entry_keys.weak_answer [OF inv assms(4,6-8)]
  have vis: "holds ?T e \<and> visible u seq e \<longleftrightarrow> holds ?S e \<and> visible u seq e" for e
    using view_holds [OF inv0 assms(3) inv w(1,2)] newer by blast
  then have new: "newest_in ?T u seq e \<longleftrightarrow> newest_in ?S u seq e" for e unfolding newest_in_def by blast
  have "good_entry seq TypeValue" using assms(5) by (simp add: good_entry_def)
  from lookup_answer [OF w(5) this w(6)] show ?thesis unfolding vis new .
qed

theorem snapshot_isolation_witness:
  "\<exists>S H x l v t w r. newest_in S [6] 10 ([6], 3, TypeValue)
    \<and> weak_iter entry_cmp H (GreaterOrEqual (ikey [6] 10 TypeValue)) x l v t = Some (w, Inr r)
    \<and> node_key (state_at H w) r = Some (ikey [6] 3 TypeValue)"
proof -
  let ?R = "weak_step bump_new 16 entry_cmp is_entry" and ?e = "([6], 3, TypeValue) :: entry"
  let ?q = "GreaterOrEqual (ikey [6] 10 TypeValue)"
  have s: "(10 :: u64) \<le> s_max_sequence_number" "entry_ok ?e" "entry_ok ([6], 10, TypeValue)"
    unfolding max_sequence_value entry_ok.simps good_entry_def by simp_all
  obtain S0 where S0: "sk_inv bump_new 16 entry_cmp is_entry S0 []"
    "\<forall>h \<in> {1..12}. allocateAligned bump_new (sk_arena S0) (16 + 8 * (h - 1)) \<noteq> None"
    using empty_list_any [of "[]" entry_cmp is_entry] by (elim exE conjE) rule
  obtain S y where S: "sk_inv bump_new 16 entry_cmp is_entry S [y]" "keyof S y = entry_key ?e"
    using entry_keys.insert_cases [OF S0(1) is_entryI [OF s(2)]] S0(2) by (auto split: option.splits)
  have sh: "shape entry_cmp is_entry S [y] (height_of S)" using S(1) by (simp add: sk_inv_def)
  have holds: "holds S e \<longleftrightarrow> e = ?e" for e
  proof (cases "entry_ok e")
    case True
    have "holds S e \<longleftrightarrow> entry_cmp (entry_key e) (entry_key ?e) = 0"
      using entry_keys.contains_shape [OF sh is_entryI [OF True]] S(2) True by (simp add: holds_def)
    also have "\<dots> \<longleftrightarrow> e = ?e"
      using entry_cmp_eq [OF is_entryI [OF True] is_entryI [OF s(2)]] entry_key_inj [OF True s(2)] by blast
    finally show ?thesis .
  qed (use s(2) in \<open>auto simp: holds_def\<close>)
  have newest: "newest_in S [6] 10 e \<longleftrightarrow> e = ?e" for e using holds by (auto simp: newest_in_def)
  let ?W0 = "weak_init S"
  let ?W1 = "?W0\<lparr>wr := (\<lambda>_. RIdle)(0 := RRun ?q (sk_head S) (getMaxHeight S - 1))\<rparr>"
  have start: "?R ?W0 ?W1"
    using weak_step.ws_start [of ?W0 0 is_entry ?q 0 bump_new 16 entry_cmp] is_entryI [OF s(3)]
    by (simp add: weak_init_def now_def state_at_def)
  obtain NS LV where inv: "weak_inv bump_new 16 entry_cmp is_entry ?W1 NS LV"
    using entry_keys.weak_step_inv [OF start weak_init_inv [OF S(1)]] by blast
  have "wr ?W1 0 = RRun ?q (sk_head S) (getMaxHeight S - 1)" by simp
  from entry_keys.search_returns [OF inv this] obtain W x l v r where W: "?R\<^sup>*\<^sup>* ?W1 W" "hist W = hist ?W1"
    "wr W 0 = RRun ?q x l" "wv W 0 \<le> now W"
    "weak_iter entry_cmp (hist W) ?q x l (wv W 0) (now W) = Some (v, Inr r)" by (elim exE conjE) rule
  have run: "?R\<^sup>*\<^sup>* ?W0 W" using start W(1) by (rule converse_rtranclp_into_rtranclp)
  obtain NS' LV' where "weak_inv bump_new 16 entry_cmp is_entry W NS' LV'"
    using entry_keys.weak_steps_inv [OF W(1) inv] by blast
  from entry_keys.weak_load [OF this W(3,4) order_refl] have "v \<le> now W" using W(5) by (metis option.inject prod.inject)
  then have "state_at (hist W) v = S" using W(2) by (simp add: weak_init_def state_at_def now_def)
  then have newer: "holds (state_at (hist W) v) e \<Longrightarrow> holds (state_at (hist ?W0) (wv ?W0 0)) e" for e
    by (simp add: weak_init_def state_at_def)
  have S0': "state_at (hist ?W0) (wv ?W0 0) = S" by (simp add: weak_init_def state_at_def)
  have "\<exists>e. holds S e \<and> visible [6] 10 e" using holds by auto
  with snapshot_isolation [OF S(1) rtranclp.rtrancl_refl run W(3) s(1) W(4) order_refl W(5), unfolded S0']
  have "\<exists>e. newest_in S [6] 10 e \<and> node_key (state_at (hist W) v) r = Some (entry_key e)"
    using newer S0' by simp
  then have "node_key (state_at (hist W) v) r = Some (ikey [6] 3 TypeValue)" using newest by auto
  then show ?thesis using W(5) newest
    by (intro exI [of _ S] exI [of _ "hist W"] exI [of _ x] exI [of _ l] exI [of _ "wv W 0"] exI [of _ "now W"]
        exI [of _ v] exI [of _ r] conjI) simp_all
qed

end
