(* ===== verification/KV_Status.thy ===== *)
theory KV_Status
  imports KV_Coding KV_Logging
begin

text \<open>
  The class \<open>Status\<close> of src/include/status.h and status.cc. A status owns at most one heap
  block, its \<open>state_\<close>; the heap is explicit, so that freeing a block twice, freeing or reading
  one that is gone and forgetting one are visible. The object code is the operations on
  pointers; the abstract value of a status is nothing (success) or a code with a message,
  and the programs of copies, moves, assignments and destructions in the last section are
  shown to compute on these values.

  \<open>memcpy\<close> of the length follows the little-endian byte order of the machine. A new block
  gets an address that was not used before, as under the address sanitizer, which keeps
  freed blocks out of circulation.
\<close>

unbundle bit_operations_syntax

section \<open>Codes and the heap\<close>

text \<open>The enumeration, with the values outside it that the cast from a byte can produce.\<close>

datatype StatuCode =
    StOk | StNotFound | StCorruption | StNotSupported | StInvalidArgument | StIOError
  | StOther byte

fun code_num :: "StatuCode \<Rightarrow> byte" where
  "code_num StOk = 0"
| "code_num StNotFound = 1"
| "code_num StCorruption = 2"
| "code_num StNotSupported = 3"
| "code_num StInvalidArgument = 4"
| "code_num StIOError = 5"
| "code_num (StOther b) = b"

definition code_of :: "byte \<Rightarrow> StatuCode" where
  "code_of b = (if b = 0 then StOk else if b = 1 then StNotFound else if b = 2 then StCorruption
     else if b = 3 then StNotSupported else if b = 4 then StInvalidArgument
     else if b = 5 then StIOError else StOther b)"

record heap =
  hp_blocks :: "nat \<rightharpoonup> block"
  hp_next :: nat

definition new_block :: "heap \<Rightarrow> nat \<Rightarrow> nat \<times> heap" where
  "new_block H n = (hp_next H, H\<lparr>hp_blocks := (hp_blocks H)(hp_next H \<mapsto> local_buf n),
     hp_next := hp_next H + 1\<rparr>)"

definition delete_block :: "heap \<Rightarrow> nat \<Rightarrow> heap option" where
  "delete_block H p =
     (if p = 0 then Some H
      else if p \<in> dom (hp_blocks H) then Some (H\<lparr>hp_blocks := (hp_blocks H)(p := None)\<rparr>)
      else None)"

definition write_block :: "heap \<Rightarrow> nat \<Rightarrow> nat \<Rightarrow> byte list \<Rightarrow> heap option" where
  "write_block H p off bs = do {
     m \<leftarrow> hp_blocks H p;
     m \<leftarrow> store_range m off bs;
     Some (H\<lparr>hp_blocks := (hp_blocks H)(p \<mapsto> m)\<rparr>) }"

definition read_block :: "heap \<Rightarrow> nat \<Rightarrow> nat \<Rightarrow> nat \<Rightarrow> byte list option" where
  "read_block H p off n = do { m \<leftarrow> hp_blocks H p; load_range m off n }"

section \<open>The operations\<close>

type_synonym status = nat  \<comment> \<open>\<open>state_\<close>; 0 is \<open>nullptr\<close>\<close>

definition Status_default :: status where
  "Status_default = 0"

definition Status_success :: status where
  "Status_success = Status_default"

definition Status_new :: "heap \<Rightarrow> StatuCode \<Rightarrow> slice \<Rightarrow> slice \<Rightarrow> (status \<times> heap) option" where
  "Status_new H code msg msg2 = do {
     _ \<leftarrow> cassert (code \<noteq> StOk);
     let len1 = (word_of_nat (sl_size msg) :: u32);
     let len2 = (word_of_nat (sl_size msg2) :: u32);
     let size = len1 + (if len2 \<noteq> 0 then 2 + len2 else 0);
     let (result, H) = new_block H (unat (size + 5));
     H \<leftarrow> write_block H result 0 (le_bytes 4 (unat size));
     H \<leftarrow> write_block H result 4 [code_num code];
     m1 \<leftarrow> load_range (sl_mem msg) (sl_off msg) (unat len1);
     H \<leftarrow> write_block H result 5 m1;
     (if len2 \<noteq> 0 then do {
        H \<leftarrow> write_block H result (unat (5 + len1)) [58];
        H \<leftarrow> write_block H result (unat (6 + len1)) [32];
        m2 \<leftarrow> load_range (sl_mem msg2) (sl_off msg2) (unat len2);
        H \<leftarrow> write_block H result (7 + unat len1) m2;
        Some (result, H) }
      else Some (result, H)) }"

definition Status_notFound :: "heap \<Rightarrow> slice \<Rightarrow> slice \<Rightarrow> (status \<times> heap) option" where
  "Status_notFound H msg msg2 = Status_new H StNotFound msg msg2"

definition Status_corruption :: "heap \<Rightarrow> slice \<Rightarrow> slice \<Rightarrow> (status \<times> heap) option" where
  "Status_corruption H msg msg2 = Status_new H StCorruption msg msg2"

definition Status_notSupported :: "heap \<Rightarrow> slice \<Rightarrow> slice \<Rightarrow> (status \<times> heap) option" where
  "Status_notSupported H msg msg2 = Status_new H StNotSupported msg msg2"

definition Status_invalidArgument :: "heap \<Rightarrow> slice \<Rightarrow> slice \<Rightarrow> (status \<times> heap) option" where
  "Status_invalidArgument H msg msg2 = Status_new H StInvalidArgument msg msg2"

definition Status_ioError :: "heap \<Rightarrow> slice \<Rightarrow> slice \<Rightarrow> (status \<times> heap) option" where
  "Status_ioError H msg msg2 = Status_new H StIOError msg msg2"

definition status_ok :: "status \<Rightarrow> bool" where
  "status_ok s = (s = 0)"

definition status_code :: "heap \<Rightarrow> status \<Rightarrow> StatuCode option" where
  "status_code H s = (if s = 0 then Some StOk
     else do { b \<leftarrow> read_block H s 4 1; Some (code_of (hd b)) })"

definition status_is :: "heap \<Rightarrow> StatuCode \<Rightarrow> status \<Rightarrow> bool option" where
  "status_is H c s = do { c' \<leftarrow> status_code H s; Some (c' = c) }"

definition copyState :: "heap \<Rightarrow> nat \<Rightarrow> (nat \<times> heap) option" where
  "copyState H state = do {
     b \<leftarrow> read_block H state 0 4;
     let size = (word_of_nat (le_value b) :: u32);
     let (result, H) = new_block H (unat (size + 5));
     bs \<leftarrow> read_block H state 0 (unat (size + 5));
     H \<leftarrow> write_block H result 0 bs;
     Some (result, H) }"

definition status_copy :: "heap \<Rightarrow> status \<Rightarrow> (status \<times> heap) option" where
  "status_copy H rhs = (if rhs = 0 then Some (0, H) else copyState H rhs)"

text \<open>A move leaves \<open>nullptr\<close> in the source; the move assignment swaps.\<close>

definition status_move :: "status \<Rightarrow> status \<times> status" where
  "status_move rhs = (let s = rhs in (s, 0))"

definition status_assign :: "heap \<Rightarrow> status \<Rightarrow> status \<Rightarrow> (status \<times> heap) option" where
  "status_assign H s rhs =
     (if s \<noteq> rhs then do {
        H \<leftarrow> delete_block H s;
        (if rhs = 0 then Some (0, H) else copyState H rhs) }
      else Some (s, H))"

definition status_move_assign :: "status \<Rightarrow> status \<Rightarrow> status \<times> status" where
  "status_move_assign s rhs = (rhs, s)"

definition status_destroy :: "heap \<Rightarrow> status \<Rightarrow> heap option" where
  "status_destroy H s = delete_block H s"

definition dec_int :: "byte \<Rightarrow> byte list" where
  "dec_int b = (if unat b < 128 then dec_digits (unat b) else 45 # dec_digits (256 - unat b))"

fun code_text :: "StatuCode \<Rightarrow> byte list" where
  "code_text StOk = ascii ''OK''"
| "code_text StNotFound = ascii ''NotFound: ''"
| "code_text StCorruption = ascii ''Corruption: ''"
| "code_text StNotSupported = ascii ''Not implemented: ''"
| "code_text StInvalidArgument = ascii ''Invalid argument: ''"
| "code_text StIOError = ascii ''IO error: ''"
| "code_text (StOther b) = ascii ''Unknown code('' @ dec_int b @ ascii ''): ''"

definition status_toString :: "heap \<Rightarrow> status \<Rightarrow> byte list option" where
  "status_toString H s =
     (if s = 0 then Some (ascii ''OK'')
      else do {
        c \<leftarrow> status_code H s;
        let result = code_text c;
        b \<leftarrow> read_block H s 0 4;
        m \<leftarrow> read_block H s 5 (le_value b);
        Some (result @ m) })"

section \<open>What a block means\<close>

definition status_block :: "StatuCode \<Rightarrow> byte list \<Rightarrow> block" where
  "status_block c m = le_bytes 4 (length m) @ [code_num c] @ m"

definition full_message :: "byte list \<Rightarrow> byte list \<Rightarrow> byte list" where
  "full_message m1 m2 = (if m2 = [] then m1 else m1 @ [58, 32] @ m2)"

definition good_code :: "StatuCode \<Rightarrow> bool" where
  "good_code c \<longleftrightarrow> c \<in> {StNotFound, StCorruption, StNotSupported, StInvalidArgument, StIOError}"

definition status_holds :: "heap \<Rightarrow> status \<Rightarrow> StatuCode \<Rightarrow> byte list \<Rightarrow> bool" where
  "status_holds H s c m \<longleftrightarrow> s \<noteq> 0 \<and> hp_blocks H s = Some (status_block c m) \<and> length m + 5 < 2 ^ 32
     \<and> good_code c"

lemma length_status_block [simp]: "length (status_block c m) = length m + 5"
  by (simp add: status_block_def)

lemma code_of_num: "good_code c \<Longrightarrow> code_of (code_num c) = c"
  by (auto simp: good_code_def code_of_def)

lemma read_length:
  assumes "status_holds H s c m"
  shows "read_block H s 0 4 = Some (le_bytes 4 (length m))" "le_value (le_bytes 4 (length m)) = length m"
proof -
  have len: "length m < 256 ^ 4" using assms by (simp add: status_holds_def)
  show "read_block H s 0 4 = Some (le_bytes 4 (length m))"
    using assms by (simp add: read_block_def status_holds_def load_range_def status_block_def)
  show "le_value (le_bytes 4 (length m)) = length m" using len by (simp only: le_value_bytes mod_less)
qed

lemma status_code_ok: "status_holds H s c m \<Longrightarrow> status_code H s = Some c"
  by (auto simp: status_code_def read_block_def status_holds_def load_range_def status_block_def code_of_num)

lemma status_toString_ok:
  assumes "status_holds H s c m"
  shows "status_toString H s = Some (code_text c @ m)"
proof -
  have "read_block H s 5 (length m) = Some m"
    using assms by (simp add: read_block_def status_holds_def load_range_def status_block_def)
  then show ?thesis using assms read_length [OF assms] status_code_ok [OF assms]
    by (simp add: status_toString_def Let_def status_holds_def)
qed


section \<open>Construction and copying\<close>

definition with_block :: "heap \<Rightarrow> block \<Rightarrow> heap" where
  "with_block H b = H\<lparr>hp_blocks := (hp_blocks H)(hp_next H \<mapsto> b), hp_next := hp_next H + 1\<rparr>"

lemma new_block_with: "new_block H n = (hp_next H, with_block H (local_buf n))"
  by (simp add: new_block_def with_block_def)

text \<open>A block is filled from the front.\<close>

lemma write_fill:
  assumes "off = length pre" "length bs \<le> n"
  shows "write_block (with_block H (pre @ local_buf n)) (hp_next H) off bs =
    Some (with_block H ((pre @ bs) @ local_buf (n - length bs)))"
proof -
  have "local_buf n = local_buf (length bs) @ local_buf (n - length bs)"
    using assms(2) by (simp add: local_buf_def replicate_add [symmetric])
  moreover have "length (local_buf (length bs)) = length bs" by (simp add: local_buf_def)
  ultimately have "store_range (pre @ local_buf n) (length pre) bs = Some ((pre @ bs) @ local_buf (n - length bs))"
    using store_range_append [of "local_buf (length bs)" bs pre "local_buf (n - length bs)"] by simp
  then show ?thesis by (simp add: assms(1) write_block_def with_block_def)
qed

lemma local_buf_0 [simp]: "local_buf 0 = []"
  by (simp add: local_buf_def)

lemma unat_u32_of_nat: "n < 2 ^ 32 \<Longrightarrow> unat (word_of_nat n :: u32) = n"
  by (simp only: unat_of_nat) simp

text \<open>The constructor computes in 32-bit words; below the limit none of its sums wraps.\<close>

lemma Status_new_sizes:
  assumes ok: "slice_ok msg" "slice_ok msg2"
    and len: "length (full_message (sl_bytes msg) (sl_bytes msg2)) + 5 < 2 ^ 32"
  defines "m1 \<equiv> sl_bytes msg" and "m2 \<equiv> sl_bytes msg2"
    and "n \<equiv> length (full_message (sl_bytes msg) (sl_bytes msg2))"
  shows "unat (word_of_nat (sl_size msg) :: u32) = length m1"
    "unat (word_of_nat (sl_size msg2) :: u32) = length m2"
    "(word_of_nat (sl_size msg2) :: u32) \<noteq> 0 \<longleftrightarrow> m2 \<noteq> []"
    "(word_of_nat (sl_size msg) :: u32) + (if m2 \<noteq> [] then 2 + word_of_nat (sl_size msg2) else 0) = word_of_nat n"
    "unat (word_of_nat n :: u32) = n" "unat (word_of_nat n + 5 :: u32) = n + 5"
    "m2 \<noteq> [] \<Longrightarrow> unat (5 + word_of_nat (sl_size msg) :: u32) = 5 + length m1"
    "m2 \<noteq> [] \<Longrightarrow> unat (6 + word_of_nat (sl_size msg) :: u32) = 6 + length m1"
proof -
  have sz: "sl_size msg = length m1" "sl_size msg2 = length m2"
    using length_sl_bytes [OF ok(1)] length_sl_bytes [OF ok(2)] by (simp_all add: m1_def m2_def)
  have "length m1 < 2 ^ 32" "length m2 < 2 ^ 32"
    using len by (auto simp: full_message_def m1_def m2_def split: if_splits)
  then show l1: "unat (word_of_nat (sl_size msg) :: u32) = length m1"
    and l2: "unat (word_of_nat (sl_size msg2) :: u32) = length m2"
    unfolding sz by (simp_all only: unat_u32_of_nat)
  show "(word_of_nat (sl_size msg2) :: u32) \<noteq> 0 \<longleftrightarrow> m2 \<noteq> []"
    using l2 by (metis length_0_conv unat_eq_zero)
  show "(word_of_nat (sl_size msg) :: u32) + (if m2 \<noteq> [] then 2 + word_of_nat (sl_size msg2) else 0) = word_of_nat n"
    using ok by (simp add: full_message_def m2_def n_def)
  show u: "unat (word_of_nat n :: u32) = n" using len by (intro unat_u32_of_nat) (simp add: n_def)
  show "unat (word_of_nat n + 5 :: u32) = n + 5" using len u by (simp add: n_def unat_plus_if')
  show "unat (5 + word_of_nat (sl_size msg) :: u32) = 5 + length m1"
    "unat (6 + word_of_nat (sl_size msg) :: u32) = 6 + length m1" if "m2 \<noteq> []"
    using that len l1 by (simp_all add: full_message_def m1_def m2_def unat_plus_if')
qed

text \<open>The colon, the blank and the second message after a prefix \<open>b\<close> that is already written.\<close>

lemma write_second:
  "do { H1 \<leftarrow> write_block (with_block H (b @ local_buf (length m2 + 2))) (hp_next H) (length b) [58];
        H2 \<leftarrow> write_block H1 (hp_next H) (Suc (length b)) [32];
        H3 \<leftarrow> write_block H2 (hp_next H) (Suc (Suc (length b))) m2;
        Some (hp_next H, H3) } = Some (hp_next H, with_block H (b @ [58, 32] @ m2))"
proof -
  have a: "write_block (with_block H (b @ local_buf (length m2 + 2))) (hp_next H) (length b) [58] =
      Some (with_block H ((b @ [58]) @ local_buf (length m2 + 1)))"
    using write_fill [of "length b" b "[58]" "length m2 + 2" H] by simp
  have c: "write_block (with_block H ((b @ [58]) @ local_buf (length m2 + 1))) (hp_next H) (Suc (length b)) [32] =
      Some (with_block H (((b @ [58]) @ [32]) @ local_buf (length m2)))"
    using write_fill [of "Suc (length b)" "b @ [58]" "[32]" "length m2 + 1" H] by simp
  have d: "write_block (with_block H (((b @ [58]) @ [32]) @ local_buf (length m2))) (hp_next H)
      (Suc (Suc (length b))) m2 = Some (with_block H ((((b @ [58]) @ [32]) @ m2) @ local_buf (length m2 - length m2)))"
    by (rule write_fill) auto
  show ?thesis unfolding a c d Option.bind.bind_lunit by simp
qed

lemma Status_new_ok:
  assumes ok: "slice_ok msg" "slice_ok msg2" and c: "good_code c"
    and len: "length (full_message (sl_bytes msg) (sl_bytes msg2)) + 5 < 2 ^ 32"
  shows "Status_new H c msg msg2 =
    Some (hp_next H, with_block H (status_block c (full_message (sl_bytes msg) (sl_bytes msg2))))"
proof -
  let ?m1 = "sl_bytes msg" and ?m2 = "sl_bytes msg2" and ?m = "full_message (sl_bytes msg) (sl_bytes msg2)"
  let ?n = "length ?m" and ?p = "(le_bytes 4 (length ?m) @ [code_num c]) @ ?m1"
  note sizes = Status_new_sizes [OF ok len]
  have load: "load_range (sl_mem msg) (sl_off msg) (length ?m1) = Some ?m1"
    "load_range (sl_mem msg2) (sl_off msg2) (length ?m2) = Some ?m2"
    using slice_toString_ok [OF ok(1)] slice_toString_ok [OF ok(2)] ok by (simp_all add: slice_toString_def)
  have w1: "write_block (with_block H (local_buf (?n + 5))) (hp_next H) 0 (le_bytes 4 ?n) =
      Some (with_block H (le_bytes 4 ?n @ local_buf (?n + 1)))"
    using write_fill [of 0 "[]" "le_bytes 4 ?n" "?n + 5" H] by simp
  have w2: "write_block (with_block H (le_bytes 4 ?n @ local_buf (?n + 1))) (hp_next H) 4 [code_num c] =
      Some (with_block H ((le_bytes 4 ?n @ [code_num c]) @ local_buf ?n))"
    using write_fill [of 4 "le_bytes 4 ?n" "[code_num c]" "?n + 1" H] by simp
  have w3: "write_block (with_block H ((le_bytes 4 ?n @ [code_num c]) @ local_buf ?n)) (hp_next H) 5 ?m1 =
      Some (with_block H (?p @ local_buf (?n - length ?m1)))"
    by (rule write_fill) (auto simp: full_message_def)
  have "cassert (c \<noteq> StOk) = Some ()" using c by (auto simp: good_code_def)
  then have start: "Status_new H c msg msg2 = (if ?m2 \<noteq> [] then do {
        H1 \<leftarrow> write_block (with_block H (?p @ local_buf (?n - length ?m1))) (hp_next H) (5 + length ?m1) [58];
        H2 \<leftarrow> write_block H1 (hp_next H) (6 + length ?m1) [32];
        H3 \<leftarrow> write_block H2 (hp_next H) (7 + length ?m1) ?m2;
        Some (hp_next H, H3) }
      else Some (hp_next H, with_block H (?p @ local_buf (?n - length ?m1))))"
    unfolding Status_new_def Let_def sizes(1-6) new_block_with prod.case load w1 Option.bind.bind_lunit w2 w3
    using sizes(7,8) by (cases "?m2 = []") (simp_all del: append_assoc)
  show ?thesis
    using write_second [of H ?p ?m2]
    by (cases "?m2 = []") (simp_all add: start full_message_def status_block_def)
qed

lemma copyState_ok:
  assumes "status_holds H s c m" "s \<noteq> hp_next H"
  shows "copyState H s = Some (hp_next H, with_block H (status_block c m))"
proof -
  have len: "length m + 5 < 2 ^ 32" using assms by (simp add: status_holds_def)
  have u: "unat (word_of_nat (length m) :: u32) = length m" using len by (intro unat_u32_of_nat) simp
  have u5: "unat (word_of_nat (length m) + 5 :: u32) = length m + 5" using len u by (simp add: unat_plus_if')
  have rd: "read_block (with_block H b) s 0 (length m + 5) = Some (status_block c m)" for b
    using assms by (simp add: read_block_def with_block_def status_holds_def load_range_def)
  have "write_block (with_block H (local_buf (length m + 5))) (hp_next H) 0 (status_block c m) =
      Some (with_block H (status_block c m))"
    using write_fill [of 0 "[]" "status_block c m" "length m + 5" H] by simp
  then show ?thesis using read_length [OF assms(1)] rd u5
    by (simp add: copyState_def new_block_with)
qed


section \<open>Programs on statuses\<close>

text \<open>What a program can do with objects of the class; the numbers are its variables.\<close>

datatype cmd =
    Default nat
  | Make nat StatuCode slice slice
  | Copy nat nat          \<comment> \<open>\<open>Status v(w)\<close>\<close>
  | Move nat nat          \<comment> \<open>\<open>Status v(std::move(w))\<close>\<close>
  | Assign nat nat        \<comment> \<open>\<open>v = w\<close>\<close>
  | MoveAssign nat nat    \<comment> \<open>\<open>v = std::move(w)\<close>\<close>
  | Destroy nat           \<comment> \<open>the end of the variable's life\<close>

record pstate =
  pv :: "nat \<rightharpoonup> status"
  ph :: heap

definition pstate_new :: pstate where
  "pstate_new = \<lparr>pv = Map.empty, ph = \<lparr>hp_blocks = Map.empty, hp_next = 1\<rparr>\<rparr>"

fun exec :: "cmd \<Rightarrow> pstate \<Rightarrow> pstate option" where
  "exec (Default v) s = Some (s\<lparr>pv := (pv s)(v \<mapsto> Status_default)\<rparr>)"
| "exec (Make v c msg msg2) s = do {
     (p, H) \<leftarrow> Status_new (ph s) c msg msg2;
     Some (s\<lparr>pv := (pv s)(v \<mapsto> p), ph := H\<rparr>) }"
| "exec (Copy v w) s = do {
     q \<leftarrow> pv s w;
     (p, H) \<leftarrow> status_copy (ph s) q;
     Some (s\<lparr>pv := (pv s)(v \<mapsto> p), ph := H\<rparr>) }"
| "exec (Move v w) s = do {
     q \<leftarrow> pv s w;
     let (p, q) = status_move q;
     Some (s\<lparr>pv := (pv s)(v \<mapsto> p, w \<mapsto> q)\<rparr>) }"
| "exec (Assign v w) s = do {
     p \<leftarrow> pv s v;
     q \<leftarrow> pv s w;
     (p, H) \<leftarrow> status_assign (ph s) p q;
     Some (s\<lparr>pv := (pv s)(v \<mapsto> p), ph := H\<rparr>) }"
| "exec (MoveAssign v w) s = do {
     p \<leftarrow> pv s v;
     q \<leftarrow> pv s w;
     let (p, q) = status_move_assign p q;
     Some (s\<lparr>pv := (pv s)(w \<mapsto> q, v \<mapsto> p)\<rparr>) }"
| "exec (Destroy v) s = do {
     p \<leftarrow> pv s v;
     H \<leftarrow> status_destroy (ph s) p;
     Some (s\<lparr>pv := (pv s)(v := None), ph := H\<rparr>) }"

primrec exec_run :: "cmd list \<Rightarrow> pstate \<Rightarrow> pstate option" where
  "exec_run [] s = Some s"
| "exec_run (c # cs) s = do { s \<leftarrow> exec c s; exec_run cs s }"

text \<open>The same on values: \<open>None\<close> is success.\<close>

type_synonym status_val = "(StatuCode \<times> byte list) option"

fun aexec :: "cmd \<Rightarrow> (nat \<rightharpoonup> status_val) \<Rightarrow> (nat \<rightharpoonup> status_val)" where
  "aexec (Default v) m = m(v \<mapsto> None)"
| "aexec (Make v c msg msg2) m = m(v \<mapsto> Some (c, full_message (sl_bytes msg) (sl_bytes msg2)))"
| "aexec (Copy v w) m = m(v := m w)"
| "aexec (Move v w) m = m(v := m w, w \<mapsto> None)"
| "aexec (Assign v w) m = m(v := m w)"
| "aexec (MoveAssign v w) m = m(w := m v, v := m w)"
| "aexec (Destroy v) m = m(v := None)"

text \<open>What the compiler and the callers see to: variables are constructed before use and
  once; codes are error codes; messages of 4 GB do not occur.\<close>

fun legal_cmd :: "cmd \<Rightarrow> (nat \<rightharpoonup> status_val) \<Rightarrow> bool" where
  "legal_cmd (Default v) m = (v \<notin> dom m)"
| "legal_cmd (Make v c msg msg2) m = (v \<notin> dom m \<and> good_code c \<and> slice_ok msg \<and> slice_ok msg2
     \<and> length (full_message (sl_bytes msg) (sl_bytes msg2)) + 5 < 2 ^ 32)"
| "legal_cmd (Copy v w) m = (v \<notin> dom m \<and> w \<in> dom m)"
| "legal_cmd (Move v w) m = (v \<notin> dom m \<and> w \<in> dom m)"
| "legal_cmd (Assign v w) m = (v \<in> dom m \<and> w \<in> dom m)"
| "legal_cmd (MoveAssign v w) m = (v \<in> dom m \<and> w \<in> dom m)"
| "legal_cmd (Destroy v) m = (v \<in> dom m)"

primrec legal_run :: "cmd list \<Rightarrow> (nat \<rightharpoonup> status_val) \<Rightarrow> bool" where
  "legal_run [] m = True"
| "legal_run (c # cs) m = (legal_cmd c m \<and> legal_run cs (aexec c m))"

text \<open>
  Every variable holds its value; no block has two owners, and every block has one.
\<close>

definition holds_val :: "heap \<Rightarrow> status \<Rightarrow> status_val \<Rightarrow> bool" where
  "holds_val H p a = (case a of None \<Rightarrow> p = 0 | Some (c, t) \<Rightarrow> status_holds H p c t)"

definition sim :: "pstate \<Rightarrow> (nat \<rightharpoonup> status_val) \<Rightarrow> bool" where
  "sim s m \<longleftrightarrow> dom (pv s) = dom m
     \<and> (\<forall>v p a. pv s v = Some p \<longrightarrow> m v = Some a \<longrightarrow> holds_val (ph s) p a)
     \<and> (\<forall>v w p. pv s v = Some p \<longrightarrow> pv s w = Some p \<longrightarrow> p \<noteq> 0 \<longrightarrow> v = w)
     \<and> (\<forall>p \<in> dom (hp_blocks (ph s)). 0 < p \<and> p < hp_next (ph s) \<and> (\<exists>v. pv s v = Some p))
     \<and> 0 < hp_next (ph s)"

lemma simD:
  assumes "sim s m"
  shows "dom (pv s) = dom m" "pv s v = Some p \<Longrightarrow> m v = Some a \<Longrightarrow> holds_val (ph s) p a"
    "pv s v = Some p \<Longrightarrow> pv s w = Some p \<Longrightarrow> p \<noteq> 0 \<Longrightarrow> v = w"
    "p \<in> dom (hp_blocks (ph s)) \<Longrightarrow> 0 < p" "p \<in> dom (hp_blocks (ph s)) \<Longrightarrow> p < hp_next (ph s)"
    "p \<in> dom (hp_blocks (ph s)) \<Longrightarrow> \<exists>v. pv s v = Some p" "0 < hp_next (ph s)"
proof -
  note s = assms [unfolded sim_def]
  show "dom (pv s) = dom m" using s by (rule conjunct1)
  note s1 = conjunct2 [OF s]
  show "holds_val (ph s) p a" if "pv s v = Some p" "m v = Some a" using conjunct1 [OF s1] that by blast
  note s2 = conjunct2 [OF s1]
  show "v = w" if "pv s v = Some p" "pv s w = Some p" "p \<noteq> 0" using conjunct1 [OF s2] that by blast
  note s3 = conjunct2 [OF s2]
  show "0 < p" "p < hp_next (ph s)" "\<exists>v. pv s v = Some p" if "p \<in> dom (hp_blocks (ph s))"
    using conjunct1 [OF s3] that by blast+
  show "0 < hp_next (ph s)" using conjunct2 [OF s3] .
qed

lemma sim_var:
  assumes "sim s m" "v \<in> dom m"
  obtains p a where "pv s v = Some p" "m v = Some a" "holds_val (ph s) p a"
proof -
  from assms(2) obtain a where "m v = Some a" by auto
  moreover from assms obtain p where "pv s v = Some p" using simD(1) by (metis domD)
  ultimately show thesis using that simD(2) [OF assms(1)] by blast
qed

lemma holds_val_owned: "holds_val H p a \<Longrightarrow> p \<noteq> 0 \<Longrightarrow> p \<in> dom (hp_blocks H)"
  by (auto simp: holds_val_def status_holds_def split: option.splits)

lemma simI:
  assumes "dom P = dom m" "\<And>v p a. P v = Some p \<Longrightarrow> m v = Some a \<Longrightarrow> holds_val H p a"
    "\<And>v w p. P v = Some p \<Longrightarrow> P w = Some p \<Longrightarrow> p \<noteq> 0 \<Longrightarrow> v = w"
    "\<And>p. p \<in> dom (hp_blocks H) \<Longrightarrow> 0 < p \<and> p < hp_next H \<and> (\<exists>v. P v = Some p)" "0 < hp_next H"
  shows "sim (s\<lparr>pv := P, ph := H\<rparr>) m"
  using assms unfolding sim_def by simp

lemma sim_delete:
  assumes s: "sim s m" and v: "pv s v = Some p"
  shows "\<exists>H. delete_block (ph s) p = Some H \<and> sim (s\<lparr>pv := (pv s)(v := None), ph := H\<rparr>) (m(v := None))"
proof -
  note d = simD [OF s]
  let ?P = "(pv s)(v := None)"
  have val: "holds_val (ph s) p (the (m v))" using v d(1,2) by (metis domD domI option.sel)
  define H where "H = (ph s)\<lparr>hp_blocks := (hp_blocks (ph s))(p := None)\<rparr>"
  have same: "holds_val H q a" if "holds_val (ph s) q a" "q \<noteq> p \<or> q = 0" for q a
    using that by (auto simp: holds_val_def status_holds_def H_def split: option.splits)
  have other: "q \<noteq> p \<or> q = 0" if "pv s w = Some q" "w \<noteq> v" for w q
    using d(3) [OF that(1), of v] v that(2) by auto
  have del: "delete_block (ph s) p = Some H"
  proof (cases "p = 0")
    case True
    have "0 \<notin> dom (hp_blocks (ph s))" using d(4) by blast
    then have "(hp_blocks (ph s))(0 := None) = hp_blocks (ph s)" by (auto simp: fun_upd_idem_iff domIff)
    then show ?thesis using True by (simp add: delete_block_def H_def)
  next
    case False
    then show ?thesis using holds_val_owned [OF val] by (simp add: delete_block_def H_def)
  qed
  have "sim (s\<lparr>pv := ?P, ph := H\<rparr>) (m(v := None))"
  proof (rule simI)
    show "dom ?P = dom (m(v := None))" using d(1) by simp
    show "holds_val H q a" if "?P w = Some q" "(m(v := None)) w = Some a" for w q a
      using that d(2) [of w q a] same other by (auto split: if_splits)
    show "w = u" if "?P w = Some q" "?P u = Some q" "q \<noteq> 0" for w u q
      using that d(3) by (auto split: if_splits)
    show "0 < q \<and> q < hp_next H \<and> (\<exists>w. ?P w = Some q)" if "q \<in> dom (hp_blocks H)" for q
    proof -
      have q: "q \<in> dom (hp_blocks (ph s))" "q \<noteq> p" using that by (auto simp: H_def split: if_splits)
      then obtain w where "pv s w = Some q" using d(6) by blast
      moreover have "w \<noteq> v" using v q(2) calculation by auto
      ultimately show ?thesis using d(4,5) q(1) by (auto simp: H_def)
    qed
    show "0 < hp_next H" using d(7) by (simp add: H_def)
  qed
  then show ?thesis using del by blast
qed

lemma sim_new:
  assumes s: "sim s m" and v: "v \<notin> dom m" and c: "good_code c" "length t + 5 < 2 ^ 32"
  shows "sim (s\<lparr>pv := (pv s)(v \<mapsto> hp_next (ph s)), ph := with_block (ph s) (status_block c t)\<rparr>) (m(v \<mapsto> Some (c, t)))"
proof (rule simI)
  note d = simD [OF s]
  let ?n = "hp_next (ph s)" and ?H = "with_block (ph s) (status_block c t)" and ?P = "(pv s)(v \<mapsto> hp_next (ph s))"
  have fresh: "?n \<notin> dom (hp_blocks (ph s))" using d(5) by blast
  have n0: "?n \<noteq> 0" using d(7) by simp
  have old: "q \<noteq> ?n" if q: "pv s w = Some q" for w q
  proof
    assume eq: "q = ?n"
    have "w \<in> dom m" using q d(1) by (metis domI)
    then obtain a where "m w = Some a" by auto
    then have "holds_val (ph s) ?n a" using d(2) q eq by blast
    then show False using holds_val_owned n0 fresh by blast
  qed
  have vn: "pv s v = None" using v d(1) by (metis domIff)
  show "dom ?P = dom (m(v \<mapsto> Some (c, t)))" using d(1) by simp
  show "holds_val ?H q a" if "?P w = Some q" "(m(v \<mapsto> Some (c, t))) w = Some a" for w q a
  proof (cases "w = v")
    case True
    then show ?thesis using that c n0 by (auto simp: holds_val_def status_holds_def with_block_def)
  next
    case False
    then have "pv s w = Some q" "m w = Some a" using that by auto
    then show ?thesis using d(2) [of w q a] old [of w q]
      by (auto simp: holds_val_def status_holds_def with_block_def split: option.splits)
  qed
  show "w = u" if "?P w = Some q" "?P u = Some q" "q \<noteq> 0" for w u q
    using that d(3) [of w q u] old by (auto split: if_splits)
  show "0 < q \<and> q < hp_next ?H \<and> (\<exists>w. ?P w = Some q)" if "q \<in> dom (hp_blocks ?H)" for q
  proof (cases "q = ?n")
    case True
    then show ?thesis using n0 by (auto simp: with_block_def)
  next
    case False
    then have q: "q \<in> dom (hp_blocks (ph s))" using that by (auto simp: with_block_def split: if_splits)
    then obtain w where w: "pv s w = Some q" using d(6) by blast
    then have "?P w = Some q" using vn by auto
    then show ?thesis using d(4,5) [OF q] by (auto simp: with_block_def simp del: fun_upd_apply)
  qed
  show "0 < hp_next ?H" by (simp add: with_block_def)
qed

lemma sim_null:
  assumes s: "sim s m" and v: "v \<notin> dom m"
  shows "sim (s\<lparr>pv := (pv s)(v \<mapsto> 0)\<rparr>) (m(v \<mapsto> None))"
proof -
  note d = simD [OF s]
  have vn: "pv s v = None" using v d(1) by (metis domIff)
  have "sim (s\<lparr>pv := (pv s)(v \<mapsto> 0), ph := ph s\<rparr>) (m(v \<mapsto> None))"
  proof (rule simI)
    show "0 < p \<and> p < hp_next (ph s) \<and> (\<exists>w. ((pv s)(v \<mapsto> 0)) w = Some p)"
      if "p \<in> dom (hp_blocks (ph s))" for p
    proof -
      have p: "p \<in> dom (hp_blocks (ph s))" using that .
      obtain w where w: "pv s w = Some p" using d(6) [OF p] by blast
      then have "((pv s)(v \<mapsto> 0)) w = Some p" using vn by auto
      then show ?thesis using d(4,5) [OF p] by blast
    qed
    show "holds_val (ph s) p a" if "((pv s)(v \<mapsto> 0)) w = Some p" "(m(v \<mapsto> None)) w = Some a" for w p a
      using that d(2) by (auto simp: holds_val_def split: if_splits)
    show "w = u" if "((pv s)(v \<mapsto> 0)) w = Some p" "((pv s)(v \<mapsto> 0)) u = Some p" "p \<noteq> 0" for w u p
      using that d(3) by (auto split: if_splits)
  qed (use d(1,7) in auto)
  then show ?thesis by simp
qed

lemma sim_copy:
  assumes s: "sim s m" and v: "v \<notin> dom m" and w: "w \<in> dom m" "pv s w = Some q"
  shows "\<exists>p H. status_copy (ph s) q = Some (p, H)
    \<and> sim (s\<lparr>pv := (pv s)(v \<mapsto> p), ph := H\<rparr>) (m(v := m w))"
proof -
  note d = simD [OF s]
  obtain a where a: "m w = Some a" using w(1) by auto
  note val = d(2) [OF w(2) a]
  show ?thesis
  proof (cases a)
    case None
    then have q: "q = 0" using val by (simp add: holds_val_def)
    then show ?thesis using sim_null [OF s v] a None by (auto simp: status_copy_def)
  next
    case (Some ct)
    obtain c t where ct: "ct = (c, t)" by force
    then have h: "status_holds (ph s) q c t" using val Some by (simp add: holds_val_def)
    then have "q \<in> dom (hp_blocks (ph s))" "q \<noteq> 0" by (auto simp: status_holds_def)
    then have "q \<noteq> hp_next (ph s)" using d(5) by blast
    then have "status_copy (ph s) q = Some (hp_next (ph s), with_block (ph s) (status_block c t))"
      using copyState_ok [OF h] \<open>q \<noteq> 0\<close> by (simp add: status_copy_def)
    moreover have "good_code c" "length t + 5 < 2 ^ 32" using h by (simp_all add: status_holds_def)
    ultimately show ?thesis using sim_new [OF s v] a Some ct by simp
  qed
qed


lemma sim_move:
  assumes s: "sim s m" and v: "v \<notin> dom m" and w: "pv s w = Some q"
  shows "sim (s\<lparr>pv := (pv s)(v \<mapsto> q, w \<mapsto> 0)\<rparr>) (m(v := m w, w \<mapsto> None))"
proof -
  note d = simD [OF s]
  have wm: "w \<in> dom m" using w d(1) by auto
  then have vw: "v \<noteq> w" using v by auto
  have vn: "pv s v = None" using v d(1) by (metis domIff)
  have "sim (s\<lparr>pv := (pv s)(v \<mapsto> q, w \<mapsto> 0), ph := ph s\<rparr>) (m(v := m w, w \<mapsto> None))"
  proof (rule simI)
    show "dom ((pv s)(v \<mapsto> q, w \<mapsto> 0)) = dom (m(v := m w, w \<mapsto> None))" using d(1) wm by auto
    show "holds_val (ph s) p a" if "((pv s)(v \<mapsto> q, w \<mapsto> 0)) u = Some p" "(m(v := m w, w \<mapsto> None)) u = Some a" for u p a
      using that d(2) [of u p a] d(2) [OF w, of a] by (auto simp: holds_val_def split: if_splits)
    show "u = x" if "((pv s)(v \<mapsto> q, w \<mapsto> 0)) u = Some p" "((pv s)(v \<mapsto> q, w \<mapsto> 0)) x = Some p" "p \<noteq> 0" for u x p
      using that d(3) [of _ p _] d(3) [OF w] vw by (auto split: if_splits)
    show "0 < p \<and> p < hp_next (ph s) \<and> (\<exists>u. ((pv s)(v \<mapsto> q, w \<mapsto> 0)) u = Some p)"
      if p: "p \<in> dom (hp_blocks (ph s))" for p
    proof -
      obtain u where u: "pv s u = Some p" using d(6) [OF p] by blast
      have "((pv s)(v \<mapsto> q, w \<mapsto> 0)) (if u = w then v else u) = Some p" using u w vw vn by auto
      then show ?thesis using d(4,5) [OF p] by blast
    qed
  qed (use d(7) in simp)
  then show ?thesis by simp
qed

lemma sim_swap:
  assumes s: "sim s m" and v: "pv s v = Some p" and w: "pv s w = Some q"
  shows "sim (s\<lparr>pv := (pv s)(w \<mapsto> p, v \<mapsto> q)\<rparr>) (m(w := m v, v := m w))"
proof -
  note d = simD [OF s]
  let ?f = "\<lambda>u. if u = v then w else if u = w then v else u"
  have P: "((pv s)(w \<mapsto> p, v \<mapsto> q)) u = pv s (?f u)" for u using v w by auto
  have M: "(m(w := m v, v := m w)) u = m (?f u)" for u by auto
  have f: "?f (?f u) = u" for u by auto
  have dm: "v \<in> dom m" "w \<in> dom m" using v w d(1) by auto
  have "sim (s\<lparr>pv := (pv s)(w \<mapsto> p, v \<mapsto> q), ph := ph s\<rparr>) (m(w := m v, v := m w))"
  proof (rule simI)
    show "dom ((pv s)(w \<mapsto> p, v \<mapsto> q)) = dom (m(w := m v, v := m w))" using d(1) dm by auto
    show "holds_val (ph s) r a" if "((pv s)(w \<mapsto> p, v \<mapsto> q)) u = Some r" "(m(w := m v, v := m w)) u = Some a" for u r a
      using that d(2) unfolding P M by blast
    show "u = x" if "((pv s)(w \<mapsto> p, v \<mapsto> q)) u = Some r" "((pv s)(w \<mapsto> p, v \<mapsto> q)) x = Some r" "r \<noteq> 0" for u x r
    proof -
      have "?f u = ?f x" using that d(3) unfolding P by blast
      then show ?thesis using f by metis
    qed
    show "0 < r \<and> r < hp_next (ph s) \<and> (\<exists>u. ((pv s)(w \<mapsto> p, v \<mapsto> q)) u = Some r)"
      if r: "r \<in> dom (hp_blocks (ph s))" for r
    proof -
      obtain u where "pv s u = Some r" using d(6) [OF r] by blast
      then have "((pv s)(w \<mapsto> p, v \<mapsto> q)) (?f u) = Some r" unfolding P f .
      then show ?thesis using d(4,5) [OF r] by blast
    qed
  qed (use d(7) in simp)
  then show ?thesis by simp
qed

text \<open>Assigning a Status to itself, or a null one to a null one, changes nothing:
  two variables hold the same block only when they are one variable or both null.\<close>

lemma sim_same:
  assumes s: "sim s m" and v: "pv s v = Some p" and w: "pv s w = Some p"
  shows "m(v := m w) = m"
proof (cases "v = w")
  case False
  then have z: "p = 0" using simD(3) [OF s v] w by auto
  have l: "v \<in> dom m" "w \<in> dom m" using v w simD(1) [OF s] by (metis domI)+
  obtain a where a: "m v = Some a" "holds_val (ph s) 0 a" using sim_var [OF s l(1)] v z by auto
  obtain b where b: "m w = Some b" "holds_val (ph s) 0 b" using sim_var [OF s l(2)] w z by auto
  have none: "x = None" if "holds_val (ph s) 0 x" for x
    using that by (cases x) (auto simp: holds_val_def status_holds_def)
  have "m w = m v" using none [OF a(2)] none [OF b(2)] a(1) b(1) by simp
  then show ?thesis by simp
qed simp

lemma sim_assign:
  assumes s: "sim s m" and l: "v \<in> dom m" "w \<in> dom m"
  shows "\<exists>s'. exec (Assign v w) s = Some s' \<and> sim s' (m(v := m w))"
proof -
  obtain p where p: "pv s v = Some p" using sim_var [OF s l(1)] by blast
  obtain q where q: "pv s w = Some q" using sim_var [OF s l(2)] by blast
  show ?thesis
  proof (cases "p = q")
    case True
    have "exec (Assign v w) s = Some s" using True p q by (cases s) (auto simp: status_assign_def)
    then show ?thesis using s sim_same [OF s p] q True by simp
  next
    case False
    then have vw: "v \<noteq> w" using p q by auto
    obtain H where H: "delete_block (ph s) p = Some H"
      "sim (s\<lparr>pv := (pv s)(v := None), ph := H\<rparr>) (m(v := None))"
      using sim_delete [OF s p] by blast
    have "\<exists>p' H'. status_copy H q = Some (p', H')
        \<and> sim (s\<lparr>pv := (pv s)(v \<mapsto> p'), ph := H'\<rparr>) (m(v := m w))"
      using sim_copy [OF H(2), of v w q] vw l(2) q by simp
    then show ?thesis using False p q H(1) by (auto simp: status_assign_def status_copy_def)
  qed
qed

lemma exec_sim:
  assumes s: "sim s m" and legal: "legal_cmd c m"
  shows "\<exists>s'. exec c s = Some s' \<and> sim s' (aexec c m)"
proof (cases c)
  case (Default v)
  then show ?thesis using sim_null [OF s, of v] legal by (simp add: Status_default_def)
next
  case (Make v code msg msg2)
  then have l: "v \<notin> dom m" "good_code code" "slice_ok msg" "slice_ok msg2"
    "length (full_message (sl_bytes msg) (sl_bytes msg2)) + 5 < 2 ^ 32" using legal by auto
  have "exec c s = Some (s\<lparr>pv := (pv s)(v \<mapsto> hp_next (ph s)),
      ph := with_block (ph s) (status_block code (full_message (sl_bytes msg) (sl_bytes msg2)))\<rparr>)"
    using Status_new_ok [OF l(3,4,2,5)] Make by simp
  then show ?thesis using sim_new [OF s l(1,2,5)] Make by simp
next
  case (Copy v w)
  then have l: "v \<notin> dom m" "w \<in> dom m" using legal by auto
  obtain q a where q: "pv s w = Some q" using sim_var [OF s l(2)] by blast
  show ?thesis using sim_copy [OF s l q] q Copy by auto
next
  case (Move v w)
  then have l: "v \<notin> dom m" "w \<in> dom m" using legal by auto
  obtain q where q: "pv s w = Some q" using sim_var [OF s l(2)] by blast
  show ?thesis using sim_move [OF s l(1) q] q Move by (simp add: status_move_def)
next
  case (Assign v w)
  then show ?thesis using sim_assign [OF s, of v w] legal by simp
next
  case (MoveAssign v w)
  then have l: "v \<in> dom m" "w \<in> dom m" using legal by auto
  obtain p where p: "pv s v = Some p" using sim_var [OF s l(1)] by blast
  obtain q where q: "pv s w = Some q" using sim_var [OF s l(2)] by blast
  show ?thesis using sim_swap [OF s p q] p q MoveAssign by (simp add: status_move_assign_def)
next
  case (Destroy v)
  then obtain p where p: "pv s v = Some p" using sim_var [OF s] legal by (metis legal_cmd.simps(7))
  show ?thesis using sim_delete [OF s p] p Destroy by (auto simp: status_destroy_def)
qed

lemma exec_run_sim:
  "sim s m \<Longrightarrow> legal_run cs m \<Longrightarrow> \<exists>s'. exec_run cs s = Some s' \<and> sim s' (fold aexec cs m)"
proof (induction cs arbitrary: s m)
  case (Cons c cs)
  then show ?case using exec_sim [of s m c] by fastforce
qed simp

lemma sim_new_state: "sim pstate_new Map.empty"
  by (simp add: sim_def pstate_new_def)

section \<open>Properties\<close>

text \<open>
  C14 (src/include/status.h and status.cc, the constructors, assignments and the destructor).
  In every program that builds, copies, moves, assigns (to itself as well) and destroys
  statuses in any order, no assertion fails, no block is freed twice, none is read after it
  was freed or outside its bounds, and every variable has the value that the abstract
  program on values gives it: a copy has the code and the message of its source, a moved-from
  status is a success, a move assignment exchanges the two. When all variables are gone, no
  block is left.
\<close>

theorem status_programs_correct:
  assumes "legal_run cs Map.empty"
  shows "\<exists>s. exec_run cs pstate_new = Some s
    \<and> dom (pv s) = dom (fold aexec cs Map.empty)
    \<and> (\<forall>v a. fold aexec cs Map.empty v = Some a \<longrightarrow> (\<exists>p. pv s v = Some p
        \<and> status_code (ph s) p = Some (case a of None \<Rightarrow> StOk | Some (c, t) \<Rightarrow> c)
        \<and> status_toString (ph s) p = Some (case a of None \<Rightarrow> ascii ''OK'' | Some (c, t) \<Rightarrow> code_text c @ t)))
    \<and> (fold aexec cs Map.empty = Map.empty \<longrightarrow> hp_blocks (ph s) = Map.empty)"
proof -
  obtain s where s: "exec_run cs pstate_new = Some s" "sim s (fold aexec cs Map.empty)"
    using exec_run_sim [OF sim_new_state assms] by blast
  note d = simD [OF s(2)]
  have val: "\<exists>p. pv s v = Some p
      \<and> status_code (ph s) p = Some (case a of None \<Rightarrow> StOk | Some (c, t) \<Rightarrow> c)
      \<and> status_toString (ph s) p = Some (case a of None \<Rightarrow> ascii ''OK'' | Some (c, t) \<Rightarrow> code_text c @ t)"
    if a: "fold aexec cs Map.empty v = Some a" for v a
  proof -
    have "v \<in> dom (pv s)" unfolding d(1) using a by (rule domI)
    then obtain p where p: "pv s v = Some p" by (auto simp: dom_def)
    note h = d(2) [OF p a]
    show ?thesis
    proof (cases a)
      case None
      then show ?thesis using p h by (auto simp: holds_val_def status_code_def status_toString_def)
    next
      case (Some ct)
      then obtain c t where "ct = (c, t)" "status_holds (ph s) p c t" using h by (cases ct) (auto simp: holds_val_def)
      then show ?thesis using p Some status_code_ok status_toString_ok by fastforce
    qed
  qed
  have "hp_blocks (ph s) = Map.empty" if "fold aexec cs Map.empty = Map.empty"
  proof -
    have "pv s = Map.empty" using d(1) that by auto
    then have "dom (hp_blocks (ph s)) = {}" using d(6) by fastforce
    then show ?thesis by simp
  qed
  then show ?thesis using s(1) d(1) val by blast
qed

theorem status_programs_correct_witness:
  "\<exists>s. exec_run [Make 0 StNotFound (Slice_string [97]) (Slice_string [98]), Copy 1 0, Move 2 0, Assign 1 1,
      MoveAssign 0 2, Destroy 1, Destroy 2, Destroy 0] pstate_new = Some s \<and> hp_blocks (ph s) = Map.empty"
proof -
  let ?cs = "[Make 0 StNotFound (Slice_string [97]) (Slice_string [98]), Copy 1 0, Move 2 0, Assign 1 1,
      MoveAssign 0 2, Destroy 1, Destroy 2, Destroy 0]"
  have "legal_run ?cs Map.empty" by (simp add: good_code_def full_message_def)
  moreover have "fold aexec ?cs Map.empty = Map.empty" by (auto simp: fun_eq_iff)
  ultimately show ?thesis using status_programs_correct [of ?cs] by auto
qed

text \<open>
  C39 (src/include/status.cc, the constructor and \<open>toString\<close>). An error status built from
  two messages is not ok, has exactly its own code, and prints the text of its code, the
  first message and, if the second is not empty, a colon, a space and the second message.
  A status built with the code for success aborts; the status of success is ok and prints
  \<open>OK\<close>.
\<close>

theorem status_roundtrip:
  assumes "slice_ok msg" "slice_ok msg2"
    and "length (full_message (sl_bytes msg) (sl_bytes msg2)) + 5 < 2 ^ 32"
    and "c \<in> {StNotFound, StCorruption, StNotSupported, StInvalidArgument, StIOError}" "hp_next H \<noteq> 0"
  shows "\<exists>s H'. Status_new H c msg msg2 = Some (s, H') \<and> \<not> status_ok s
    \<and> (\<forall>c'. status_is H' c' s = Some (c' = c))
    \<and> status_toString H' s = Some (code_text c @ sl_bytes msg @
        (if sl_bytes msg2 = [] then [] else [58, 32] @ sl_bytes msg2))
    \<and> Status_new H StOk msg msg2 = None
    \<and> status_ok Status_success \<and> status_toString H Status_success = Some (ascii ''OK'')"
proof -
  let ?m = "full_message (sl_bytes msg) (sl_bytes msg2)"
  have c: "good_code c" using assms(4) by (simp add: good_code_def)
  let ?H = "with_block H (status_block c ?m)"
  have "status_holds ?H (hp_next H) c ?m" using c assms(3,5) by (simp add: status_holds_def with_block_def)
  from status_code_ok [OF this] status_toString_ok [OF this]
  show ?thesis using Status_new_ok [OF assms(1,2) c assms(3)] assms(5)
    by (auto simp: status_ok_def status_is_def Status_new_def [of H StOk] full_message_def
        Status_success_def Status_default_def status_toString_def [of _ 0])
qed

theorem status_roundtrip_witness:
  "\<exists>s H'. Status_ioError \<lparr>hp_blocks = Map.empty, hp_next = 1\<rparr> (Slice_string [97]) (Slice_string [98]) = Some (s, H')
    \<and> status_toString H' s = Some (ascii ''IO error: '' @ [97, 58, 32, 98])"
proof -
  let ?H = "\<lparr>hp_blocks = Map.empty, hp_next = 1\<rparr> :: heap"
  have ok: "slice_ok (Slice_string [97])" "slice_ok (Slice_string [98])" by simp_all
  have len: "length (full_message (sl_bytes (Slice_string [97])) (sl_bytes (Slice_string [98]))) + 5 < 2 ^ 32"
    by (simp add: full_message_def)
  have c: "StIOError \<in> {StNotFound, StCorruption, StNotSupported, StInvalidArgument, StIOError}"
    and n: "hp_next ?H \<noteq> 0" by simp_all
  obtain s H' where s: "Status_new ?H StIOError (Slice_string [97]) (Slice_string [98]) = Some (s, H')"
    "status_toString H' s = Some (code_text StIOError @ sl_bytes (Slice_string [97]) @
        (if sl_bytes (Slice_string [98]) = [] then [] else [58, 32] @ sl_bytes (Slice_string [98])))"
    using status_roundtrip [OF ok len c n] by blast
  show ?thesis using s by (auto simp: Status_ioError_def)
qed

end
