(* ===== verification/KV_Env.thy ===== *)
theory KV_Env
  imports KV_Status "HOL-Library.Sublist"
begin

text \<open>
  The operating system interface: src/include/env.h and src/util/env.cc. The classes
  \<open>Env\<close>, \<open>SequentialFile\<close>, \<open>WritableFile\<close> and \<open>Logger\<close> are abstract: an object is the record of
  its virtual functions over a world \<open>'w\<close>, and nothing is assumed of them in the definitions.
  A status is its value, as KV_Status justifies: \<open>None\<close> is success. The code that the repository
  implements on top of the interface is translated: the two default functions of \<open>Env\<close>, the
  forwarding class \<open>EnvWrapper\<close>, \<open>Log\<close>, \<open>WriteStringToFile\<close> and \<open>ReadFileToString\<close>.

  The locale \<open>file_env\<close> is what the comments of env.h promise of the abstract functions; each
  of them may still fail at any time. A wrapped environment keeps the promise (a sublocale),
  and a file system in memory whose disk can be full is the instance for the witnesses.
\<close>

section \<open>The abstract classes\<close>

type_synonym fname = "byte list"

definition val_ok :: "status_val \<Rightarrow> bool" where
  "val_ok s = (s = None)"

record 'w sequential_file =
  sf_read :: "nat \<Rightarrow> 'w \<Rightarrow> (status_val \<times> slice) \<times> 'w"
  sf_skip :: "u64 \<Rightarrow> 'w \<Rightarrow> status_val \<times> 'w"
  sf_destroy :: "'w \<Rightarrow> 'w"

record 'w random_access_file =
  rf_read :: "u64 \<Rightarrow> nat \<Rightarrow> 'w \<Rightarrow> (status_val \<times> slice) \<times> 'w"

record 'w writable_file =
  wf_append :: "slice \<Rightarrow> 'w \<Rightarrow> status_val \<times> 'w"
  wf_close :: "'w \<Rightarrow> status_val \<times> 'w"
  wf_flush :: "'w \<Rightarrow> status_val \<times> 'w"
  wf_sync :: "'w \<Rightarrow> status_val \<times> 'w"
  wf_destroy :: "'w \<Rightarrow> 'w"

text \<open>A variadic argument list is the list of its words.\<close>

record 'w logger =
  lg_logv :: "byte list \<Rightarrow> u64 list \<Rightarrow> 'w \<Rightarrow> 'w"

text \<open>
  The pure virtual functions of \<open>Env\<close>; the two that have a body, \<open>deleteFile\<close> and
  \<open>deleteDir\<close>, extend them. A result pointer is \<open>None\<close> when it is null, and a \<open>FileLock\<close> is
  its address.
\<close>

record 'w env_base =
  newSequentialFile :: "fname \<Rightarrow> 'w \<Rightarrow> (status_val \<times> 'w sequential_file option) \<times> 'w"
  newRandomAccessFile :: "fname \<Rightarrow> 'w \<Rightarrow> (status_val \<times> 'w random_access_file option) \<times> 'w"
  newWritableFile :: "fname \<Rightarrow> 'w \<Rightarrow> (status_val \<times> 'w writable_file option) \<times> 'w"
  newAppendableFile :: "fname \<Rightarrow> 'w \<Rightarrow> (status_val \<times> 'w writable_file option) \<times> 'w"
  fileExists :: "fname \<Rightarrow> 'w \<Rightarrow> bool \<times> 'w"
  getChildren :: "fname \<Rightarrow> 'w \<Rightarrow> (status_val \<times> fname list) \<times> 'w"
  removeFile :: "fname \<Rightarrow> 'w \<Rightarrow> status_val \<times> 'w"
  createDir :: "fname \<Rightarrow> 'w \<Rightarrow> status_val \<times> 'w"
  removeDir :: "fname \<Rightarrow> 'w \<Rightarrow> status_val \<times> 'w"
  getFileSize :: "fname \<Rightarrow> 'w \<Rightarrow> (status_val \<times> u64) \<times> 'w"
  renameFile :: "fname \<Rightarrow> fname \<Rightarrow> 'w \<Rightarrow> status_val \<times> 'w"
  lockFile :: "fname \<Rightarrow> 'w \<Rightarrow> (status_val \<times> nat) \<times> 'w"
  unlockFile :: "nat \<Rightarrow> 'w \<Rightarrow> status_val \<times> 'w"
  schedule :: "(nat \<Rightarrow> 'w \<Rightarrow> 'w) \<Rightarrow> nat \<Rightarrow> 'w \<Rightarrow> 'w"
  startThread :: "(nat \<Rightarrow> 'w \<Rightarrow> 'w) \<Rightarrow> nat \<Rightarrow> 'w \<Rightarrow> 'w"
  getTestDirectory :: "'w \<Rightarrow> (status_val \<times> fname) \<times> 'w"
  newLogger :: "fname \<Rightarrow> 'w \<Rightarrow> (status_val \<times> 'w logger option) \<times> 'w"
  nowTimeMicros :: "'w \<Rightarrow> u64 \<times> 'w"
  sleepForMicroseconds :: "int \<Rightarrow> 'w \<Rightarrow> 'w"

record 'w env = "'w env_base" +
  deleteFile :: "fname \<Rightarrow> 'w \<Rightarrow> status_val \<times> 'w"
  deleteDir :: "fname \<Rightarrow> 'w \<Rightarrow> status_val \<times> 'w"

section \<open>The code on top of them\<close>

text \<open>The bodies of the two defaults: virtual calls on the object itself.\<close>

definition Env_deleteDir :: "('w, 'm) env_base_scheme \<Rightarrow> fname \<Rightarrow> 'w \<Rightarrow> status_val \<times> 'w" where
  "Env_deleteDir this fname w = removeDir this fname w"

definition Env_deleteFile :: "('w, 'm) env_base_scheme \<Rightarrow> fname \<Rightarrow> 'w \<Rightarrow> status_val \<times> 'w" where
  "Env_deleteFile this fname w = removeFile this fname w"

text \<open>
  \<open>EnvWrapper\<close> overrides the pure virtual functions; \<open>deleteFile\<close> and \<open>deleteDir\<close> it inherits,
  so that they run on the wrapper.
\<close>

definition EnvWrapper_base :: "'w env \<Rightarrow> 'w env_base" where
  "EnvWrapper_base t = \<lparr>
     newSequentialFile = (\<lambda>f. newSequentialFile t f),
     newRandomAccessFile = (\<lambda>f. newRandomAccessFile t f),
     newWritableFile = (\<lambda>f. newWritableFile t f),
     newAppendableFile = (\<lambda>f. newAppendableFile t f),
     fileExists = (\<lambda>f. fileExists t f),
     getChildren = (\<lambda>dir. getChildren t dir),
     removeFile = (\<lambda>f. removeFile t f),
     createDir = (\<lambda>d. createDir t d),
     removeDir = (\<lambda>d. removeDir t d),
     getFileSize = (\<lambda>f. getFileSize t f),
     renameFile = (\<lambda>s u. renameFile t s u),
     lockFile = (\<lambda>f. lockFile t f),
     unlockFile = (\<lambda>l. unlockFile t l),
     schedule = (\<lambda>f a. schedule t f a),
     startThread = (\<lambda>f a. startThread t f a),
     getTestDirectory = getTestDirectory t,
     newLogger = (\<lambda>fname. newLogger t fname),
     nowTimeMicros = nowTimeMicros t,
     sleepForMicroseconds = (\<lambda>micros. sleepForMicroseconds t micros)\<rparr>"

definition EnvWrapper :: "'w env \<Rightarrow> 'w env" where
  "EnvWrapper t = (let this = EnvWrapper_base t in
     env_base.extend this \<lparr>deleteFile = Env_deleteFile this, deleteDir = Env_deleteDir this\<rparr>)"

definition LogF :: "'w logger option \<Rightarrow> byte list \<Rightarrow> u64 list \<Rightarrow> 'w \<Rightarrow> 'w" where
  "LogF info_log format ap w = (case info_log of None \<Rightarrow> w | Some l \<Rightarrow> lg_logv l format ap w)"

text \<open>
  The two file functions. \<open>None\<close> is a run without a defined result: a call through a null
  file pointer or, for the loop of \<open>ReadFileToString\<close>, one that does not end.
\<close>

definition DoWriteStringToFile ::
    "'w env \<Rightarrow> slice \<Rightarrow> fname \<Rightarrow> bool \<Rightarrow> 'w \<Rightarrow> (status_val \<times> 'w) option" where
  "DoWriteStringToFile env data frame may_sync w =
     (let ((s, file), w) = newWritableFile env frame w in
      if \<not> val_ok s then Some (s, w)
      else do {
        file \<leftarrow> file;
        let (s, w) = wf_append file data w;
        let (s, w) = (if val_ok s \<and> may_sync then wf_sync file w else (s, w));
        let (s, w) = (if val_ok s then wf_close file w else (s, w));
        let w = wf_destroy file w;
        let w = (if \<not> val_ok s then snd (deleteFile env frame w) else w);
        Some (s, w) })"

definition WriteStringToFile :: "'w env \<Rightarrow> slice \<Rightarrow> fname \<Rightarrow> 'w \<Rightarrow> (status_val \<times> 'w) option" where
  "WriteStringToFile env data fname w = DoWriteStringToFile env data fname False w"

definition s_buffer_size :: nat where
  "s_buffer_size = 8192"

text \<open>The bytes of a fragment are read at once: the next \<open>read\<close> may reuse the buffer.\<close>

partial_function (option) read_loop ::
    "'w sequential_file \<Rightarrow> byte list \<Rightarrow> 'w \<Rightarrow> ((status_val \<times> byte list) \<times> 'w) option" where
  "read_loop file data w =
     (case sf_read file s_buffer_size w of ((s, fragment), w) \<Rightarrow>
      if \<not> val_ok s then Some ((s, data), w)
      else Option.bind (slice_toString fragment) (\<lambda>bs.
        let data = data @ bs in
        if slice_isempty fragment then Some ((s, data), w)
        else read_loop file data w))"

definition ReadFileToString ::
    "'w env \<Rightarrow> fname \<Rightarrow> 'w \<Rightarrow> ((status_val \<times> byte list) \<times> 'w) option" where
  "ReadFileToString env fname w =
     (let ((s, file), w) = newSequentialFile env fname w in
      if \<not> val_ok s then Some ((s, []), w)
      else do {
        file \<leftarrow> file;
        (r, w) \<leftarrow> read_loop file [] w;
        Some (r, sf_destroy file w) })"

section \<open>What the code relies on\<close>

definition same_but :: "fname \<Rightarrow> (fname \<Rightarrow> byte list option) \<Rightarrow> (fname \<Rightarrow> byte list option) \<Rightarrow> bool" where
  "same_but f c c' \<longleftrightarrow> (\<forall>g. g \<noteq> f \<longrightarrow> c' g = c g)"

lemma same_but_refl [simp]: "same_but f c c"
  by (simp add: same_but_def)

lemma same_but_trans: "same_but f a b \<Longrightarrow> same_but f b c \<Longrightarrow> same_but f a c"
  by (simp add: same_but_def)

text \<open>
  The promises of the abstract functions. A writable file collects what is appended to it and
  may hold it back in a buffer; a successful \<open>close\<close> settles the file. A sequential file yields
  the rest of its file piece by piece, with an empty piece at the end of the file only. No
  operation on one file changes another, and reading changes none.
\<close>

locale file_env =
  fixes e :: "'w env"
    and content :: "'w \<Rightarrow> fname \<Rightarrow> byte list option"
    and writer :: "'w writable_file \<Rightarrow> fname \<Rightarrow> byte list \<Rightarrow> 'w \<Rightarrow> bool"
    and settled :: "'w writable_file \<Rightarrow> fname \<Rightarrow> 'w \<Rightarrow> bool"
    and reader :: "'w sequential_file \<Rightarrow> byte list \<Rightarrow> 'w \<Rightarrow> bool"
  assumes new_writable: "newWritableFile e f w = ((s, file), w') \<Longrightarrow> same_but f (content w) (content w')"
    and new_writable_ok: "newWritableFile e f w = ((s, file), w') \<Longrightarrow> val_ok s \<Longrightarrow>
      \<exists>F. file = Some F \<and> writer F f [] w'"
    and append: "writer F f b w \<Longrightarrow> slice_ok d \<Longrightarrow> wf_append F d w = (s, w') \<Longrightarrow>
      same_but f (content w) (content w')
        \<and> (if val_ok s then writer F f (b @ sl_bytes d) w' else \<exists>b'. writer F f b' w')"
    and sync: "writer F f b w \<Longrightarrow> wf_sync F w = (s, w') \<Longrightarrow> same_but f (content w) (content w')
        \<and> (if val_ok s then writer F f b w' else \<exists>b'. writer F f b' w')"
    and close: "writer F f b w \<Longrightarrow> wf_close F w = (s, w') \<Longrightarrow> same_but f (content w) (content w')
        \<and> (if val_ok s then settled F f w' \<and> content w' f = Some b else \<exists>b'. writer F f b' w')"
    and destroy_writer: "writer F f b w \<Longrightarrow> same_but f (content w) (content (wf_destroy F w))"
    and destroy_settled: "settled F f w \<Longrightarrow> content (wf_destroy F w) = content w"
    and remove: "removeFile e f w = (s, w') \<Longrightarrow> same_but f (content w) (content w')
        \<and> (val_ok s \<longrightarrow> content w' f = None)"
    and delete: "deleteFile e f w = (s, w') \<Longrightarrow> same_but f (content w) (content w')
        \<and> (val_ok s \<longrightarrow> content w' f = None)"
    and new_sequential: "newSequentialFile e f w = ((s, file'), w') \<Longrightarrow> content w' = content w
        \<and> (val_ok s \<longrightarrow> (\<exists>F x. file' = Some F \<and> content w f = Some x \<and> reader F x w'))"
    and read: "reader R x w \<Longrightarrow> 0 < n \<Longrightarrow> sf_read R n w = ((s, frag), w') \<Longrightarrow> content w' = content w
        \<and> (if val_ok s then slice_ok frag \<and> (sl_bytes frag = [] \<longrightarrow> x = [])
             \<and> (\<exists>y. x = sl_bytes frag @ y \<and> reader R y w')
           else \<exists>y. reader R y w')"
    and destroy_reader: "reader R x w \<Longrightarrow> content (sf_destroy R w) = content w"
begin

text \<open>The append, the sync, if it is asked for, and the close, each only after the ones before it succeeded.\<close>

lemma append_sync_close:
  assumes F: "writer F f [] w1" and d: "slice_ok d" and s2: "wf_append F d w1 = (s2, w2)"
    and s3: "(if val_ok s2 \<and> may_sync then wf_sync F w2 else (s2, w2)) = (s3, w3)"
    and s4: "(if val_ok s3 then wf_close F w3 else (s3, w3)) = (s4, w4)"
  shows "same_but f (content w1) (content w4)
    \<and> (if val_ok s4 then settled F f w4 \<and> content w4 f = Some (sl_bytes d) else \<exists>b'. writer F f b' w4)"
proof -
  note a = append [OF F d s2]
  have b: "same_but f (content w1) (content w3)
      \<and> (if val_ok s3 then writer F f (sl_bytes d) w3 else \<exists>b'. writer F f b' w3)"
  proof (cases "val_ok s2 \<and> may_sync")
    case True
    then have "writer F f (sl_bytes d) w2" "wf_sync F w2 = (s3, w3)" using a s3 by simp_all
    from sync [OF this] show ?thesis using a same_but_trans by blast
  qed (use a s3 in auto)
  show ?thesis
  proof (cases "val_ok s3")
    case True
    then have "writer F f (sl_bytes d) w3" "wf_close F w3 = (s4, w4)" using b s4 by simp_all
    from close [OF this] show ?thesis using b same_but_trans by blast
  qed (use b s4 in auto)
qed

lemma write_spec:
  assumes "slice_ok d"
  shows "\<exists>s w'. DoWriteStringToFile e d f may_sync w = Some (s, w') \<and> same_but f (content w) (content w')
    \<and> (val_ok s \<longrightarrow> content w' f = Some (sl_bytes d))
    \<and> (\<not> val_ok s \<longrightarrow> (\<exists>file. newWritableFile e f w = ((s, file), w'))
        \<or> (\<exists>w0 t. deleteFile e f w0 = (t, w') \<and> (val_ok t \<longrightarrow> content w' f = None)))"
proof -
  obtain s1 fp w1 where 1: "newWritableFile e f w = ((s1, fp), w1)" by (metis surj_pair)
  note c1 = new_writable [OF 1]
  show ?thesis
  proof (cases "val_ok s1")
    case False
    then show ?thesis using 1 c1 by (simp add: DoWriteStringToFile_def)
  next
    case True
    then obtain F where F: "fp = Some F" "writer F f [] w1" using new_writable_ok [OF 1] by blast
    obtain s2 w2 where 2: "wf_append F d w1 = (s2, w2)" by (metis surj_pair)
    obtain s3 w3 where 3: "(if val_ok s2 \<and> may_sync then wf_sync F w2 else (s2, w2)) = (s3, w3)"
      by (metis surj_pair)
    obtain s4 w4 where 4: "(if val_ok s3 then wf_close F w3 else (s3, w3)) = (s4, w4)" by (metis surj_pair)
    note c = append_sync_close [OF F(2) assms 2 3 4]
    have run: "DoWriteStringToFile e d f may_sync w = Some (s4,
        if \<not> val_ok s4 then snd (deleteFile e f (wf_destroy F w4)) else wf_destroy F w4)"
      using True by (simp add: DoWriteStringToFile_def 1 2 3 4 F(1))
    show ?thesis
    proof (cases "val_ok s4")
      case True
      then have "content (wf_destroy F w4) = content w4" using c destroy_settled by auto
      then show ?thesis using True c run same_but_trans [OF c1] by auto
    next
      case False
      then have "same_but f (content w4) (content (wf_destroy F w4))" using c destroy_writer by auto
      moreover obtain t w5 where 5: "deleteFile e f (wf_destroy F w4) = (t, w5)" by (metis surj_pair)
      note d = delete [OF 5]
      ultimately have "same_but f (content w) (content w5)" using c1 c d same_but_trans by blast
      then show ?thesis using False run 5 d by auto
    qed
  qed
qed

lemma read_loop_spec:
  assumes "reader R x w"
  shows "\<exists>s d w'. read_loop R acc w = Some ((s, acc @ d), w') \<and> content w' = content w
    \<and> (\<exists>y. reader R y w') \<and> (if val_ok s then d = x else prefix d x)"
  using assms
proof (induction "length x" arbitrary: x acc w rule: less_induct)
  case less
  obtain s frag w1 where 1: "sf_read R s_buffer_size w = ((s, frag), w1)" by (metis surj_pair)
  have "0 < s_buffer_size" by (simp add: s_buffer_size_def)
  note r = read [OF less.prems this 1]
  show ?case
  proof (cases "val_ok s")
    case False
    then show ?thesis using r by (subst read_loop.simps) (simp add: 1)
  next
    case True
    then obtain y where y: "slice_ok frag" "sl_bytes frag = [] \<Longrightarrow> x = []" "x = sl_bytes frag @ y" "reader R y w1"
      using r by auto
    have bs: "slice_toString frag = Some (sl_bytes frag)" using y(1) by (rule slice_toString_ok)
    show ?thesis
    proof (cases "sl_bytes frag = []")
      case e: True
      then have "slice_isempty frag" using y(1) by (auto simp: slice_isempty_def sl_bytes_def slice_ok_def)
      then show ?thesis using True r y e by (subst read_loop.simps) (auto simp: 1 bs)
    next
      case False
      then have ne: "\<not> slice_isempty frag" by (auto simp: slice_isempty_def sl_bytes_def)
      have "length y < length x" using False y(3) by simp
      from less.hyps [OF this y(4), of "acc @ sl_bytes frag"] obtain s' d w' where
        ih: "read_loop R (acc @ sl_bytes frag) w1 = Some ((s', (acc @ sl_bytes frag) @ d), w')"
          "content w' = content w1" "\<exists>y. reader R y w'" "if val_ok s' then d = y else prefix d y" by blast
      have "read_loop R acc w = Some ((s', acc @ (sl_bytes frag @ d)), w')"
        using True ne ih(1) by (subst read_loop.simps) (simp add: 1 bs)
      moreover have "if val_ok s' then sl_bytes frag @ d = x else prefix (sl_bytes frag @ d) x"
        using ih(4) y(3) by (simp split: if_splits)
      ultimately show ?thesis using ih(2,3) r by metis
    qed
  qed
qed

lemma read_spec:
  "\<exists>s d w'. ReadFileToString e f w = Some ((s, d), w') \<and> content w' = content w
    \<and> (if val_ok s then content w f = Some d else d = [] \<or> (\<exists>x. content w f = Some x \<and> prefix d x))"
proof -
  obtain s1 fp w1 where 1: "newSequentialFile e f w = ((s1, fp), w1)" by (metis surj_pair)
  note o = new_sequential [OF 1]
  show ?thesis
  proof (cases "val_ok s1")
    case False
    then show ?thesis using 1 o by (simp add: ReadFileToString_def)
  next
    case True
    then obtain F x where F: "fp = Some F" "content w f = Some x" "reader F x w1" using o by blast
    from read_loop_spec [OF F(3), of "[]"] obtain s d w2 y where
      r: "read_loop F [] w1 = Some ((s, d), w2)" "content w2 = content w1" "reader F y w2"
        "if val_ok s then d = x else prefix d x" by auto
    have "ReadFileToString e f w = Some ((s, d), sf_destroy F w2)"
      using True by (simp add: ReadFileToString_def 1 F(1) r(1))
    moreover have "content (sf_destroy F w2) = content w" using destroy_reader [OF r(3)] r(2) o by simp
    ultimately show ?thesis using r(4) F(2) by (auto split: if_splits)
  qed
qed

end

section \<open>The wrapper\<close>

lemma EnvWrapper_sel [simp]:
  "newSequentialFile (EnvWrapper t) = newSequentialFile t" "newWritableFile (EnvWrapper t) = newWritableFile t"
  "removeFile (EnvWrapper t) = removeFile t" "deleteFile (EnvWrapper t) = removeFile t"
  "deleteDir (EnvWrapper t) = removeDir t"
  by (simp_all add: EnvWrapper_def EnvWrapper_base_def env_base.defs Let_def Env_deleteFile_def
      Env_deleteDir_def fun_eq_iff)

lemma EnvWrapper_base_id: "env_base.truncate (EnvWrapper t) = env_base.truncate t"
  by (simp add: EnvWrapper_def EnvWrapper_base_def env_base.defs Let_def)

text \<open>A wrapped environment keeps the promises: files are deleted by \<open>removeFile\<close> of the target.\<close>

context file_env
begin

lemma wrapped: "file_env (EnvWrapper e) content writer settled reader"
proof
  fix f w s w'
  assume "deleteFile (EnvWrapper e) f w = (s, w')"
  then have "removeFile e f w = (s, w')" by simp
  from remove [OF this] show "same_but f (content w) (content w') \<and> (val_ok s \<longrightarrow> content w' f = None)" .
qed (use new_writable new_writable_ok append sync close destroy_writer destroy_settled remove
    new_sequential read destroy_reader in \<open>simp_all\<close>)


end

section \<open>A file system in memory\<close>

text \<open>
  An instance of the interface: files in memory, at most \<open>mf_room\<close> more bytes, and a reader is
  the number under which its unread bytes are kept. What the other functions of the interface
  do does not matter here: they report that they are not supported.
\<close>

record memfs =
  mf_files :: "fname \<rightharpoonup> byte list"
  mf_room :: nat
  mf_open :: "nat \<rightharpoonup> byte list"
  mf_next :: nat

definition unsupported :: status_val where
  "unsupported = Some (StNotSupported, [])"

definition mem_writer :: "fname \<Rightarrow> memfs writable_file" where
  "mem_writer f = \<lparr>
     wf_append = (\<lambda>d w. case mf_files w f of None \<Rightarrow> (unsupported, w)
       | Some b \<Rightarrow> if sl_size d \<le> mf_room w
           then (None, w\<lparr>mf_files := (mf_files w)(f \<mapsto> b @ sl_bytes d), mf_room := mf_room w - sl_size d\<rparr>)
           else (Some (StIOError, ascii ''disk full''), w)),
     wf_close = (\<lambda>w. (None, w)), wf_flush = (\<lambda>w. (None, w)), wf_sync = (\<lambda>w. (None, w)),
     wf_destroy = (\<lambda>w. w)\<rparr>"

definition mem_reader :: "nat \<Rightarrow> memfs sequential_file" where
  "mem_reader h = \<lparr>
     sf_read = (\<lambda>n w. case mf_open w h of None \<Rightarrow> ((unsupported, Slice_empty), w)
       | Some x \<Rightarrow> ((None, Slice_string (take n x)), w\<lparr>mf_open := (mf_open w)(h \<mapsto> drop n x)\<rparr>)),
     sf_skip = (\<lambda>n w. case mf_open w h of None \<Rightarrow> (unsupported, w)
       | Some x \<Rightarrow> (None, w\<lparr>mf_open := (mf_open w)(h \<mapsto> drop (unat n) x)\<rparr>)),
     sf_destroy = (\<lambda>w. w\<lparr>mf_open := (mf_open w)(h := None)\<rparr>)\<rparr>"

definition mem_remove :: "fname \<Rightarrow> memfs \<Rightarrow> status_val \<times> memfs" where
  "mem_remove f w = (case mf_files w f of None \<Rightarrow> (Some (StNotFound, f), w)
     | Some b \<Rightarrow> (None, w\<lparr>mf_files := (mf_files w)(f := None), mf_room := mf_room w + length b\<rparr>))"

definition mem_env :: "memfs env" where
  "mem_env = \<lparr>
     newSequentialFile = (\<lambda>f w. case mf_files w f of None \<Rightarrow> ((Some (StNotFound, f), None), w)
       | Some x \<Rightarrow> ((None, Some (mem_reader (mf_next w))),
           w\<lparr>mf_open := (mf_open w)(mf_next w \<mapsto> x), mf_next := mf_next w + 1\<rparr>)),
     newRandomAccessFile = (\<lambda>f w. ((unsupported, None), w)),
     newWritableFile = (\<lambda>f w. ((None, Some (mem_writer f)), w\<lparr>mf_files := (mf_files w)(f \<mapsto> [])\<rparr>)),
     newAppendableFile = (\<lambda>f w. ((unsupported, None), w)),
     fileExists = (\<lambda>f w. (f \<in> dom (mf_files w), w)),
     getChildren = (\<lambda>d w. ((unsupported, []), w)),
     removeFile = mem_remove,
     createDir = (\<lambda>d w. (unsupported, w)),
     removeDir = (\<lambda>d w. (unsupported, w)),
     getFileSize = (\<lambda>f w. case mf_files w f of None \<Rightarrow> ((Some (StNotFound, f), 0), w)
       | Some x \<Rightarrow> ((None, word_of_nat (length x)), w)),
     renameFile = (\<lambda>f g w. (unsupported, w)),
     lockFile = (\<lambda>f w. ((unsupported, 0), w)),
     unlockFile = (\<lambda>l w. (unsupported, w)),
     schedule = (\<lambda>f a w. f a w),
     startThread = (\<lambda>f a w. f a w),
     getTestDirectory = (\<lambda>w. ((unsupported, []), w)),
     newLogger = (\<lambda>f w. ((unsupported, None), w)),
     nowTimeMicros = (\<lambda>w. (0, w)),
     sleepForMicroseconds = (\<lambda>n w. w),
     deleteFile = mem_remove,
     deleteDir = (\<lambda>d w. (unsupported, w))\<rparr>"

lemma mem_writer_sel:
  "wf_append (mem_writer f) d w = (case mf_files w f of None \<Rightarrow> (unsupported, w)
     | Some b \<Rightarrow> if sl_size d \<le> mf_room w
         then (None, w\<lparr>mf_files := (mf_files w)(f \<mapsto> b @ sl_bytes d), mf_room := mf_room w - sl_size d\<rparr>)
         else (Some (StIOError, ascii ''disk full''), w))"
  "wf_close (mem_writer f) w = (None, w)" "wf_sync (mem_writer f) w = (None, w)" "wf_destroy (mem_writer f) w = w"
  by (simp_all add: mem_writer_def)

lemma mem_reader_sel:
  "sf_read (mem_reader h) n w = (case mf_open w h of None \<Rightarrow> ((unsupported, Slice_empty), w)
     | Some x \<Rightarrow> ((None, Slice_string (take n x)), w\<lparr>mf_open := (mf_open w)(h \<mapsto> drop n x)\<rparr>))"
  "sf_destroy (mem_reader h) w = w\<lparr>mf_open := (mf_open w)(h := None)\<rparr>"
  by (simp_all add: mem_reader_def)

lemma mem_read:
  assumes "mf_open w h = Some x"
  shows "sf_read (mem_reader h) n w = ((None, Slice_string (take n x)), w\<lparr>mf_open := (mf_open w)(h \<mapsto> drop n x)\<rparr>)"
  by (simp add: mem_reader_sel assms)

lemmas memfs_defs = mem_env_def mem_writer_sel mem_reader_sel mem_remove_def val_ok_def unsupported_def

interpretation mem: file_env mem_env mf_files "\<lambda>F f b w. F = mem_writer f \<and> mf_files w f = Some b"
  "\<lambda>F f w. F = mem_writer f" "\<lambda>R x w. \<exists>h. R = mem_reader h \<and> mf_open w h = Some x"
proof (unfold_locales, goal_cases)
  case (11 R x w n s frag w')
  then obtain h where h: "R = mem_reader h" "mf_open w h = Some x" by blast
  then have "s = None" "frag = Slice_string (take n x)" "w' = w\<lparr>mf_open := (mf_open w)(h \<mapsto> drop n x)\<rparr>"
    using 11(3) by (simp_all add: mem_read)
  then show ?case using h 11(2) by (auto simp: val_ok_def intro!: exI [of _ "drop n x"] exI [of _ h])
qed (auto simp: memfs_defs same_but_def split: option.splits if_splits)

interpretation wrapped_mem: file_env "EnvWrapper mem_env" mf_files
  "\<lambda>F f b w. F = mem_writer f \<and> mf_files w f = Some b"
  "\<lambda>F f w. F = mem_writer f" "\<lambda>R x w. \<exists>h. R = mem_reader h \<and> mf_open w h = Some x"
  by (rule mem.wrapped)

section \<open>Properties\<close>

text \<open>
  C20 (src/util/env.cc, \<open>WriteStringToFile\<close> and \<open>DoWriteStringToFile\<close>). In every environment that
  keeps the promises of env.h, and with or without \<open>sync\<close>: the function returns, touches no
  other file, and when it reports success the file holds exactly the data. When it reports an
  error, either the file could not be created and nothing else was done, or the last thing
  done was to delete the file, so that no partial file is left unless that fails as well.
\<close>

theorem WriteStringToFile_correct:
  assumes "file_env e content writer settled reader" "slice_ok d"
  shows "\<exists>s w'. DoWriteStringToFile e d f may_sync w = Some (s, w')
    \<and> (WriteStringToFile e d f w = DoWriteStringToFile e d f False w)
    \<and> (\<forall>g. g \<noteq> f \<longrightarrow> content w' g = content w g)
    \<and> (if val_ok s then content w' f = Some (sl_bytes d)
       else (\<exists>fp. newWritableFile e f w = ((s, fp), w'))
         \<or> (\<exists>w0 t. deleteFile e f w0 = (t, w') \<and> (val_ok t \<longrightarrow> content w' f = None)))"
proof -
  obtain s w' where "DoWriteStringToFile e d f may_sync w = Some (s, w')" "same_but f (content w) (content w')"
    "val_ok s \<longrightarrow> content w' f = Some (sl_bytes d)"
    "\<not> val_ok s \<longrightarrow> (\<exists>fp. newWritableFile e f w = ((s, fp), w'))
      \<or> (\<exists>w0 t. deleteFile e f w0 = (t, w') \<and> (val_ok t \<longrightarrow> content w' f = None))"
    using file_env.write_spec [OF assms] by blast
  then show ?thesis by (auto simp: same_but_def WriteStringToFile_def)
qed

text \<open>A disk with room for three bytes: the second write fails and its file is deleted.\<close>

theorem WriteStringToFile_correct_witness:
  "\<exists>s w'. WriteStringToFile mem_env (Slice_string [1, 2, 3, 4]) [98]
      \<lparr>mf_files = [[97] \<mapsto> [7]], mf_room = 3, mf_open = Map.empty, mf_next = 0\<rparr> = Some (s, w')
    \<and> \<not> val_ok s \<and> mf_files w' [98] = None \<and> mf_files w' [97] = Some [7]"
proof -
  let ?w = "\<lparr>mf_files = [[97] \<mapsto> [7]], mf_room = 3, mf_open = Map.empty, mf_next = 0\<rparr> :: memfs"
  let ?d = "Slice_string [1, 2, 3, 4]"
  have ok: "slice_ok ?d" by simp
  obtain s w' where r: "DoWriteStringToFile mem_env ?d [98] False ?w = Some (s, w')"
    "WriteStringToFile mem_env ?d [98] ?w = DoWriteStringToFile mem_env ?d [98] False ?w"
    "\<forall>g. g \<noteq> [98] \<longrightarrow> mf_files w' g = mf_files ?w g"
    using WriteStringToFile_correct [OF mem.file_env_axioms ok, of "[98]" False ?w] by blast
  have "\<not> val_ok s \<and> mf_files w' [98] = None"
    using r(1) by (auto simp: DoWriteStringToFile_def memfs_defs Slice_string_def)
  then show ?thesis using r by auto
qed

text \<open>
  C21 (src/util/env.cc, \<open>ReadFileToString\<close>). In every environment that keeps the promises of
  env.h the loop ends, whatever the sizes of the pieces that \<open>read\<close> returns, no file changes,
  and the result is the content of the file when success is reported; when an error is
  reported it is empty or a prefix of the content.
\<close>

theorem ReadFileToString_correct:
  assumes "file_env e content writer settled reader"
  shows "\<exists>s d w'. ReadFileToString e f w = Some ((s, d), w') \<and> content w' = content w
    \<and> (if val_ok s then content w f = Some d else d = [] \<or> (\<exists>x. content w f = Some x \<and> prefix d x))"
  by (rule file_env.read_spec [OF assms])

theorem ReadFileToString_correct_witness:
  "\<exists>s d w'. ReadFileToString (EnvWrapper mem_env) [97]
      \<lparr>mf_files = [[97] \<mapsto> [7, 8]], mf_room = 3, mf_open = Map.empty, mf_next = 0\<rparr> = Some ((s, d), w')
    \<and> (val_ok s \<longrightarrow> d = [7, 8])"
  using ReadFileToString_correct [OF wrapped_mem.file_env_axioms, of "[97]"
      "\<lparr>mf_files = [[97] \<mapsto> [7, 8]], mf_room = 3, mf_open = Map.empty, mf_next = 0\<rparr> :: memfs"]
  by fastforce

text \<open>
  C22 (src/util/env.cc and env.h, \<open>WriteStringToFile\<close>, \<open>ReadFileToString\<close>, \<open>EnvWrapper\<close>). Data
  written through a wrapper is read back through the environment it wraps: after a write that
  reports success the read returns, and unless \<open>read\<close> fails it gives the bytes written. A
  wrapper deletes files by \<open>removeFile\<close> of its target, never by the target's own
  \<open>deleteFile\<close>, and forwards every other call.
\<close>

theorem env_write_read_roundtrip:
  assumes "file_env e content writer settled reader" "slice_ok d"
    and "WriteStringToFile (EnvWrapper e) d f w = Some (s, w1)" "val_ok s"
  shows "\<exists>s' x w2. ReadFileToString e f w1 = Some ((s', x), w2) \<and> (val_ok s' \<longrightarrow> x = sl_bytes d)
    \<and> deleteFile (EnvWrapper e) f = removeFile e f \<and> deleteDir (EnvWrapper e) f = removeDir e f
    \<and> env_base.truncate (EnvWrapper e) = env_base.truncate e"
proof -
  have "content w1 f = Some (sl_bytes d)"
    using file_env.write_spec [OF file_env.wrapped [OF assms(1)] assms(2), of f False w] assms(3,4)
    by (auto simp: WriteStringToFile_def)
  moreover obtain s' x w2 where "ReadFileToString e f w1 = Some ((s', x), w2)"
    "val_ok s' \<Longrightarrow> content w1 f = Some x" using file_env.read_spec [OF assms(1), of f w1] by metis
  ultimately show ?thesis by (auto simp: EnvWrapper_base_id)
qed

theorem env_write_read_roundtrip_witness:
  "\<exists>w1 w2. WriteStringToFile (EnvWrapper mem_env) (Slice_string [104, 105]) [97]
      \<lparr>mf_files = Map.empty, mf_room = 3, mf_open = Map.empty, mf_next = 0\<rparr> = Some (None, w1)
    \<and> ReadFileToString mem_env [97] w1 = Some ((None, [104, 105]), w2)"
proof -
  let ?w = "\<lparr>mf_files = Map.empty, mf_room = 3, mf_open = Map.empty, mf_next = 0\<rparr> :: memfs"
  let ?w1 = "\<lparr>mf_files = [[97] \<mapsto> [104, 105]], mf_room = 1, mf_open = Map.empty, mf_next = 0\<rparr> :: memfs"
  have ok: "slice_ok (Slice_string [104, 105])" by simp
  have w: "WriteStringToFile (EnvWrapper mem_env) (Slice_string [104, 105]) [97] ?w = Some (None, ?w1)"
    by (simp add: WriteStringToFile_def DoWriteStringToFile_def memfs_defs Slice_string_def sl_bytes_def)
  have v: "val_ok None" by (simp add: val_ok_def)
  obtain s' x w2 where r: "ReadFileToString mem_env [97] ?w1 = Some ((s', x), w2)"
    "val_ok s' \<Longrightarrow> x = sl_bytes (Slice_string [104, 105])"
    using env_write_read_roundtrip [OF mem.file_env_axioms ok w v] by blast
  have "s' = None"
    using r(1) by (auto simp: ReadFileToString_def read_loop.simps memfs_defs Slice_string_def
        slice_isempty_def slice_toString_def load_range_def s_buffer_size_def)
  then show ?thesis using w r v by auto
qed

end
