(* ===== verification/KV_Options.thy ===== *)
theory KV_Options
  imports KV_Env KV_Format
begin

text \<open>
  Plain data and the interfaces that have no implementation yet: the options of
  src/include/options.h with the defaults of its member initialisers and of
  src/util/options.cc, the abstract classes of src/include/iterator.h and
  src/include/database.h, and the wrapper for objects that are never destroyed,
  src/util/no_destructor.h, with the function-local static variable it is made for.
  A pointer to a class that is only declared (\<open>Cache\<close>, \<open>Snapshot\<close>, \<open>WriteBatch\<close>) is an address.
\<close>

section \<open>Options\<close>

datatype CompressionType = NoCompression | SnappyCompression | ZstdCompression

fun compression_num :: "CompressionType \<Rightarrow> int" where
  "compression_num NoCompression = 0"
| "compression_num SnappyCompression = 1"
| "compression_num ZstdCompression = 2"

record 'w options =
  op_comparator :: comparator
  op_create_if_missing :: bool
  op_error_if_exists :: bool
  op_paranoid_checks :: bool
  op_env :: "'w env"
  op_info_log :: "'w logger option"
  op_write_buffer_size :: u64
  op_max_open_files :: int
  op_block_cache :: nat
  op_block_size :: u64
  op_block_restart_interval :: int
  op_max_file_size :: u64
  op_compression :: CompressionType
  op_zstd_compression_level :: int
  op_reuse_logs :: bool
  op_filter_policy :: "filter_policy option"

text \<open>\<open>Env::defaultEnv\<close> is declared in env.h and defined nowhere: it is a parameter.\<close>

definition Options_new :: "'w env \<Rightarrow> 'w options" where
  "Options_new defaultEnv = \<lparr>
     op_comparator = BytewiseComparator,
     op_create_if_missing = False,
     op_error_if_exists = False,
     op_paranoid_checks = False,
     op_env = defaultEnv,
     op_info_log = None,
     op_write_buffer_size = 4 * 1024 * 1024,
     op_max_open_files = 1000,
     op_block_cache = 0,
     op_block_size = 4 * 1024,
     op_block_restart_interval = 16,
     op_max_file_size = 2 * 1024 * 1024,
     op_compression = SnappyCompression,
     op_zstd_compression_level = 1,
     op_reuse_logs = False,
     op_filter_policy = None\<rparr>"

record read_options =
  ro_verify_checksums :: bool
  ro_fill_cache :: bool
  ro_snapshot :: nat

definition ReadOptions_new :: read_options where
  "ReadOptions_new = \<lparr>ro_verify_checksums = False, ro_fill_cache = True, ro_snapshot = 0\<rparr>"

record write_options =
  wo_sync :: bool

definition WriteOptions_new :: write_options where
  "WriteOptions_new = \<lparr>wo_sync = False\<rparr>"

section \<open>The abstract iterator\<close>

record 'w iterator_class =
  ic_valid :: "'w \<Rightarrow> bool"
  ic_seekToFirst :: "'w \<Rightarrow> 'w"
  ic_seekToLast :: "'w \<Rightarrow> 'w"
  ic_seek :: "slice \<Rightarrow> 'w \<Rightarrow> 'w"
  ic_next :: "'w \<Rightarrow> 'w"
  ic_prev :: "'w \<Rightarrow> 'w"
  ic_key :: "'w \<Rightarrow> slice"
  ic_value :: "'w \<Rightarrow> slice"
  ic_status :: "'w \<Rightarrow> status_val"

text \<open>\<open>registerCleanup\<close> is declared only; its nodes have two functions.\<close>

record 'w cleanup_node =
  cn_func :: "(nat \<Rightarrow> nat \<Rightarrow> 'w \<Rightarrow> 'w) option"
  cn_arg1 :: nat
  cn_arg2 :: nat
  cn_next :: nat

definition cleanup_isEmpty :: "'w cleanup_node \<Rightarrow> bool" where
  "cleanup_isEmpty n = (cn_func n = None)"

definition cleanup_run :: "'w cleanup_node \<Rightarrow> 'w \<Rightarrow> 'w option" where
  "cleanup_run n w = do {
     _ \<leftarrow> cassert (cn_func n \<noteq> None);
     func \<leftarrow> cn_func n;
     Some (func (cn_arg1 n) (cn_arg2 n) w) }"

lemma cleanup_run_iff: "cleanup_run n w \<noteq> None \<longleftrightarrow> \<not> cleanup_isEmpty n"
  by (cases "cn_func n") (auto simp: cleanup_run_def cleanup_isEmpty_def cassert_def)

section \<open>The abstract database\<close>

definition s_major_version :: int where
  "s_major_version = 1"

definition s_minor_version :: int where
  "s_minor_version = 23"

record range =
  rg_start :: slice
  rg_limit :: slice

definition Range_new :: "slice \<Rightarrow> slice \<Rightarrow> range" where
  "Range_new s l = \<lparr>rg_start = s, rg_limit = l\<rparr>"

record 'w database_class =
  db_putKey :: "write_options \<Rightarrow> slice \<Rightarrow> slice \<Rightarrow> 'w \<Rightarrow> status_val \<times> 'w"
  db_deleteKey :: "write_options \<Rightarrow> slice \<Rightarrow> 'w \<Rightarrow> status_val \<times> 'w"
  db_write :: "write_options \<Rightarrow> nat \<Rightarrow> 'w \<Rightarrow> status_val \<times> 'w"
  db_getValue :: "read_options \<Rightarrow> slice \<Rightarrow> 'w \<Rightarrow> (status_val \<times> byte list) \<times> 'w"
  db_newIterator :: "read_options \<Rightarrow> 'w \<Rightarrow> 'w iterator_class \<times> 'w"
  db_getSnapshot :: "'w \<Rightarrow> nat \<times> 'w"
  db_releaseSnapshot :: "nat \<Rightarrow> 'w \<Rightarrow> 'w"
  db_getProperty :: "slice \<Rightarrow> 'w \<Rightarrow> (bool \<times> byte list) \<times> 'w"
  db_getApproximateSizes :: "range list \<Rightarrow> 'w \<Rightarrow> u64 list \<times> 'w"
  db_compactRange :: "slice option \<Rightarrow> slice option \<Rightarrow> 'w \<Rightarrow> 'w"

section \<open>Objects that are never destroyed\<close>

text \<open>
  The storage is raw bytes until the constructor has built the instance in it; the defaulted
  destructor of the wrapper does not run the destructor of the instance.
\<close>

record 'a no_destructor =
  instance_storage :: "'a option"

definition NoDestructor_new :: "('w \<Rightarrow> 'a \<times> 'w) \<Rightarrow> 'w \<Rightarrow> 'a no_destructor \<times> 'w" where
  "NoDestructor_new ctor w = (let (x, w) = ctor w in (\<lparr>instance_storage = Some x\<rparr>, w))"

definition NoDestructor_get :: "'a no_destructor \<Rightarrow> 'a option" where
  "NoDestructor_get s = instance_storage s"

definition NoDestructor_delete :: "'a no_destructor \<Rightarrow> 'w \<Rightarrow> 'w" where
  "NoDestructor_delete s w = w"

text \<open>
  \<open>static NoDestructor<T> singleton; return singleton.get();\<close>: the first call constructs, the
  guard of the static variable (here: whether it exists) keeps every later call from it.
\<close>

definition singleton_call ::
    "('w \<Rightarrow> 'a \<times> 'w) \<Rightarrow> 'a no_destructor option \<times> 'w \<Rightarrow> 'a option \<times> 'a no_destructor option \<times> 'w" where
  "singleton_call ctor st = (case st of
     (None, w) \<Rightarrow> (let (s, w) = NoDestructor_new ctor w in (NoDestructor_get s, Some s, w))
   | (Some s, w) \<Rightarrow> (NoDestructor_get s, Some s, w))"

definition BytewiseComparator_call ::
    "comparator no_destructor option \<times> 'w \<Rightarrow> comparator option \<times> comparator no_destructor option \<times> 'w" where
  "BytewiseComparator_call = singleton_call (\<lambda>w. (BytewiseComparator, w))"

primrec singleton_calls ::
    "('w \<Rightarrow> 'a \<times> 'w) \<Rightarrow> nat \<Rightarrow> 'a no_destructor option \<times> 'w \<Rightarrow> 'a option list \<times> 'a no_destructor option \<times> 'w" where
  "singleton_calls ctor 0 st = ([], st)"
| "singleton_calls ctor (Suc n) st =
     (let (r, st) = singleton_call ctor st; (rs, st) = singleton_calls ctor n st in (r # rs, st))"

lemma singleton_calls_later:
  "singleton_calls ctor n (Some \<lparr>instance_storage = Some x\<rparr>, w) =
    (replicate n (Some x), Some \<lparr>instance_storage = Some x\<rparr>, w)"
  by (induction n) (simp_all add: singleton_call_def NoDestructor_get_def)

text \<open>Any number of calls: one construction, one instance, and nothing at the end of the program.\<close>

lemma singleton_calls_once:
  assumes "0 < n" "ctor w = (x, w1)"
  shows "\<exists>s. singleton_calls ctor n (None, w) = (replicate n (Some x), Some s, w1)
    \<and> NoDestructor_get s = Some x \<and> NoDestructor_delete s w1 = w1"
  using assms by (cases n) (auto simp: singleton_call_def NoDestructor_new_def NoDestructor_get_def
      NoDestructor_delete_def singleton_calls_later)

lemma BytewiseComparator_calls:
  "fst (BytewiseComparator_call (None, w)) = Some BytewiseComparator"
  "snd (snd (BytewiseComparator_call (None, w))) = w"
  by (simp_all add: BytewiseComparator_call_def singleton_call_def NoDestructor_new_def NoDestructor_get_def)

end
