(* ===== verification/KV_Tests.thy ===== *)
theory KV_Tests
  imports KV_Status KV_SkipClient KV_Options
begin

text \<open>
  Unit tests of src/test/ on the model: what they expect of the code, evaluated, or, where a
  test tries many values, proved for all of them. No other theory rests on this one. The tests
  of the coding, of slices, statuses and static objects are here, and \<open>Empty\<close> of the skip list;
  the others of the skip list and the one of the arena are covered by the properties of
  KV_SkipClient, KV_SkipWeak and KV_Arena, and the tests of the environment run on an
  implementation that the repository does not have.
\<close>

section \<open>coding_test.cc\<close>

theorem test_EncodingOutput:
  "PutFixed32 [] 0x04030201 = Some [1, 2, 3, 4]"
  "PutFixed64 [] 0x0807060504030201 = Some [1, 2, 3, 4, 5, 6, 7, 8]"
  by code_simp+

theorem test_Varint32Overflow: "GetVarint32Ptr [0x81, 0x82, 0x83, 0x84, 0x85, 0x11] 0 6 = Some None"
  by code_simp

theorem test_Varint64Overflow:
  "GetVarint64Ptr [0x81, 0x82, 0x83, 0x84, 0x85, 0x81, 0x82, 0x83, 0x84, 0x85, 0x11] 0 11 = Some None"
  by code_simp

text \<open>\<open>Fixed32\<close> and \<open>Fixed64\<close>: numbers written one after the other are read back at their places.\<close>

fun put_each :: "(byte list \<Rightarrow> 'v \<Rightarrow> byte list option) \<Rightarrow> 'v list \<Rightarrow> byte list \<Rightarrow> byte list option" where
  "put_each put [] dst = Some dst"
| "put_each put (v # vs) dst = do { dst \<leftarrow> put dst v; put_each put vs dst }"

lemma put_each_bytes:
  "(\<And>dst v. put dst v = Some (dst @ enc v)) \<Longrightarrow> put_each put vs dst = Some (dst @ concat (map enc vs))"
  by (induction vs arbitrary: dst) simp_all

lemma concat_fixed:
  assumes "i < length vs" "\<And>v. length (enc v) = k"
  shows "concat (map enc vs) = concat (map enc (take i vs)) @ enc (vs ! i) @ concat (map enc (drop (Suc i) vs))"
    "length (concat (map enc (take i vs))) = k * i"
proof -
  have "vs = take i vs @ vs ! i # drop (Suc i) vs" using assms(1) by (rule id_take_nth_drop)
  then show "concat (map enc vs) = concat (map enc (take i vs)) @ enc (vs ! i) @ concat (map enc (drop (Suc i) vs))"
    by (metis concat.simps(2) concat_append list.simps(9) map_append)
  show "length (concat (map enc (take i vs))) = k * i"
    using assms by (simp add: length_concat comp_def sum_list_triv)
qed

theorem test_Fixed32:
  assumes "i < length vs"
  shows "\<exists>s. put_each PutFixed32 vs [] = Some s \<and> DecodeFixed32 s (4 * i) = Some (vs ! i)"
  using concat_fixed [OF assms, of "\<lambda>v. le_bytes 4 (unat v)" 4] DecodeFixed32_le
  by (simp add: put_each_bytes [of PutFixed32 "\<lambda>v. le_bytes 4 (unat v)"] PutFixed32_bytes) metis

theorem test_Fixed64:
  assumes "i < length vs"
  shows "\<exists>s. put_each PutFixed64 vs [] = Some s \<and> DecodeFixed64 s (8 * i) = Some (vs ! i)"
  using concat_fixed [OF assms, of "\<lambda>v. le_bytes 8 (unat v)" 8] DecodeFixed64_le
  by (simp add: put_each_bytes [of PutFixed64 "\<lambda>v. le_bytes 8 (unat v)"] PutFixed64_bytes) metis

text \<open>\<open>Varint32\<close>, \<open>Varint64\<close> and \<open>Strings\<close>, in one stream: what was put is got back in the same order.\<close>

datatype item = V32 u32 | V64 u64 | Str "byte list"

fun put_item :: "byte list \<Rightarrow> item \<Rightarrow> byte list option" where
  "put_item dst (V32 v) = PutVarint32 dst v"
| "put_item dst (V64 v) = PutVarint64 dst v"
| "put_item dst (Str s) = PutLengthPrefixedSlice dst (Slice_string s)"

text \<open>The decoder for an item of the kind of the first argument.\<close>

fun get_item :: "item \<Rightarrow> slice \<Rightarrow> (slice \<times> item) option" where
  "get_item (V32 _) input = do { r \<leftarrow> GetVarint32 input; (input, v) \<leftarrow> r; Some (input, V32 v) }"
| "get_item (V64 _) input = do { r \<leftarrow> GetVarint64 input; (input, v) \<leftarrow> r; Some (input, V64 v) }"
| "get_item (Str _) input = do {
     (input, r) \<leftarrow> GetLengthPrefixedSlice input; r \<leftarrow> r; s \<leftarrow> slice_toString r; Some (input, Str s) }"

fun get_each :: "item list \<Rightarrow> slice \<Rightarrow> (slice \<times> item list) option" where
  "get_each [] input = Some (input, [])"
| "get_each (i # is) input = do {
     (input, x) \<leftarrow> get_item i input; (input, xs) \<leftarrow> get_each is input; Some (input, x # xs) }"

fun item_bytes :: "item \<Rightarrow> byte list" where
  "item_bytes (V32 v) = varint_bytes (unat v)"
| "item_bytes (V64 v) = varint_bytes (unat v)"
| "item_bytes (Str s) = varint_bytes (length s) @ s"

definition item_ok :: "item \<Rightarrow> bool" where
  "item_ok i = (case i of Str s \<Rightarrow> length s < 2 ^ 32 | _ \<Rightarrow> True)"

lemma get_item_ok:
  assumes "slice_ok s" "item_ok i" "sl_bytes s = item_bytes i @ rest"
  shows "\<exists>s'. get_item i s = Some (s', i) \<and> slice_ok s' \<and> sl_bytes s' = rest"
proof (cases i)
  case (V32 v)
  let ?c = "length (varint_bytes (unat v))"
  have "varint_parse 5 (sl_bytes s) = Some (unat v, ?c)"
    using assms(3) V32 unat_u32_varint by (simp add: varint_parse_bytes)
  moreover have "sl_bytes (Slice_ptr (sl_mem s) (sl_off s + ?c) (sl_size s - ?c)) = rest"
    "slice_ok (Slice_ptr (sl_mem s) (sl_off s + ?c) (sl_size s - ?c))"
    using slice_advance [OF assms(1), of ?c] assms(3) V32 length_sl_bytes [OF assms(1)] by simp_all
  ultimately show ?thesis using GetVarint32_parse [OF assms(1)] V32 by simp
next
  case (V64 v)
  let ?c = "length (varint_bytes (unat v))"
  have "varint_parse 10 (sl_bytes s) = Some (unat v, ?c)"
    using assms(3) V64 unat_u64_varint by (simp add: varint_parse_bytes)
  moreover have "sl_bytes (Slice_ptr (sl_mem s) (sl_off s + ?c) (sl_size s - ?c)) = rest"
    "slice_ok (Slice_ptr (sl_mem s) (sl_off s + ?c) (sl_size s - ?c))"
    using slice_advance [OF assms(1), of ?c] assms(3) V64 length_sl_bytes [OF assms(1)] by simp_all
  ultimately show ?thesis using GetVarint64_parse [OF assms(1)] V64 by simp
next
  case (Str x)
  then have "length x < 2 ^ 32" "sl_bytes s = varint_bytes (length x) @ x @ rest"
    using assms(2,3) by (simp_all add: item_ok_def)
  from GetLengthPrefixedSlice_ok [OF assms(1) this(2,1)] Str show ?thesis
    using slice_toString_ok by fastforce
qed

lemma get_each_ok:
  "slice_ok s \<Longrightarrow> \<forall>i \<in> set is. item_ok i \<Longrightarrow> sl_bytes s = concat (map item_bytes is) @ rest \<Longrightarrow>
   \<exists>s'. get_each is s = Some (s', is) \<and> sl_bytes s' = rest"
proof (induction "is" arbitrary: s)
  case (Cons i "is")
  then obtain s1 where s1: "get_item i s = Some (s1, i)" "slice_ok s1" "sl_bytes s1 = concat (map item_bytes is) @ rest"
    using get_item_ok [of s i "concat (map item_bytes is) @ rest"] by auto
  then show ?case using Cons.IH [OF s1(2) _ s1(3)] Cons.prems(2) by auto
qed simp

theorem test_streams:
  assumes "\<forall>i \<in> set items. item_ok i"
  shows "\<exists>s input. put_each put_item items [] = Some s \<and> get_each items (Slice_string s) = Some (input, items)
    \<and> sl_bytes input = []"
proof -
  have "put_each put_item is dst = Some (dst @ concat (map item_bytes is))" if "\<forall>i \<in> set is. item_ok i" for "is" dst
    using that
  proof (induction "is" arbitrary: dst)
    case (Cons i "is")
    then have "put_item dst i = Some (dst @ item_bytes i)"
      by (cases i) (simp_all add: PutVarint32_bytes PutVarint64_bytes PutLengthPrefixedSlice_bytes item_ok_def
        Slice_string_def slice_ok_def sl_bytes_def)
    then show ?case using Cons by simp
  qed simp
  note put = this [OF assms, of "[]"]
  have "slice_ok (Slice_string t)" "sl_bytes (Slice_string t) = t" for t
    by (simp_all add: Slice_string_def slice_ok_def sl_bytes_def)
  then show ?thesis using put get_each_ok [OF _ assms, of "Slice_string (concat (map item_bytes items))" "[]"] by auto
qed

section \<open>slice_test.cc\<close>

definition test_slice :: slice where
  "test_slice = Slice_string (ascii ''hello world'')"

theorem test_SliceConstructor:
  "slice_isempty Slice_empty \<and> sl_size Slice_empty = 0"
  "Option.bind (Slice_cstr (ascii ''hello'' @ [0]) 0) slice_toString = Some (ascii ''hello'')"
  "slice_toString (Slice_string (ascii ''world'')) = Some (ascii ''world'')"
  "slice_toString (Slice_ptr (ascii ''test'' @ [0]) 0 4) = Some (ascii ''test'')"
  by code_simp+

theorem test_SliceOperations:
  "\<not> slice_isempty test_slice \<and> sl_size test_slice = 11"
  "map (slice_at test_slice) [0, 5, 10] = map Some (ascii ''h d'')"
  "startsWith test_slice (Slice_string (ascii ''hello'')) = Some True"
  "Option.bind (removePrefix test_slice 6) slice_toString = Some (ascii ''world'')"
  "slice_at test_slice 11 = None \<and> removePrefix test_slice 12 = None"
  by code_simp+

theorem test_SliceCompare:
  "slice_compare (Slice_string (ascii ''abc'')) (Slice_string (ascii ''abd'')) = Some (-1)"
  "slice_compare (Slice_string (ascii ''abd'')) (Slice_string (ascii ''abc'')) = Some 1"
  "slice_compare (Slice_string (ascii ''abc'')) (Slice_string (ascii ''abc'')) = Some 0"
  "slice_neq (Slice_string (ascii ''abc'')) (Slice_string (ascii ''abd'')) = Some True"
  "map_option sl_size (Slice_cstr [0] 0) = Some 0"
  by code_simp+

section \<open>status_test.cc\<close>

definition custom_message :: slice where
  "custom_message = Slice_string (ascii ''custom NotFound status message'')"

theorem test_StatusMove:
  "Option.bind (exec_run [Make 0 StNotFound custom_message Slice_empty, Move 1 0] pstate_new)
     (\<lambda>s. Option.bind (pv s 1) (status_toString (ph s))) = Some (ascii ''NotFound: custom NotFound status message'')"
  by code_simp

section \<open>skiplist_test.cc\<close>

text \<open>\<open>Empty\<close>, on every arena and under every allocator that keeps its promises.\<close>

theorem test_SkipEmpty:
  assumes "good_new os" "8 \<le> nsz" "nsz \<le> 2 ^ 32" "arena_inv A R" "SkipList_new os nsz key0 A = Some S"
  shows "\<exists>c. run_calls (call_list os nsz int_cmp)
      [CallContains 10, ItNew 0, ItValid 0, ItSeekToFirst 0, ItValid 0, ItSeek 0 100, ItValid 0, ItSeekToLast 0, ItValid 0]
      (client_init S) =
    Some ([Truth False, NoAnswer, Truth False, NoAnswer, Truth False, NoAnswer, Truth False, NoAnswer, Truth False], c)"
    (is "\<exists>c. run_calls ?f ?p ?s = Some (?as, c)")
proof -
  have "\<forall>q \<in> set ?p. call_dom (\<lambda>_. True) q" by simp
  note run = int_keys.list_run_ok [OF client_rel_init [OF assms] this]
  have "legal_calls (legal_call int_cmp) (spec_call int_cmp) ?p cursors_init" by simp
  moreover have "spec_calls (spec_call int_cmp) ?p cursors_init = ?as" by (simp add: cursors_init_def put_at_def)
  moreover have "\<not> stuck ?f (call_oom os nsz) ?p ?s" by (rule not_stuck) auto
  ultimately show ?thesis using run by (auto split: option.splits)
qed

section \<open>no_destructor_test.cc\<close>

theorem test_NoDestructor: "NoDestructor_get (fst (NoDestructor_new (\<lambda>w. ((0xdeadbeef :: u32, 0xaabbccddeeffaabb :: u64), w)) w)) =
    Some (0xdeadbeef, 0xaabbccddeeffaabb)"
  by (simp add: NoDestructor_get_def NoDestructor_new_def)

end
