(* ===== verification/Spec2Isabelle.thy ===== *)
theory Spec2Isabelle
  imports KV_Slice KV_Coding KV_Random KV_Hash KV_Comparator KV_Logging KV_Format KV_Arena
    KV_SkipList KV_SkipInv KV_SkipSet KV_SkipClient KV_SkipSearch KV_SkipConc KV_SkipMem KV_SkipWeak KV_SkipWriter
    KV_Snapshot KV_SnapshotConc KV_Status KV_Env KV_Options KV_Tests
begin

text \<open>
  Distributed-KVStorage: a verification development for the C++ sources under src/, the lower
  half of a storage engine in the style of LevelDB. The database itself (DataBase, the
  memtable, database_impl) is only declared in the repository; what is implemented is the
  layer below it, and that is what is modelled here.

  The parts and their theories, in the order of their dependencies.

  KV_Prelude: bytes, words, checked access to blocks of bytes (\<open>load8\<close>, \<open>store_range\<close>, ...),
  \<open>cassert\<close>, little-endian values of byte lists; the lemmas all theories share.

  KV_Slice (include/slice.h): a slice is a pointer into a block and a length; \<open>sl_bytes\<close> is the
  byte string it denotes, and every operation is related to that string.

  KV_Coding (util/coding.h, coding.cc): fixed-width and variable-width integers on buffers,
  the string forms (Put...) and the decoders on slices (Get...). The decoders are compared
  with a parser of the format, on any input.

  KV_Random (util/random.h) and KV_Hash (util/hash.cc): the generator on 32- and 64-bit
  words, with its arithmetic, its period, the ranges of the derived draws and how often they take
  each value in a period; the hash, with its memory accesses and the equivalence with a fold over words and a tail.

  KV_Comparator (include/comparator.h, util/comparator.cc): the abstract class as a record of
  functions, the byte-wise implementation, and \<open>comparator_contract\<close>, what its users rely on.

  KV_Logging (util/logging.cc): decimal numbers and the (absent) escaping.

  KV_Format (database/db_format.h, db_format.cc): internal keys (user key, 56-bit sequence
  number, type), their comparator, which keeps the comparator contract whenever the user's
  comparator does (the sublocale of \<open>user_comparator\<close>), the filter policy adapter and
  \<open>LookupKey\<close> with its stack or heap buffer.

  KV_Arena (util/arena.h, arena.cc): bump allocation over blocks obtained from the system,
  which is a parameter. The invariant \<open>arena_inv A R\<close> speaks of the regions \<open>R\<close> handed out.

  KV_SkipList, KV_SkipInv, KV_SkipSet (database/skiplist.h): the template's operations on
  nodes at addresses of the arena; the invariant (every level is the sub-list of the nodes
  tall enough, all sorted) and its preservation; the operations against the sorted list of
  keys. The template parameter Comparator is the function \<open>cmp\<close>, \<open>D\<close> are the keys it is
  made for, and \<open>key_order\<close> is the law it must keep; \<open>ordered_container\<close> is the interface
  that the list offers.

  KV_SkipClient: programs over a list and any number of iterators against an abstract machine
  with the sorted keys and a key for each iterator (\<open>spec_call\<close>, \<open>legal_call\<close>). The locale
  \<open>call_simulation\<close> says what a simulation with answers is, and the list is an instance of it
  under every order of keys. The memory of the nodes is the subject of a second property: with a
  pointer for each level they lie inside the arena's blocks and apart from one another.

  KV_SkipSearch: the three searches as sequences of iterations, each with one load of a link,
  and the scan by \<open>seekToFirst\<close> or \<open>seek\<close> and then \<open>next\<close>; both are correct on every list of the right shape,
  also on one in the middle of an insertion.

  KV_SkipConc: the same list with one writer and any number of readers. \<open>insert_step\<close> is one
  access of \<open>insert\<close> to memory that readers share, \<open>conc_step\<close> one step of any thread; loads
  return the last value written. The invariant knows how far the new node is linked, and the
  steps of the writer taken together are the function \<open>skip_insert\<close>.

  KV_SkipMem and KV_SkipWeak: the same threads under the memory orders of the code (release
  stores, acquire loads, relaxed accesses to \<open>max_height_\<close> and to the links of a node that is
  not published). The memory is the history of the writer's states; a load reads it at any
  time that is not before the reader's view, and only reading a release store moves the view.
  Searches and scans of readers are shown to be those of one single state, never to pass over a
  key that the thread knew of (\<open>not_past\<close>, for \<open>seek\<close>, \<open>prev\<close> and \<open>seekToLast\<close>), and to be wait-free; the interleavings of KV_SkipConc are the
  executions in which all loads read the last value.

  KV_SkipWriter: the writer in the executions of KV_SkipMem. The insertions begun are read off the
  execution (\<open>weak_run\<close>): at rest the list holds the keys of all of them, nothing lost and nothing
  twice, \<open>contains\<close> answers accordingly, and each insertion takes a bounded number of steps that
  readers cannot hold up.

  KV_Snapshot: skip list, internal comparator and lookup key together: a lookup at a
  sequence number finds the newest entry it may see. The internal keys are made a type of
  class \<open>linorder\<close>, in which the contents of the list is the sorted list of the keys inserted.

  KV_SnapshotConc: the lookup under a concurrent writer with the memory orders of the code. As
  long as the writer adds newer entries only, a lookup depends on the reader's view at its
  start alone.

  KV_Status (include/status.h, status.cc): statuses own a heap block; the special member
  functions on an explicit heap where freeing twice, reading freed memory and leaking show,
  and the refinement of programs over them to programs on values.

  KV_Env (include/env.h, util/env.cc): the abstract classes as records of functions over a
  world, \<open>EnvWrapper\<close>, the default functions and the two file functions. \<open>file_env\<close> is what
  the comments of env.h promise of an implementation; each operation may still fail.

  KV_Options (include/options.h, util/options.cc, include/iterator.h, include/database.h,
  util/no_destructor.h): plain data, default values, interfaces without an implementation,
  and function-local static objects.

  KV_Tests (src/test/): what the unit tests of the coding, slices, statuses and static objects and
  the first of the skip list expect, evaluated on the model or proved for all values of the kind
  that a test samples.

  Conventions. A function of the source that can abort (a failed assertion), read or write
  outside its buffers, dereference null, or not return, gives an option, and \<open>None\<close> is such a
  run; theorems therefore state that the result is \<open>Some\<close>. Pointers and output arguments are
  passed in and returned. Machine integers keep their width (\<open>u32\<close>, \<open>u64\<close>, \<open>byte\<close>) where
  the code computes with them; sizes of objects in memory are natural numbers, and where the
  code converts or adds them at a fixed width the conversion is written out. Loops are
  recursive functions with a termination proof; those whose end depends on the shape of
  linked data or on a file (the searches of the skip list, the loop of ReadFileToString) are
  partial functions whose result \<open>Some\<close> is proved. No function takes fuel.

  Parameters, with what is assumed of them: the system allocator (\<open>good_new\<close>: a block is
  not null, aligned to eight bytes, inside the address space and disjoint from the blocks in
  use), the user's comparator (\<open>comparator_contract\<close>), the user's filter policy (no false
  negatives, in the property only), the environment (\<open>file_env\<close>), the bytes of
  uninitialised buffers, and the size of a node of the skip list. Every locale is
  interpreted on the model: the byte-wise and the internal comparator, the arena, the skip
  list under any comparator that keeps its contract, and a wrapped file system in memory.

  Not modelled: concurrent writers, which the skip list leaves to its clients to exclude;
  exhaustion of memory in the constructor of a status and in std::string; the text of the
  formats that Log passes on; the implementation of the abstract classes, which the
  repository does not have; memtable.h, memtable.cc and database_impl, which are empty.
\<close>

end
